(* ===== verification/Prelude.thy ===== *)
theory Prelude
  imports Main "HOL-Library.Word" "HOL-Library.AList"
begin

text \<open>
  Shared vocabulary of the development.  It fixes
  \<^item> how a C++ statement that may abort is written: a value of \<open>'a res\<close>, \<open>Inl e\<close> for a
    run that stops with error \<open>e\<close> and \<open>Inr x\<close> for a run that yields \<open>x\<close>, sequenced by
    \<open>bindE\<close> and iterated by \<open>fold_res\<close>;
  \<^item> the machine types of the simulator (64-bit program counters, addresses, hashes and ticks,
    32-bit data chunks);
  \<^item> checked access to C arrays and to \<open>std::vector\<close>/\<open>std::deque\<close>;
  \<^item> \<open>std::unordered_map\<close> as an association list with distinct keys.  The list order stands for
    the unspecified iteration order: lemmas about iteration hold for every order.
\<close>

unbundle bit_operations_syntax

section \<open>Machine types\<close>

type_synonym PC_t = "64 word"
type_synonym Addr_t = "64 word"
type_synonym hash_t = "64 word"
type_synonym Tick = "64 word"
type_synonym size_t = "64 word"
type_synonym DataChunk = "32 word"
type_synonym Age_t = int

section \<open>Runs that may abort\<close>

datatype error =
    Panic string
  | Assert_Fail string
  | Out_Of_Range
  | Undefined string

type_synonym 'a res = "error + 'a"

named_theorems res_simps \<open>evaluation of checked runs\<close>
named_theorems res_intros \<open>introduction rules for checked runs\<close>

definition bindE :: "'a res \<Rightarrow> ('a \<Rightarrow> 'b res) \<Rightarrow> 'b res" where
  "bindE m f = (case m of Inl e \<Rightarrow> Inl e | Inr x \<Rightarrow> f x)"

definition panic_if :: "bool \<Rightarrow> string \<Rightarrow> unit res" where
  "panic_if b msg = (if b then Inl (Panic msg) else Inr ())"

definition panic_if_not :: "bool \<Rightarrow> string \<Rightarrow> unit res" where
  "panic_if_not b msg = (if b then Inr () else Inl (Panic msg))"

definition assertE :: "bool \<Rightarrow> string \<Rightarrow> unit res" where
  "assertE b msg = (if b then Inr () else Inl (Assert_Fail msg))"

lemma bindE_simps [simp, res_simps]:
  "bindE (Inl e) f = Inl e"
  "bindE (Inr x) f = f x"
  by (simp_all add: bindE_def)

lemma bindE_eq_Inr [res_simps]: "bindE m f = Inr y \<longleftrightarrow> (\<exists>x. m = Inr x \<and> f x = Inr y)"
  by (cases m) auto

lemma bindE_assoc: "bindE (bindE m f) g = bindE m (\<lambda>x. bindE (f x) g)"
  by (cases m) auto

lemma bindE_Inr_E:
  assumes "bindE m f = Inr y"
  obtains x where "m = Inr x" "f x = Inr y"
  using assms by (auto simp: bindE_eq_Inr)

lemma guard_simps [simp, res_simps]:
  "panic_if False msg = Inr ()"
  "panic_if True msg = Inl (Panic msg)"
  "panic_if_not True msg = Inr ()"
  "panic_if_not False msg = Inl (Panic msg)"
  "assertE True msg = Inr ()"
  "assertE False msg = Inl (Assert_Fail msg)"
  by (simp_all add: panic_if_def panic_if_not_def assertE_def)

lemma guard_eq_Inr [simp, res_simps]:
  "panic_if b msg = Inr u \<longleftrightarrow> \<not> b"
  "panic_if_not b msg = Inr u \<longleftrightarrow> b"
  "assertE b msg = Inr u \<longleftrightarrow> b"
  by (auto simp: panic_if_def panic_if_not_def assertE_def)

text \<open>Whether a run finishes, and its value when it does.\<close>

definition is_ok :: "'a res \<Rightarrow> bool" where
  "is_ok m = (case m of Inl e \<Rightarrow> False | Inr x \<Rightarrow> True)"

lemma is_ok_simps [simp]: "is_ok (Inr x)" "\<not> is_ok (Inl e)"
  by (simp_all add: is_ok_def)

lemma is_ok_iff: "is_ok m \<longleftrightarrow> (\<exists>x. m = Inr x)"
  by (cases m) auto

section \<open>Loops over a sequence\<close>

text \<open>
  A \<open>for\<close> loop whose body changes a state and may abort: \<open>fold_res body xs s\<close> runs the body on
  every element of \<open>xs\<close> in order and stops at the first error.
\<close>

primrec fold_res :: "('a \<Rightarrow> 's \<Rightarrow> 's res) \<Rightarrow> 'a list \<Rightarrow> 's \<Rightarrow> 's res" where
  "fold_res f [] s = Inr s"
| "fold_res f (x # xs) s = bindE (f x s) (fold_res f xs)"

lemma fold_res_append: "fold_res f (xs @ ys) s = bindE (fold_res f xs s) (fold_res f ys)"
  by (induction xs arbitrary: s) (auto simp: bindE_def split: sum.splits)

lemma fold_res_cong [fundef_cong]:
  "xs = ys \<Longrightarrow> s = t \<Longrightarrow> (\<And>x u. x \<in> set ys \<Longrightarrow> f x u = g x u) \<Longrightarrow> fold_res f xs s = fold_res g ys t"
  by (induction xs arbitrary: s t ys) (auto simp: bindE_def split: sum.splits)

text \<open>Partial correctness: an invariant of the body is an invariant of the loop.\<close>

lemma fold_res_inv:
  assumes "fold_res f xs s = Inr t" and "I s"
    and step: "\<And>x u v. x \<in> set xs \<Longrightarrow> I u \<Longrightarrow> f x u = Inr v \<Longrightarrow> I v"
  shows "I t"
  using assms(1,2) step
proof (induction xs arbitrary: s)
  case Nil
  then show ?case by simp
next
  case (Cons x xs)
  then obtain u where u: "f x s = Inr u" "fold_res f xs u = Inr t"
    by (auto simp: bindE_eq_Inr)
  have "I u" using Cons.prems(2,3) u(1) by auto
  then show ?case
    using Cons.IH [OF u(2)] Cons.prems(3) by auto
qed

text \<open>Total correctness: if the body finishes under the invariant, so does the loop.\<close>

lemma fold_res_total:
  assumes "I s"
    and "\<And>x u. x \<in> set xs \<Longrightarrow> I u \<Longrightarrow> \<exists>v. f x u = Inr v \<and> I v"
  shows "\<exists>t. fold_res f xs s = Inr t \<and> I t"
  using assms
proof (induction xs arbitrary: s)
  case Nil
  then show ?case by simp
next
  case (Cons x xs)
  from Cons.prems(2) [of x s] Cons.prems(1) obtain u where u: "f x s = Inr u" "I u" by auto
  have "\<exists>t. fold_res f xs u = Inr t \<and> I t"
    by (rule Cons.IH [OF u(2)]) (use Cons.prems(2) in auto)
  with u show ?case by simp
qed

text \<open>A loop whose body never aborts is a fold.\<close>

lemma fold_res_Inr: "(\<And>x u. x \<in> set xs \<Longrightarrow> f x u = Inr (g x u)) \<Longrightarrow> fold_res f xs s = Inr (fold g xs s)"
  by (induction xs arbitrary: s) auto

section \<open>Arrays and sequence containers\<close>

text \<open>
  \<open>a[i]\<close> on a C array or a \<open>std::deque\<close> has no bounds check: outside the array the behaviour is
  undefined.  \<open>v.at(i)\<close> throws \<open>std::out_of_range\<close>.
\<close>

definition arr_get :: "'a list \<Rightarrow> nat \<Rightarrow> 'a res" where
  "arr_get xs i = (if i < length xs then Inr (xs ! i) else Inl (Undefined ''array index''))"

definition arr_set :: "'a list \<Rightarrow> nat \<Rightarrow> 'a \<Rightarrow> 'a list res" where
  "arr_set xs i x = (if i < length xs then Inr (xs[i := x]) else Inl (Undefined ''array index''))"

definition vec_at :: "'a list \<Rightarrow> nat \<Rightarrow> 'a res" where
  "vec_at xs i = (if i < length xs then Inr (xs ! i) else Inl Out_Of_Range)"

lemma arr_get_ok [simp]: "i < length xs \<Longrightarrow> arr_get xs i = Inr (xs ! i)"
  by (simp add: arr_get_def)

lemma arr_set_ok [simp]: "i < length xs \<Longrightarrow> arr_set xs i x = Inr (xs[i := x])"
  by (simp add: arr_set_def)

lemma vec_at_ok [simp]: "i < length xs \<Longrightarrow> vec_at xs i = Inr (xs ! i)"
  by (simp add: vec_at_def)

lemma arr_get_eq_Inr [res_simps]: "arr_get xs i = Inr y \<longleftrightarrow> i < length xs \<and> y = xs ! i"
  by (auto simp: arr_get_def)

lemma arr_set_eq_Inr [res_simps]: "arr_set xs i x = Inr ys \<longleftrightarrow> i < length xs \<and> ys = xs[i := x]"
  by (auto simp: arr_set_def)

lemma vec_at_eq_Inr [res_simps]: "vec_at xs i = Inr y \<longleftrightarrow> i < length xs \<and> y = xs ! i"
  by (auto simp: vec_at_def)

section \<open>Unordered maps\<close>

type_synonym ('k, 'v) umap = "('k \<times> 'v) list"

definition um_wf :: "('k, 'v) umap \<Rightarrow> bool" where
  "um_wf m = distinct (map fst m)"

definition um_find :: "('k, 'v) umap \<Rightarrow> 'k \<Rightarrow> 'v option" where
  "um_find m k = map_of m k"

definition um_put :: "'k \<Rightarrow> 'v \<Rightarrow> ('k, 'v) umap \<Rightarrow> ('k, 'v) umap" where
  "um_put k v m = AList.update k v m"

definition um_erase :: "'k \<Rightarrow> ('k, 'v) umap \<Rightarrow> ('k, 'v) umap" where
  "um_erase k m = AList.delete k m"

text \<open>\<open>insert\<close> and \<open>emplace\<close> of \<open>std::unordered_map\<close> leave an existing key alone.\<close>

definition um_insert :: "'k \<Rightarrow> 'v \<Rightarrow> ('k, 'v) umap \<Rightarrow> ('k, 'v) umap" where
  "um_insert k v m = (case um_find m k of None \<Rightarrow> um_put k v m | Some _ \<Rightarrow> m)"

text \<open>\<open>operator[]\<close> inserts a default value at a missing key; \<open>at\<close> throws.\<close>

definition um_index :: "'v \<Rightarrow> 'k \<Rightarrow> ('k, 'v) umap \<Rightarrow> ('k, 'v) umap" where
  "um_index d k m = um_insert k d m"

definition um_at :: "('k, 'v) umap \<Rightarrow> 'k \<Rightarrow> 'v res" where
  "um_at m k = (case um_find m k of None \<Rightarrow> Inl Out_Of_Range | Some v \<Rightarrow> Inr v)"

definition um_has :: "('k, 'v) umap \<Rightarrow> 'k \<Rightarrow> bool" where
  "um_has m k = (um_find m k \<noteq> None)"

text \<open>
  What a client of the container relies on.  The table components are proved against this
  interface; the association lists above implement it.
\<close>

locale hash_container =
  fixes find :: "'m \<Rightarrow> 'k \<Rightarrow> 'v option"
    and put :: "'k \<Rightarrow> 'v \<Rightarrow> 'm \<Rightarrow> 'm"
    and erase :: "'k \<Rightarrow> 'm \<Rightarrow> 'm"
    and wf :: "'m \<Rightarrow> bool"
  assumes find_put: "find (put k v m) = (find m)(k \<mapsto> v)"
    and find_erase: "find (erase k m) = (find m)(k := None)"
    and wf_put: "wf m \<Longrightarrow> wf (put k v m)"
    and wf_erase: "wf m \<Longrightarrow> wf (erase k m)"
begin

lemma find_put_same [simp]: "find (put k v m) k = Some v"
  by (simp add: find_put)

lemma find_put_other [simp]: "k' \<noteq> k \<Longrightarrow> find (put k v m) k' = find m k'"
  by (simp add: find_put)

lemma dom_put: "dom (find (put k v m)) = insert k (dom (find m))"
  by (simp add: find_put)

lemma dom_erase: "dom (find (erase k m)) = dom (find m) - {k}"
  by (auto simp: find_erase)

lemma put_put_find: "find (put k v (put k w m)) = find (put k v m)"
  by (simp add: find_put)

lemma fold_erase_find:
  "find (fold erase ks m) = (\<lambda>k. if k \<in> set ks then None else find m k)"
  by (induction ks arbitrary: m) (auto simp: find_erase)

lemma fold_erase_wf: "wf m \<Longrightarrow> wf (fold erase ks m)"
  by (induction ks arbitrary: m) (auto simp: wf_erase)

end

interpretation um: hash_container um_find um_put um_erase um_wf
proof
  fix k :: 'k and v :: 'v and m :: "('k \<times> 'v) list"
  show "um_find (um_put k v m) = (um_find m)(k \<mapsto> v)"
    by (rule ext) (simp add: um_find_def um_put_def update_conv')
  show "um_find (um_erase k m) = (um_find m)(k := None)"
    by (rule ext) (simp add: um_find_def um_erase_def delete_conv')
  show "um_wf m \<Longrightarrow> um_wf (um_put k v m)"
    by (simp add: um_wf_def um_put_def distinct_update)
  show "um_wf m \<Longrightarrow> um_wf (um_erase k m)"
    by (simp add: um_wf_def um_erase_def distinct_delete)
qed

lemma um_find_Nil [simp]: "um_find [] k = None"
  by (simp add: um_find_def)

lemma um_wf_Nil [simp]: "um_wf []"
  by (simp add: um_wf_def)

lemma um_find_iff: "um_wf m \<Longrightarrow> um_find m k = Some v \<longleftrightarrow> (k, v) \<in> set m"
  by (simp add: um_wf_def um_find_def)

lemma um_find_None: "um_find m k = None \<longleftrightarrow> k \<notin> fst ` set m"
  by (simp add: um_find_def map_of_eq_None_iff)

lemma um_find_erase: "um_find (um_erase k m) k' = (if k' = k then None else um_find m k')"
  by (simp add: um.find_erase)

lemma um_find_put: "um_find (um_put k v m) k' = (if k' = k then Some v else um_find m k')"
  by (simp add: um.find_put)

lemma um_find_insert: "um_find (um_insert k v m) k' =
    (if k' = k \<and> um_find m k = None then Some v else um_find m k')"
  by (auto simp: um_insert_def um_find_put split: option.splits)

lemma um_insert_present: "um_find m k \<noteq> None \<Longrightarrow> um_insert k v m = m"
  by (auto simp: um_insert_def)

lemma um_wf_insert: "um_wf m \<Longrightarrow> um_wf (um_insert k v m)"
  by (auto simp: um_insert_def um.wf_put split: option.splits)

lemma um_wf_index: "um_wf m \<Longrightarrow> um_wf (um_index d k m)"
  by (simp add: um_index_def um_wf_insert)

lemma um_find_index: "um_find (um_index d k m) k' =
    (if k' = k \<and> um_find m k = None then Some d else um_find m k')"
  by (simp add: um_index_def um_find_insert)

lemma um_at_eq_Inr [res_simps]: "um_at m k = Inr v \<longleftrightarrow> um_find m k = Some v"
  by (auto simp: um_at_def split: option.splits)

lemma um_at_Some [simp]: "um_find m k = Some v \<Longrightarrow> um_at m k = Inr v"
  by (simp add: um_at_def)

lemma length_um_put_fresh: "um_find m k = None \<Longrightarrow> length (um_put k v m) = Suc (length m)"
  by (induction m) (auto simp: um_find_def um_put_def split: if_splits)

lemma um_put_fresh: "um_find m k = None \<Longrightarrow> um_put k v m = m @ [(k, v)]"
  by (induction m) (auto simp: um_find_def um_put_def split: if_splits)

lemmas um_simps = um_find_put um_find_erase um_find_insert um_find_index
lemmas um_wf_intros = um.wf_put um.wf_erase um_wf_insert um_wf_index

section \<open>Lists\<close>

text \<open>The first index at which a predicate holds, as the search loops of the code compute it.\<close>

fun first_index :: "('a \<Rightarrow> bool) \<Rightarrow> 'a list \<Rightarrow> nat option" where
  "first_index P [] = None"
| "first_index P (x # xs) = (if P x then Some 0 else map_option Suc (first_index P xs))"

lemma first_index_None: "first_index P xs = None \<longleftrightarrow> (\<forall>i<length xs. \<not> P (xs ! i))"
proof (induction xs)
  case Nil
  then show ?case by simp
next
  case (Cons x xs)
  have "(\<forall>i<Suc (length xs). \<not> P ((x # xs) ! i)) \<longleftrightarrow> \<not> P x \<and> (\<forall>i<length xs. \<not> P (xs ! i))"
    using less_Suc_eq_0_disj by auto
  with Cons show ?case by simp
qed

lemma first_index_Some: "first_index P xs = Some i \<longleftrightarrow>
    i < length xs \<and> P (xs ! i) \<and> (\<forall>j<i. \<not> P (xs ! j))"
proof (induction xs arbitrary: i)
  case Nil
  then show ?case by simp
next
  case (Cons x xs)
  show ?case
    by (cases i) (auto simp: Cons.IH less_Suc_eq_0_disj)
qed

end
