(* ===== verification/Mem_Packet.thy ===== *)
theory Mem_Packet
  imports Prelude
begin

text \<open>
  The part of \<open>gem5/src/mem/packet.{hh,cc}\<close>, \<open>gem5/src/mem/request.hh\<close> and
  \<open>gem5/src/base/flags.hh\<close> that the predictor reads: the command table with its attributes and
  responses, the validity flags, and the accessors with the assertions they make.

  The payload of a packet is the list of its 32-bit chunks, the view \<open>getPtr<DataChunk>()\<close> gives;
  the predictor never reads a payload in another way.
\<close>

section \<open>Commands\<close>

datatype Command =
    InvalidCmd | ReadReq | ReadResp | ReadRespWithInvalidate | WriteReq | WriteResp
  | WritebackDirty | WritebackClean | WriteClean | CleanEvict | SoftPFReq | SoftPFExReq
  | HardPFReq | SoftPFResp | HardPFResp | WriteLineReq | UpgradeReq | SCUpgradeReq
  | UpgradeResp | SCUpgradeFailReq | UpgradeFailResp | ReadExReq | ReadExResp | ReadCleanReq
  | ReadSharedReq | LoadLockedReq | StoreCondReq | StoreCondFailReq | StoreCondResp
  | SwapReq | SwapResp | MessageReq | MessageResp | MemFenceReq | MemFenceResp
  | CleanSharedReq | CleanSharedResp | CleanInvalidReq | CleanInvalidResp
  | InvalidDestError | BadAddressError | FunctionalReadError | FunctionalWriteError
  | PrintReq | FlushReq | InvalidateReq | InvalidateResp

datatype Attribute =
    IsRead | IsWrite | IsUpgrade | IsInvalidate | IsClean | NeedsWritable | IsRequest
  | IsResponse | NeedsResponse | IsEviction | IsSWPrefetch | IsHWPrefetch | IsLlsc | HasData
  | IsError | IsPrint | IsFlush | FromCache

record CommandInfo =
  attributes :: "Attribute list"
  response :: Command

text \<open>The static table, one row per command in the order of the enumeration.\<close>

fun commandInfo :: "Command \<Rightarrow> CommandInfo" where
  "commandInfo InvalidCmd = \<lparr>attributes = [], response = InvalidCmd\<rparr>"
| "commandInfo ReadReq = \<lparr>attributes = [IsRead, IsRequest, NeedsResponse], response = ReadResp\<rparr>"
| "commandInfo ReadResp = \<lparr>attributes = [IsRead, IsResponse, HasData], response = InvalidCmd\<rparr>"
| "commandInfo ReadRespWithInvalidate =
     \<lparr>attributes = [IsRead, IsResponse, HasData, IsInvalidate], response = InvalidCmd\<rparr>"
| "commandInfo WriteReq =
     \<lparr>attributes = [IsWrite, NeedsWritable, IsRequest, NeedsResponse, HasData], response = WriteResp\<rparr>"
| "commandInfo WriteResp = \<lparr>attributes = [IsWrite, IsResponse], response = InvalidCmd\<rparr>"
| "commandInfo WritebackDirty =
     \<lparr>attributes = [IsWrite, IsRequest, IsEviction, HasData, FromCache], response = InvalidCmd\<rparr>"
| "commandInfo WritebackClean =
     \<lparr>attributes = [IsWrite, IsRequest, IsEviction, HasData, FromCache], response = InvalidCmd\<rparr>"
| "commandInfo WriteClean =
     \<lparr>attributes = [IsWrite, IsRequest, HasData, FromCache], response = InvalidCmd\<rparr>"
| "commandInfo CleanEvict = \<lparr>attributes = [IsRequest, IsEviction, FromCache], response = InvalidCmd\<rparr>"
| "commandInfo SoftPFReq =
     \<lparr>attributes = [IsRead, IsRequest, IsSWPrefetch, NeedsResponse], response = SoftPFResp\<rparr>"
| "commandInfo SoftPFExReq =
     \<lparr>attributes = [IsRead, NeedsWritable, IsInvalidate, IsRequest, IsSWPrefetch, NeedsResponse],
      response = SoftPFResp\<rparr>"
| "commandInfo HardPFReq =
     \<lparr>attributes = [IsRead, IsRequest, IsHWPrefetch, NeedsResponse, FromCache], response = HardPFResp\<rparr>"
| "commandInfo SoftPFResp =
     \<lparr>attributes = [IsRead, IsResponse, IsSWPrefetch, HasData], response = InvalidCmd\<rparr>"
| "commandInfo HardPFResp =
     \<lparr>attributes = [IsRead, IsResponse, IsHWPrefetch, HasData], response = InvalidCmd\<rparr>"
| "commandInfo WriteLineReq =
     \<lparr>attributes = [IsWrite, NeedsWritable, IsRequest, NeedsResponse, HasData], response = WriteResp\<rparr>"
| "commandInfo UpgradeReq =
     \<lparr>attributes = [IsInvalidate, NeedsWritable, IsUpgrade, IsRequest, NeedsResponse, FromCache],
      response = UpgradeResp\<rparr>"
| "commandInfo SCUpgradeReq =
     \<lparr>attributes = [IsInvalidate, NeedsWritable, IsUpgrade, IsLlsc, IsRequest, NeedsResponse, FromCache],
      response = UpgradeResp\<rparr>"
| "commandInfo UpgradeResp = \<lparr>attributes = [IsUpgrade, IsResponse], response = InvalidCmd\<rparr>"
| "commandInfo SCUpgradeFailReq =
     \<lparr>attributes = [IsRead, NeedsWritable, IsInvalidate, IsLlsc, IsRequest, NeedsResponse, FromCache],
      response = UpgradeFailResp\<rparr>"
| "commandInfo UpgradeFailResp = \<lparr>attributes = [IsRead, IsResponse, HasData], response = InvalidCmd\<rparr>"
| "commandInfo ReadExReq =
     \<lparr>attributes = [IsRead, NeedsWritable, IsInvalidate, IsRequest, NeedsResponse, FromCache],
      response = ReadExResp\<rparr>"
| "commandInfo ReadExResp = \<lparr>attributes = [IsRead, IsResponse, HasData], response = InvalidCmd\<rparr>"
| "commandInfo ReadCleanReq =
     \<lparr>attributes = [IsRead, IsRequest, NeedsResponse, FromCache], response = ReadResp\<rparr>"
| "commandInfo ReadSharedReq =
     \<lparr>attributes = [IsRead, IsRequest, NeedsResponse, FromCache], response = ReadResp\<rparr>"
| "commandInfo LoadLockedReq =
     \<lparr>attributes = [IsRead, IsLlsc, IsRequest, NeedsResponse], response = ReadResp\<rparr>"
| "commandInfo StoreCondReq =
     \<lparr>attributes = [IsWrite, NeedsWritable, IsLlsc, IsRequest, NeedsResponse, HasData],
      response = StoreCondResp\<rparr>"
| "commandInfo StoreCondFailReq =
     \<lparr>attributes = [IsWrite, NeedsWritable, IsLlsc, IsRequest, NeedsResponse, HasData],
      response = StoreCondResp\<rparr>"
| "commandInfo StoreCondResp = \<lparr>attributes = [IsWrite, IsLlsc, IsResponse], response = InvalidCmd\<rparr>"
| "commandInfo SwapReq =
     \<lparr>attributes = [IsRead, IsWrite, NeedsWritable, IsRequest, HasData, NeedsResponse],
      response = SwapResp\<rparr>"
| "commandInfo SwapResp = \<lparr>attributes = [IsRead, IsWrite, IsResponse, HasData], response = InvalidCmd\<rparr>"
| "commandInfo MessageReq =
     \<lparr>attributes = [IsWrite, IsRequest, NeedsResponse, HasData], response = MessageResp\<rparr>"
| "commandInfo MessageResp = \<lparr>attributes = [IsWrite, IsResponse], response = InvalidCmd\<rparr>"
| "commandInfo MemFenceReq = \<lparr>attributes = [IsRequest, NeedsResponse], response = MemFenceResp\<rparr>"
| "commandInfo MemFenceResp = \<lparr>attributes = [IsResponse], response = InvalidCmd\<rparr>"
| "commandInfo CleanSharedReq =
     \<lparr>attributes = [IsRequest, IsClean, NeedsResponse, FromCache], response = CleanSharedResp\<rparr>"
| "commandInfo CleanSharedResp = \<lparr>attributes = [IsResponse, IsClean], response = InvalidCmd\<rparr>"
| "commandInfo CleanInvalidReq =
     \<lparr>attributes = [IsRequest, IsInvalidate, IsClean, NeedsResponse, FromCache],
      response = CleanInvalidResp\<rparr>"
| "commandInfo CleanInvalidResp =
     \<lparr>attributes = [IsResponse, IsInvalidate, IsClean], response = InvalidCmd\<rparr>"
| "commandInfo InvalidDestError = \<lparr>attributes = [IsResponse, IsError], response = InvalidCmd\<rparr>"
| "commandInfo BadAddressError = \<lparr>attributes = [IsResponse, IsError], response = InvalidCmd\<rparr>"
| "commandInfo FunctionalReadError =
     \<lparr>attributes = [IsRead, IsResponse, IsError], response = InvalidCmd\<rparr>"
| "commandInfo FunctionalWriteError =
     \<lparr>attributes = [IsWrite, IsResponse, IsError], response = InvalidCmd\<rparr>"
| "commandInfo PrintReq = \<lparr>attributes = [IsRequest, IsPrint], response = InvalidCmd\<rparr>"
| "commandInfo FlushReq = \<lparr>attributes = [IsRequest, IsFlush, NeedsWritable], response = InvalidCmd\<rparr>"
| "commandInfo InvalidateReq =
     \<lparr>attributes = [IsInvalidate, IsRequest, NeedsWritable, NeedsResponse, FromCache],
      response = InvalidateResp\<rparr>"
| "commandInfo InvalidateResp = \<lparr>attributes = [IsInvalidate, IsResponse], response = InvalidCmd\<rparr>"

definition testCmdAttrib :: "Command \<Rightarrow> Attribute \<Rightarrow> bool" where
  "testCmdAttrib c a = List.member (attributes (commandInfo c)) a"

definition responseCommand :: "Command \<Rightarrow> Command" where
  "responseCommand c = response (commandInfo c)"

definition isWriteback :: "Command \<Rightarrow> bool" where
  "isWriteback c = (testCmdAttrib c IsEviction \<and> testCmdAttrib c HasData)"

section \<open>Flag words\<close>

definition flags_isSet :: "'w::len word \<Rightarrow> 'w word \<Rightarrow> bool" where
  "flags_isSet w f = (w AND f \<noteq> 0)"

definition flags_set :: "'w::len word \<Rightarrow> 'w word \<Rightarrow> 'w word" where
  "flags_set w f = w OR f"

definition flags_clear :: "'w::len word \<Rightarrow> 'w word \<Rightarrow> 'w word" where
  "flags_clear w f = w AND NOT f"

lemma flags_isSet_set: "flags_isSet (flags_set w f) g \<longleftrightarrow> flags_isSet w g \<or> flags_isSet f g"
  unfolding flags_isSet_def flags_set_def
  by (auto simp: bit_eq_iff bit_and_iff bit_or_iff)

lemma flags_isSet_clear_same [simp]: "\<not> flags_isSet (flags_clear w f) f"
  unfolding flags_isSet_def flags_clear_def
  by (simp add: bit_eq_iff bit_and_iff bit_not_iff)

lemma flags_isSet_clear_disjoint:
  "\<not> flags_isSet f g \<Longrightarrow> flags_isSet (flags_clear w f) g = flags_isSet w g"
  unfolding flags_isSet_def flags_clear_def
  by (simp add: bit_eq_iff bit_and_iff bit_not_iff) blast

section \<open>Requests\<close>

record Request =
  rq_flags :: "64 word"
  rq_privateFlags :: "16 word"
  rq_paddr :: Addr_t
  rq_vaddr :: Addr_t
  rq_size :: nat
  rq_pc :: Addr_t
  rq_byteEnable :: "bool list"

abbreviation (input) VALID_SIZE :: "16 word" where "VALID_SIZE \<equiv> 0x1"
abbreviation (input) VALID_PADDR :: "16 word" where "VALID_PADDR \<equiv> 0x2"
abbreviation (input) VALID_VADDR :: "16 word" where "VALID_VADDR \<equiv> 0x4"
abbreviation (input) VALID_PC :: "16 word" where "VALID_PC \<equiv> 0x10"
abbreviation (input) DST_POC :: "64 word" where "DST_POC \<equiv> 0x2000000000"

definition hasPaddr :: "Request \<Rightarrow> bool" where
  "hasPaddr r = flags_isSet (rq_privateFlags r) VALID_PADDR"

definition getPaddr :: "Request \<Rightarrow> Addr_t res" where
  "getPaddr r = bindE (assertE (flags_isSet (rq_privateFlags r) VALID_PADDR) ''getPaddr'')
     (\<lambda>_. Inr (rq_paddr r))"

definition hasVaddr :: "Request \<Rightarrow> bool" where
  "hasVaddr r = flags_isSet (rq_privateFlags r) VALID_VADDR"

definition getVaddr :: "Request \<Rightarrow> Addr_t res" where
  "getVaddr r = bindE (assertE (flags_isSet (rq_privateFlags r) VALID_VADDR) ''getVaddr'')
     (\<lambda>_. Inr (rq_vaddr r))"

definition req_getSize :: "Request \<Rightarrow> nat res" where
  "req_getSize r = bindE (assertE (flags_isSet (rq_privateFlags r) VALID_SIZE) ''getSize'')
     (\<lambda>_. Inr (rq_size r))"

definition setPC :: "Addr_t \<Rightarrow> Request \<Rightarrow> Request" where
  "setPC pc r = r\<lparr>rq_privateFlags := flags_set (rq_privateFlags r) VALID_PC, rq_pc := pc\<rparr>"

definition hasPC :: "Request \<Rightarrow> bool" where
  "hasPC r = flags_isSet (rq_privateFlags r) VALID_PC"

definition getPC :: "Request \<Rightarrow> Addr_t res" where
  "getPC r = bindE (assertE (flags_isSet (rq_privateFlags r) VALID_PC) ''getPC'')
     (\<lambda>_. Inr (rq_pc r))"

definition isToPOC :: "Request \<Rightarrow> bool" where
  "isToPOC r = flags_isSet (rq_flags r) DST_POC"

section \<open>Packets\<close>

record Packet =
  pk_cmd :: Command
  pk_flags :: "32 word"
  pk_req :: Request
  pk_data :: "DataChunk list"
  pk_addr :: Addr_t
  pk_size :: nat
  pk_headerDelay :: "32 word"
  pk_payloadDelay :: "32 word"
  pk_isCounterPacket :: bool
  pk_isCounterCacheEviction :: bool
  pk_isVerificationPacket :: bool
  pk_isVerificationCacheEviction :: bool
  pk_isDup :: bool
  pk_counterCacheHit :: bool
  pk_verificationCacheHit :: bool
  pk_verificationCacheMisses :: "64 word"

abbreviation (input) CACHE_RESPONDING :: "32 word" where "CACHE_RESPONDING \<equiv> 0x8"
abbreviation (input) VALID_ADDR :: "32 word" where "VALID_ADDR \<equiv> 0x100"
abbreviation (input) PKT_VALID_SIZE :: "32 word" where "PKT_VALID_SIZE \<equiv> 0x200"
abbreviation (input) STATIC_DATA :: "32 word" where "STATIC_DATA \<equiv> 0x1000"
abbreviation (input) DYNAMIC_DATA :: "32 word" where "DYNAMIC_DATA \<equiv> 0x2000"

definition getAddr :: "Packet \<Rightarrow> Addr_t res" where
  "getAddr p = bindE (assertE (flags_isSet (pk_flags p) VALID_ADDR) ''getAddr'') (\<lambda>_. Inr (pk_addr p))"

definition getSize :: "Packet \<Rightarrow> nat res" where
  "getSize p = bindE (assertE (flags_isSet (pk_flags p) PKT_VALID_SIZE) ''getSize'') (\<lambda>_. Inr (pk_size p))"

definition isRead :: "Packet \<Rightarrow> bool" where "isRead p = testCmdAttrib (pk_cmd p) IsRead"
definition isWrite :: "Packet \<Rightarrow> bool" where "isWrite p = testCmdAttrib (pk_cmd p) IsWrite"
definition isResponse :: "Packet \<Rightarrow> bool" where "isResponse p = testCmdAttrib (pk_cmd p) IsResponse"
definition needsResponse :: "Packet \<Rightarrow> bool" where "needsResponse p = testCmdAttrib (pk_cmd p) NeedsResponse"
definition hasData :: "Packet \<Rightarrow> bool" where "hasData p = testCmdAttrib (pk_cmd p) HasData"

definition cacheResponding :: "Packet \<Rightarrow> bool" where
  "cacheResponding p = flags_isSet (pk_flags p) CACHE_RESPONDING"

definition isMaskedWrite :: "Packet \<Rightarrow> bool" where
  "isMaskedWrite p = (pk_cmd p = WriteReq \<and> rq_byteEnable (pk_req p) \<noteq> [])"

definition getPtr :: "Packet \<Rightarrow> DataChunk list res" where
  "getPtr p = bindE (assertE (flags_isSet (pk_flags p) (STATIC_DATA OR DYNAMIC_DATA)) ''getPtr'')
     (\<lambda>_. bindE (assertE (\<not> isMaskedWrite p) ''getPtr'') (\<lambda>_. Inr (pk_data p)))"

lemmas packet_defs = getPaddr_def getVaddr_def req_getSize_def getPC_def getAddr_def getSize_def
  getPtr_def hasPaddr_def hasVaddr_def hasPC_def flags_isSet_def

section \<open>Constructors and delays\<close>

text \<open>A request for a physical address; the constructor clears every flag but those passed in.\<close>

definition mk_Request_phys :: "Addr_t \<Rightarrow> nat \<Rightarrow> 64 word \<Rightarrow> Request" where
  "mk_Request_phys paddr sz fl = \<lparr>rq_flags = fl, rq_privateFlags = VALID_PADDR OR VALID_SIZE, rq_paddr = paddr,
     rq_vaddr = 0, rq_size = sz, rq_pc = 0, rq_byteEnable = []\<rparr>"

definition mk_Packet :: "Request \<Rightarrow> Command \<Rightarrow> Packet" where
  "mk_Packet req c = \<lparr>pk_cmd = c,
     pk_flags = (if hasPaddr req then VALID_ADDR else 0) OR
                (if flags_isSet (rq_privateFlags req) VALID_SIZE then PKT_VALID_SIZE else 0),
     pk_req = req, pk_data = [],
     pk_addr = (if hasPaddr req then rq_paddr req else 0),
     pk_size = (if flags_isSet (rq_privateFlags req) VALID_SIZE then rq_size req else 0),
     pk_headerDelay = 0, pk_payloadDelay = 0, pk_isCounterPacket = False, pk_isCounterCacheEviction = False,
     pk_isVerificationPacket = False, pk_isVerificationCacheEviction = False, pk_isDup = False,
     pk_counterCacheHit = False, pk_verificationCacheHit = False, pk_verificationCacheMisses = 0\<rparr>"

definition dataDynamic :: "DataChunk list \<Rightarrow> Packet \<Rightarrow> Packet res" where
  "dataDynamic ds p = bindE (assertE (\<not> flags_isSet (pk_flags p) (STATIC_DATA OR DYNAMIC_DATA)) ''dataDynamic'')
     (\<lambda>_. Inr (p\<lparr>pk_data := ds, pk_flags := flags_set (pk_flags p) DYNAMIC_DATA\<rparr>))"

lemma mk_Packet_phys:
  "dataDynamic ds (mk_Packet (mk_Request_phys a sz fl) c) =
     Inr ((mk_Packet (mk_Request_phys a sz fl) c)\<lparr>pk_data := ds, pk_flags := 0x2300\<rparr>)"
  "pk_addr (mk_Packet (mk_Request_phys a sz fl) c) = a"
  by (simp_all add: dataDynamic_def mk_Packet_def mk_Request_phys_def hasPaddr_def flags_isSet_def flags_set_def)

section \<open>The command table is consistent\<close>

text \<open>In the command table a command needs a response exactly when a response command is set for it; that
  command is then marked as a response, and it needs no response itself.\<close>

theorem response_table_consistent:
  "(testCmdAttrib c NeedsResponse \<longleftrightarrow> responseCommand c \<noteq> InvalidCmd) \<and>
   (testCmdAttrib c NeedsResponse \<longleftrightarrow> testCmdAttrib (responseCommand c) IsResponse) \<and>
   \<not> testCmdAttrib (responseCommand c) NeedsResponse"
  by (cases c) (simp_all add: testCmdAttrib_def responseCommand_def)

end
