(* ===== verification/Common.thy ===== *)
theory Common
  imports Mem_Packet
begin

text \<open>
  \<open>gem5/src/mem/predictor/{Constants,Common,Declarations}.hh\<close> and \<open>Declarations.cc\<close>: constants,
  the address-space tests, cache-line arithmetic, option words, environment variables and the
  saturating counter \<open>Confidence\<close>.

  The process environment is a function from names to values; \<open>None\<close> is an unset variable.
\<close>

section \<open>Constants\<close>

abbreviation (input) PMEM_MMAP_HINT :: Addr_t where "PMEM_MMAP_HINT \<equiv> 0x10000000000"
abbreviation (input) PRED_CONFIDENCE_BITS :: nat where "PRED_CONFIDENCE_BITS \<equiv> 2"
abbreviation (input) PRED_CONFIDENCE_MAX :: int where "PRED_CONFIDENCE_MAX \<equiv> 4"
abbreviation (input) PRED_CONF_THRESHOLD :: int where "PRED_CONF_THRESHOLD \<equiv> 1"
abbreviation (input) PRED_CONF_INVALID :: int where "PRED_CONF_INVALID \<equiv> -1"
abbreviation (input) IHB_SIZE :: nat where "IHB_SIZE \<equiv> 5"
abbreviation (input) CACHELINE_BITS :: nat where "CACHELINE_BITS \<equiv> 6"
abbreviation (input) CACHELINE_SIZE :: nat where "CACHELINE_SIZE \<equiv> 64"
abbreviation (input) DATA_CHUNK_COUNT :: nat where "DATA_CHUNK_COUNT \<equiv> 16"

definition CACHELINE_MASK :: Addr_t where
  "CACHELINE_MASK = push_bit CACHELINE_BITS 1 - 1"

section \<open>Address spaces\<close>

definition is_paddr_pm :: "Addr_t \<Rightarrow> bool" where
  "is_paddr_pm paddr = (paddr > 8 * 1024 * 1024 * 1024)"

definition is_paddr_volatile :: "Addr_t \<Rightarrow> bool" where
  "is_paddr_volatile paddr = (\<not> is_paddr_pm paddr)"

definition is_vaddr_pm :: "Addr_t \<Rightarrow> bool" where
  "is_vaddr_pm vaddr = (vaddr \<ge> PMEM_MMAP_HINT \<and> vaddr < 2 * PMEM_MMAP_HINT)"

definition is_vaddr_volatile :: "Addr_t \<Rightarrow> bool" where
  "is_vaddr_volatile vaddr = (\<not> is_vaddr_pm vaddr)"

text \<open>The conjunction short-circuits: the size and the address are read only when asked for.\<close>

definition is_vaddr_clwb :: "Packet \<Rightarrow> bool res" where
  "is_vaddr_clwb pkt =
     (if \<not> isToPOC (pk_req pkt) then Inr False
      else if hasData pkt then Inr False
      else bindE (getSize pkt) (\<lambda>sz.
        if sz \<noteq> 1 then Inr False
        else bindE (getVaddr (pk_req pkt)) (\<lambda>va. Inr (is_vaddr_pm va))))"

section \<open>Cache lines\<close>

definition cacheline_align :: "Addr_t \<Rightarrow> Addr_t" where
  "cacheline_align addr = push_bit CACHELINE_BITS (drop_bit CACHELINE_BITS addr)"

definition get_cacheline_off :: "Addr_t \<Rightarrow> Addr_t" where
  "get_cacheline_off addr = addr AND CACHELINE_MASK"

section \<open>Option words\<close>

definition set_flag :: "64 word \<Rightarrow> 64 word \<Rightarrow> 64 word" where
  "set_flag flags flag = flags OR flag"

definition unset_flag :: "64 word \<Rightarrow> 64 word \<Rightarrow> 64 word" where
  "unset_flag flags flag = flags AND NOT flag"

definition is_flag_set :: "64 word \<Rightarrow> 64 word \<Rightarrow> bool" where
  "is_flag_set flags flag = (flags AND flag \<noteq> 0)"

section \<open>Environment variables\<close>

type_synonym environ = "string \<Rightarrow> string option"

definition get_env_val :: "environ \<Rightarrow> string \<Rightarrow> bool" where
  "get_env_val env str = (case env str of None \<Rightarrow> False | Some val \<Rightarrow> val \<noteq> ''0'')"

definition get_env_str :: "environ \<Rightarrow> string \<Rightarrow> string \<Rightarrow> string res" where
  "get_env_str env str defaultVal =
     (if get_env_val env str
      then bindE (panic_if (env str = None) ''Nullptr found'') (\<lambda>_. Inr (the (env str)))
      else Inr defaultVal)"

section \<open>Counting maps\<close>

definition init_or_incr ::
    "('k, 'v::plus) umap \<Rightarrow> 'k \<Rightarrow> 'v \<Rightarrow> 'v \<Rightarrow> ('k, 'v) umap" where
  "init_or_incr m index initValue step =
     (case um_find m index of
        None \<Rightarrow> um_put index initValue m
      | Some v \<Rightarrow> um_put index (v + step) m)"

section \<open>Saturating confidence\<close>

text \<open>
  \<open>init\<close> and \<open>conf\<close> are 64-bit signed, \<open>max\<close> and \<open>min\<close> 32-bit unsigned; \<open>conf + val\<close> is
  computed in 64 bits and cannot wrap once \<open>conf\<close> lies in the 32-bit range.
\<close>

record Confidence =
  cf_init :: int
  cf_conf :: int
  cf_max :: "32 word"
  cf_min :: "32 word"
  cf_initialized :: bool
  cf_hasChanged :: bool

definition Confidence_default :: Confidence where
  "Confidence_default = \<lparr>cf_init = 0, cf_conf = 0, cf_max = 0, cf_min = 0,
     cf_initialized = False, cf_hasChanged = False\<rparr>"

definition mk_Confidence :: "64 word \<Rightarrow> 32 word \<Rightarrow> 32 word \<Rightarrow> Confidence" where
  "mk_Confidence init mx mn = \<lparr>cf_init = sint init, cf_conf = sint init, cf_max = mx, cf_min = mn,
     cf_initialized = True, cf_hasChanged = False\<rparr>"

definition conf_get :: "Confidence \<Rightarrow> (32 word) res" where
  "conf_get c = (if cf_initialized c then Inr (word_of_int (cf_conf c))
                 else Inl (Undefined ''uninitialised confidence''))"

definition conf_add :: "int \<Rightarrow> Confidence \<Rightarrow> Confidence res" where
  "conf_add val c0 =
     (let c = c0\<lparr>cf_hasChanged := True\<rparr> in
      bindE (panic_if_not (cf_initialized c) ''initialized'') (\<lambda>_.
        if cf_conf c + val > uint (cf_max c) then Inr (c\<lparr>cf_conf := uint (cf_max c)\<rparr>)
        else if cf_conf c + val < uint (cf_min c) then Inr (c\<lparr>cf_conf := uint (cf_min c)\<rparr>)
        else Inr (c\<lparr>cf_conf := cf_conf c + val\<rparr>)))"

definition conf_is_changed :: "Confidence \<Rightarrow> bool" where
  "conf_is_changed c = cf_hasChanged c"

definition conf_sub :: "int \<Rightarrow> Confidence \<Rightarrow> Confidence res" where
  "conf_sub val c = bindE (panic_if_not (cf_initialized c) ''initialized'') (\<lambda>_. conf_add (- val) c)"

section \<open>Lemmas: cache lines\<close>

lemma CACHELINE_MASK_mask: "CACHELINE_MASK = mask 6"
  by (simp add: CACHELINE_MASK_def mask_eq_exp_minus_1 push_bit_of_1)

lemma cacheline_align_and: "cacheline_align a = a AND NOT CACHELINE_MASK"
  unfolding cacheline_align_def CACHELINE_MASK_mask
  by (rule bit_word_eqI) (auto simp: bit_simps not_less)

lemma align_off_disjoint: "cacheline_align a AND get_cacheline_off a = 0"
  by (rule bit_word_eqI) (auto simp: cacheline_align_and get_cacheline_off_def bit_simps)

lemma align_or_off: "cacheline_align a OR get_cacheline_off a = a"
  by (rule bit_word_eqI) (auto simp: cacheline_align_and get_cacheline_off_def bit_simps)

lemma align_plus_off: "cacheline_align a + get_cacheline_off a = a"
  using word_plus_and_or [of "cacheline_align a" "get_cacheline_off a"]
  by (simp add: align_off_disjoint align_or_off)

lemma cacheline_align_idem [simp]: "cacheline_align (cacheline_align a) = cacheline_align a"
  by (simp add: cacheline_align_and word_bw_assocs)

lemma get_cacheline_off_align [simp]: "get_cacheline_off (cacheline_align a) = 0"
  by (rule bit_word_eqI) (auto simp: cacheline_align_and get_cacheline_off_def bit_simps)

lemma get_cacheline_off_lt: "get_cacheline_off a < 64"
  unfolding get_cacheline_off_def CACHELINE_MASK_mask
  using and_mask_less' [of 6 a] by simp

lemma cacheline_align_eq_iff_drop:
  "cacheline_align a = cacheline_align b \<longleftrightarrow> drop_bit CACHELINE_BITS a = drop_bit CACHELINE_BITS b"
proof
  assume *: "cacheline_align a = cacheline_align b"
  show "drop_bit CACHELINE_BITS a = drop_bit CACHELINE_BITS b"
  proof (rule bit_word_eqI)
    fix n assume "n < LENGTH(64)"
    have "bit (cacheline_align a) (n + 6) = bit (cacheline_align b) (n + 6)" using * by simp
    then show "bit (drop_bit CACHELINE_BITS a) n = bit (drop_bit CACHELINE_BITS b) n"
      using \<open>n < LENGTH(64)\<close>
      by (cases "n + 6 < 64")
         (auto simp: cacheline_align_def bit_simps ac_simps dest: bit_imp_le_length)
  qed
qed (simp add: cacheline_align_def)

section \<open>Lemmas: flags and environment\<close>

lemma is_flag_set_set: "is_flag_set (set_flag w f) g \<longleftrightarrow> is_flag_set w g \<or> is_flag_set f g"
  using flags_isSet_set [of w f g]
  by (simp add: is_flag_set_def set_flag_def flags_isSet_def flags_set_def)

lemma is_flag_set_unset: "\<not> is_flag_set (unset_flag w f) f"
  using flags_isSet_clear_same [of w f]
  by (simp add: is_flag_set_def unset_flag_def flags_isSet_def flags_clear_def)

lemma is_flag_set_unset_disjoint: "f AND g = 0 \<Longrightarrow> is_flag_set (unset_flag w f) g = is_flag_set w g"
  using flags_isSet_clear_disjoint [of f g w]
  by (simp add: is_flag_set_def unset_flag_def flags_isSet_def flags_clear_def)

lemma get_env_str_total: "\<exists>s. get_env_str env name d = Inr s"
  by (auto simp: get_env_str_def get_env_val_def split: option.splits)

lemma get_env_str_zero: "env name = Some ''0'' \<Longrightarrow> get_env_str env name d = Inr d"
  by (simp add: get_env_str_def get_env_val_def)

lemma um_wf_init_or_incr: "um_wf m \<Longrightarrow> um_wf (init_or_incr m k i s)"
  by (auto simp: init_or_incr_def um_wf_intros split: option.splits)

lemma um_find_init_or_incr: "um_find (init_or_incr m k i s) k' =
    (if k' = k then Some (case um_find m k of None \<Rightarrow> i | Some v \<Rightarrow> v + s) else um_find m k')"
  by (auto simp: init_or_incr_def um_find_put split: option.splits)

section \<open>Lemmas: the saturating counter\<close>

definition conf_inv :: "Confidence \<Rightarrow> bool" where
  "conf_inv c = (cf_initialized c \<and> uint (cf_min c) \<le> cf_conf c \<and> cf_conf c \<le> uint (cf_max c))"

definition clamp :: "int \<Rightarrow> int \<Rightarrow> int \<Rightarrow> int" where
  "clamp lo hi x = max lo (min hi x)"


text \<open>
  What the users of a saturating counter rely on: an addition of a step never fails and leaves
  the sum clamped to the bounds, which do not move.
\<close>

locale saturating_counter =
  fixes add :: "int \<Rightarrow> 's \<Rightarrow> 's res"
    and val :: "'s \<Rightarrow> int"
    and lo :: "'s \<Rightarrow> int"
    and hi :: "'s \<Rightarrow> int"
    and inv :: "'s \<Rightarrow> bool"
  assumes add_ok: "inv s \<Longrightarrow> \<exists>t. add v s = Inr t \<and> inv t \<and> lo t = lo s \<and> hi t = hi s \<and>
      val t = clamp (lo s) (hi s) (val s + v)"
    and inv_bounds: "inv s \<Longrightarrow> lo s \<le> val s \<and> val s \<le> hi s"
begin

lemma adds_ok: "inv s \<Longrightarrow> \<exists>t. fold_res add vs s = Inr t \<and> inv t \<and> lo t = lo s \<and> hi t = hi s"
proof (induction vs arbitrary: s)
  case Nil
  then show ?case by simp
next
  case (Cons v vs)
  from add_ok [OF Cons.prems, of v] obtain u
    where u: "add v s = Inr u" "inv u" "lo u = lo s" "hi u = hi s" by blast
  from Cons.IH [OF u(2)] show ?case by (simp add: u)
qed

lemma adds_val: "inv s \<Longrightarrow> fold_res add vs s = Inr t \<Longrightarrow>
    val t = fold (\<lambda>v x. clamp (lo s) (hi s) (x + v)) vs (val s)"
proof (induction vs arbitrary: s)
  case (Cons v vs)
  from add_ok [OF Cons.prems(1), of v] obtain u where u: "add v s = Inr u" "inv u" "lo u = lo s" "hi u = hi s"
    "val u = clamp (lo s) (hi s) (val s + v)" by blast
  with Cons.IH [OF u(2)] Cons.prems(2) show ?case by simp
qed simp

lemma adds_bounded: "inv s \<Longrightarrow> fold_res add vs s = Inr t \<Longrightarrow> lo s \<le> val t \<and> val t \<le> hi s"
  using adds_ok [of s vs] inv_bounds [of t] by auto

lemma add_mono: "inv s \<Longrightarrow> 0 \<le> v \<Longrightarrow> add v s = Inr t \<Longrightarrow> val s \<le> val t"
  using add_ok [of s v] inv_bounds [of s] by (auto simp: clamp_def)

lemma add_antimono: "inv s \<Longrightarrow> v \<le> 0 \<Longrightarrow> add v s = Inr t \<Longrightarrow> val t \<le> val s"
  using add_ok [of s v] inv_bounds [of s] by (auto simp: clamp_def)

text \<open>A run of equal steps in one direction is one clamped step.\<close>

lemma adds_up: "inv s \<Longrightarrow> 0 \<le> v \<Longrightarrow> fold_res add (replicate n v) s = Inr t \<Longrightarrow>
    val t = min (hi s) (val s + int n * v)"
proof (induction n arbitrary: s)
  case 0
  then show ?case using inv_bounds [of s] by simp
next
  case (Suc n)
  from add_ok [OF Suc.prems(1), of v] obtain u where u: "add v s = Inr u" "inv u" "hi u = hi s"
    "val u = clamp (lo s) (hi s) (val s + v)" by blast
  have run: "fold_res add (replicate n v) u = Inr t" using Suc.prems(3) u(1) by simp
  have "val t = min (hi s) (val u + int n * v)" using Suc.IH [OF u(2) Suc.prems(2) run] u(3) by simp
  moreover have "val u = min (hi s) (val s + v)"
    using u(4) inv_bounds [OF Suc.prems(1)] Suc.prems(2) by (simp add: clamp_def)
  ultimately show ?case
    using Suc.prems(2) by (simp add: min_def algebra_simps)
      (smt (verit) mult_nonneg_nonneg of_nat_0_le_iff)
qed

end

lemma conf_add_ok: "conf_inv c \<Longrightarrow> \<exists>d. conf_add v c = Inr d \<and> conf_inv d \<and> cf_min d = cf_min c \<and>
    cf_max d = cf_max c \<and> cf_conf d = clamp (uint (cf_min c)) (uint (cf_max c)) (cf_conf c + v)"
  by (auto simp: conf_add_def conf_inv_def clamp_def Let_def)

lemma conf_sub_ok: "conf_inv c \<Longrightarrow> \<exists>d. conf_sub v c = Inr d \<and> conf_inv d \<and> cf_min d = cf_min c \<and>
    cf_max d = cf_max c \<and> cf_conf d = clamp (uint (cf_min c)) (uint (cf_max c)) (cf_conf c - v)"
  using conf_add_ok [of c "- v"] by (auto simp: conf_sub_def conf_inv_def)

interpretation cfc: saturating_counter conf_add cf_conf "\<lambda>c. uint (cf_min c)" "\<lambda>c. uint (cf_max c)" conf_inv
proof
  show "\<exists>d. conf_add v c = Inr d \<and> conf_inv d \<and> uint (cf_min d) = uint (cf_min c) \<and>
      uint (cf_max d) = uint (cf_max c) \<and>
      cf_conf d = clamp (uint (cf_min c)) (uint (cf_max c)) (cf_conf c + v)"
    if "conf_inv c" for c v
    using conf_add_ok [OF that, of v] by auto
qed (simp add: conf_inv_def)

lemma conf_get_val: "conf_inv c \<Longrightarrow> conf_get c = Inr (word_of_int (cf_conf c)) \<and>
    uint (word_of_int (cf_conf c) :: 32 word) = cf_conf c"
proof -
  assume "conf_inv c"
  then have "0 \<le> cf_conf c" "cf_conf c < 2 ^ 32" "cf_initialized c"
    using uint_lt2p [of "cf_max c"] order_trans [OF uint_ge_0 [of "cf_min c"]] by (auto simp: conf_inv_def)
  then show ?thesis by (simp add: conf_get_def uint_word_of_int)
qed

lemma conf_add_uninit: "\<not> cf_initialized c \<Longrightarrow> conf_add v c = Inl (Panic ''initialized'')"
  by (simp add: conf_add_def Let_def)

section \<open>Properties\<close>

text \<open>Every address splits into its line and its offset: the two add up to the address, the offset is
  below 64, the line has offset 0, and two addresses share a line exactly when they agree above the
  low six bits.\<close>

theorem cacheline_split:
  "cacheline_align a + get_cacheline_off a = a \<and> get_cacheline_off a < 64 \<and>
   get_cacheline_off (cacheline_align a) = 0 \<and>
   (cacheline_align a = cacheline_align b \<longleftrightarrow> drop_bit 6 a = drop_bit 6 b)"
  using align_plus_off get_cacheline_off_lt get_cacheline_off_align cacheline_align_eq_iff_drop by blast

text \<open>C39: A confidence within its bounds accepts every sequence of rewards and penalties, never leaves the
  bounds, and its value is the one obtained by clamping after each step.\<close>

theorem confidence_saturates:
  assumes "conf_inv c"
  shows "\<exists>d. fold_res conf_add vs c = Inr d \<and> conf_inv d \<and>
    conf_get d = Inr (word_of_int (fold (\<lambda>v x. clamp (uint (cf_min c)) (uint (cf_max c)) (x + v)) vs (cf_conf c)))"
proof -
  from cfc.adds_ok [OF assms, of vs] obtain d where d: "fold_res conf_add vs c = Inr d" "conf_inv d" by blast
  with cfc.adds_val [OF assms d(1)] conf_get_val [OF d(2)] show ?thesis by auto
qed

theorem confidence_saturates_witness:
  "conf_inv (mk_Confidence 6 7 0) \<and>
   (\<exists>d. fold_res conf_add [3, - 20, 2] (mk_Confidence 6 7 0) = Inr d \<and> conf_get d = Inr 2)"
proof -
  have "conf_inv (mk_Confidence 6 7 0)" by (simp add: conf_inv_def mk_Confidence_def)
  with confidence_saturates [OF this, of "[3, - 20, 2]"] show ?thesis
    by (auto simp: mk_Confidence_def clamp_def)
qed

end
