(* ===== verification/Chunk_Info.thy ===== *)
theory Chunk_Info
  imports Common
begin

text \<open>
  \<open>gem5/src/mem/predictor/ChunkInfo.hh\<close>: one 32-bit chunk of a cache line, or the target address
  of a write.

  The anonymous union \<open>content\<close> is one 64-bit cell; writing the member \<open>data\<close> overlays its low
  half, as on the little-endian target.  Members the constructors leave uninitialised are guarded
  by a flag bit in every getter and start at 0.
\<close>

section \<open>State\<close>

datatype ChunkType = CT_ADDR | CT_DATA | CT_INVALID | CT_MAX

abbreviation (input) HAS_GEN_PC :: "64 word" where "HAS_GEN_PC \<equiv> 0x2"
abbreviation (input) HAS_DATA_FIELD_OFF :: "64 word" where "HAS_DATA_FIELD_OFF \<equiv> 0x4"
abbreviation (input) HAS_OWNER_KEY :: "64 word" where "HAS_OWNER_KEY \<equiv> 0x10"
abbreviation (input) HAS_TIME_OF_GEN :: "64 word" where "HAS_TIME_OF_GEN \<equiv> 0x20"
abbreviation (input) CONST_0_PREDICTION :: "64 word" where "CONST_0_PREDICTION \<equiv> 0x40"
abbreviation (input) HAS_DATA :: "64 word" where "HAS_DATA \<equiv> 0x80"
abbreviation (input) IS_FREE_PREDICTION :: "64 word" where "IS_FREE_PREDICTION \<equiv> 0x100"
abbreviation (input) CONSTANT_PREDICTION :: "64 word" where "CONSTANT_PREDICTION \<equiv> 0x200"
abbreviation (input) HAS_GEN_PC_IN_TICK :: "64 word" where "HAS_GEN_PC_IN_TICK \<equiv> 0x800"
abbreviation (input) WHB_SEARCH :: "64 word" where "WHB_SEARCH \<equiv> 0x1000"

record ChunkInfo =
  ci_generatingPC :: PC_t
  ci_genPCTimeOfInsertion :: Tick
  ci_dataFieldOffset :: size_t
  ci_isComplete :: bool
  ci_chunkType :: ChunkType
  ci_content :: "64 word"
  ci_owner_key :: PC_t
  ci_flags :: "64 word"
  ci_timeOfGen :: Tick

definition ChunkInfo_default :: ChunkInfo where
  "ChunkInfo_default = \<lparr>ci_generatingPC = 0, ci_genPCTimeOfInsertion = 0, ci_dataFieldOffset = 0,
     ci_isComplete = False, ci_chunkType = CT_INVALID, ci_content = 0, ci_owner_key = 0,
     ci_flags = 0, ci_timeOfGen = 0\<rparr>"

definition mk_ChunkInfo :: "PC_t \<Rightarrow> size_t \<Rightarrow> bool \<Rightarrow> ChunkType \<Rightarrow> ChunkInfo res" where
  "mk_ChunkInfo generatingPC dataFieldOffset isComplete chunkType =
     bindE (panic_if (dataFieldOffset = 24) ''=-='') (\<lambda>_.
     Inr (ChunkInfo_default\<lparr>ci_generatingPC := generatingPC, ci_dataFieldOffset := dataFieldOffset,
       ci_isComplete := isComplete, ci_chunkType := chunkType,
       ci_flags := (if generatingPC \<noteq> 0 then HAS_GEN_PC else 0)
                   OR (if dataFieldOffset \<noteq> - 1 then HAS_DATA_FIELD_OFF else 0)\<rparr>))"

section \<open>Accessors\<close>

definition has_generating_pc :: "ChunkInfo \<Rightarrow> bool" where
  "has_generating_pc c = is_flag_set (ci_flags c) HAS_GEN_PC"

definition get_generating_pc :: "ChunkInfo \<Rightarrow> PC_t res" where
  "get_generating_pc c = bindE (panic_if_not (has_generating_pc c) ''has_generating_pc'')
     (\<lambda>_. Inr (ci_generatingPC c))"

definition set_generating_pc :: "PC_t \<Rightarrow> ChunkInfo \<Rightarrow> ChunkInfo" where
  "set_generating_pc pc c = c\<lparr>ci_flags := set_flag (ci_flags c) HAS_GEN_PC, ci_generatingPC := pc\<rparr>"

definition set_gen_pc_in_tick :: "Tick \<Rightarrow> ChunkInfo \<Rightarrow> ChunkInfo" where
  "set_gen_pc_in_tick t c =
     c\<lparr>ci_flags := set_flag (ci_flags c) HAS_GEN_PC_IN_TICK, ci_genPCTimeOfInsertion := t\<rparr>"

definition get_gen_pc_in_tick :: "ChunkInfo \<Rightarrow> Tick res" where
  "get_gen_pc_in_tick c = bindE (panic_if_not (is_flag_set (ci_flags c) HAS_GEN_PC_IN_TICK) ''get_gen_pc_in_tick'')
     (\<lambda>_. Inr (ci_genPCTimeOfInsertion c))"

definition has_owner_key :: "ChunkInfo \<Rightarrow> bool" where
  "has_owner_key c = is_flag_set (ci_flags c) HAS_OWNER_KEY"

definition get_owner_key :: "ChunkInfo \<Rightarrow> PC_t res" where
  "get_owner_key c = bindE (panic_if_not (has_owner_key c) ''has_owner_key'') (\<lambda>_. Inr (ci_owner_key c))"

definition set_owner_key :: "PC_t \<Rightarrow> ChunkInfo \<Rightarrow> ChunkInfo" where
  "set_owner_key k c = c\<lparr>ci_flags := set_flag (ci_flags c) HAS_OWNER_KEY, ci_owner_key := k\<rparr>"

definition get_target_addr :: "ChunkInfo \<Rightarrow> Addr_t res" where
  "get_target_addr c = bindE (panic_if_not (ci_chunkType c = CT_ADDR) ''get_target_addr'')
     (\<lambda>_. Inr (ci_content c))"

definition set_target_addr :: "Addr_t \<Rightarrow> ChunkInfo \<Rightarrow> ChunkInfo res" where
  "set_target_addr a c = bindE (panic_if_not (ci_chunkType c = CT_ADDR) ''set_target_addr'')
     (\<lambda>_. Inr (c\<lparr>ci_content := a\<rparr>))"

definition get_data :: "ChunkInfo \<Rightarrow> DataChunk res" where
  "get_data c =
     bindE (panic_if_not (is_flag_set (ci_flags c) HAS_DATA) ''get_data: no data'') (\<lambda>_.
     bindE (panic_if_not (ci_chunkType c = CT_DATA) ''get_data: type'') (\<lambda>_.
     Inr (ucast (ci_content c))))"

definition set_data :: "DataChunk \<Rightarrow> ChunkInfo \<Rightarrow> ChunkInfo res" where
  "set_data d c0 =
     (let c = c0\<lparr>ci_flags := set_flag (ci_flags c0) HAS_DATA\<rparr> in
      bindE (panic_if_not (ci_chunkType c = CT_DATA) ''set_data'') (\<lambda>_.
      Inr (c\<lparr>ci_content := (ci_content c AND NOT (mask 32)) OR ucast d\<rparr>)))"

definition set_time_of_gen :: "Tick \<Rightarrow> ChunkInfo \<Rightarrow> ChunkInfo" where
  "set_time_of_gen t c = c\<lparr>ci_flags := set_flag (ci_flags c) HAS_TIME_OF_GEN, ci_timeOfGen := t\<rparr>"

definition has_time_of_gen :: "ChunkInfo \<Rightarrow> bool" where
  "has_time_of_gen c = is_flag_set (ci_flags c) HAS_TIME_OF_GEN"

definition get_time_of_gen :: "ChunkInfo \<Rightarrow> Tick res" where
  "get_time_of_gen c = bindE (panic_if_not (is_flag_set (ci_flags c) HAS_TIME_OF_GEN) ''get_time_of_gen'')
     (\<lambda>_. Inr (ci_timeOfGen c))"

definition has_data_field_offset :: "ChunkInfo \<Rightarrow> bool" where
  "has_data_field_offset c = is_flag_set (ci_flags c) HAS_DATA_FIELD_OFF"

definition get_data_field_offset :: "ChunkInfo \<Rightarrow> size_t res" where
  "get_data_field_offset c =
     bindE (panic_if_not (is_flag_set (ci_flags c) HAS_DATA_FIELD_OFF) ''get_data_field_offset'')
     (\<lambda>_. Inr (ci_dataFieldOffset c))"

definition set_data_field_offset :: "size_t \<Rightarrow> ChunkInfo \<Rightarrow> ChunkInfo res" where
  "set_data_field_offset off c = bindE (panic_if (off = 24) ''=-='') (\<lambda>_.
     Inr (c\<lparr>ci_flags := set_flag (ci_flags c) HAS_DATA_FIELD_OFF, ci_dataFieldOffset := off\<rparr>))"

definition is_valid :: "ChunkInfo \<Rightarrow> bool res" where
  "is_valid c = bindE (panic_if_not (ci_chunkType c \<noteq> CT_MAX) ''is_valid'')
     (\<lambda>_. Inr (ci_chunkType c \<noteq> CT_INVALID))"

definition is_invalid :: "ChunkInfo \<Rightarrow> bool res" where
  "is_invalid c = bindE (is_valid c) (\<lambda>b. Inr (\<not> b))"

definition get_completion :: "ChunkInfo \<Rightarrow> bool" where
  "get_completion c = ci_isComplete c"

definition set_completion :: "bool \<Rightarrow> ChunkInfo \<Rightarrow> ChunkInfo" where
  "set_completion b c = c\<lparr>ci_isComplete := b\<rparr>"

definition set_chunk_type :: "ChunkType \<Rightarrow> ChunkInfo \<Rightarrow> ChunkInfo" where
  "set_chunk_type t c = c\<lparr>ci_chunkType := t\<rparr>"

definition is_const_0_pred :: "ChunkInfo \<Rightarrow> bool" where
  "is_const_0_pred c = is_flag_set (ci_flags c) CONST_0_PREDICTION"

definition set_const_0_pred :: "ChunkInfo \<Rightarrow> ChunkInfo" where
  "set_const_0_pred c = c\<lparr>ci_flags := set_flag (ci_flags c) CONST_0_PREDICTION\<rparr>"

definition unset_const_0_pred :: "ChunkInfo \<Rightarrow> ChunkInfo" where
  "unset_const_0_pred c = c\<lparr>ci_flags := unset_flag (ci_flags c) CONST_0_PREDICTION\<rparr>"

definition is_free_prediction :: "ChunkInfo \<Rightarrow> bool" where
  "is_free_prediction c = is_flag_set (ci_flags c) IS_FREE_PREDICTION"

definition set_free_prediction :: "ChunkInfo \<Rightarrow> ChunkInfo" where
  "set_free_prediction c = c\<lparr>ci_flags := set_flag (ci_flags c) IS_FREE_PREDICTION\<rparr>"

definition is_constant_pred :: "ChunkInfo \<Rightarrow> bool" where
  "is_constant_pred c = is_flag_set (ci_flags c) CONSTANT_PREDICTION"

definition set_constant_pred :: "ChunkInfo \<Rightarrow> ChunkInfo" where
  "set_constant_pred c = c\<lparr>ci_flags := set_flag (ci_flags c) CONSTANT_PREDICTION\<rparr>"

definition is_whb_search :: "ChunkInfo \<Rightarrow> bool" where
  "is_whb_search c = is_flag_set (ci_flags c) WHB_SEARCH"

definition set_whb_search :: "ChunkInfo \<Rightarrow> ChunkInfo" where
  "set_whb_search c = c\<lparr>ci_flags := set_flag (ci_flags c) WHB_SEARCH\<rparr>"

text \<open>\<open>clear\<close> makes the chunk a data chunk for the call of \<open>set_data\<close>, so the flag of the data stays set.\<close>

definition ci_clear :: "ChunkInfo \<Rightarrow> ChunkInfo res" where
  "ci_clear c =
     bindE (set_data 0 (c\<lparr>ci_flags := 0, ci_dataFieldOffset := - 1, ci_generatingPC := 1,
                          ci_isComplete := False, ci_chunkType := CT_DATA\<rparr>)) (\<lambda>c'.
     Inr (c'\<lparr>ci_chunkType := CT_INVALID\<rparr>))"

definition valid_count :: "ChunkInfo list \<Rightarrow> nat res" where
  "valid_count chunks = fold_res (\<lambda>c n. bindE (is_valid c) (\<lambda>v. Inr (if v then n + 1 else n))) chunks 0"

lemmas chunk_defs = has_generating_pc_def get_generating_pc_def set_generating_pc_def
  set_gen_pc_in_tick_def get_gen_pc_in_tick_def has_owner_key_def get_owner_key_def set_owner_key_def
  get_target_addr_def set_target_addr_def get_data_def set_data_def set_time_of_gen_def
  has_time_of_gen_def get_time_of_gen_def has_data_field_offset_def get_data_field_offset_def
  set_data_field_offset_def is_valid_def is_invalid_def get_completion_def set_completion_def
  set_chunk_type_def is_const_0_pred_def set_const_0_pred_def unset_const_0_pred_def
  is_free_prediction_def set_free_prediction_def is_constant_pred_def set_constant_pred_def
  is_whb_search_def set_whb_search_def

section \<open>Fields guarded by a flag\<close>

text \<open>
  The contract of an optional member: its getter fails until its setter has run, then returns the
  last value set.
\<close>

locale guarded_field =
  fixes has :: "'s \<Rightarrow> bool"
    and get :: "'s \<Rightarrow> 'v res"
    and set :: "'v \<Rightarrow> 's \<Rightarrow> 's"
  assumes get_set: "get (set v s) = Inr v"
    and has_set: "has (set v s)"
    and get_iff_has: "is_ok (get s) = has s"
begin

lemma get_unset: "\<not> has s \<Longrightarrow> \<exists>e. get s = Inl e"
  using get_iff_has [of s] by (cases "get s") auto

lemma last_set_wins: "vs \<noteq> [] \<Longrightarrow> get (fold set vs s) = Inr (last vs)"
proof (induction vs arbitrary: s)
  case Nil
  then show ?case by simp
next
  case (Cons v vs)
  then show ?case by (cases vs) (auto simp: get_set)
qed

end

lemmas guarded_defs = chunk_defs is_flag_set_set is_ok_iff bindE_eq_Inr
  is_flag_set_def [of 2 2] is_flag_set_def [of 16 16] is_flag_set_def [of 32 32] is_flag_set_def [of 2048 2048]

interpretation gen_pc: guarded_field has_generating_pc get_generating_pc set_generating_pc
  by unfold_locales (auto simp: guarded_defs)

interpretation gen_tick: guarded_field "\<lambda>c. is_flag_set (ci_flags c) HAS_GEN_PC_IN_TICK" get_gen_pc_in_tick set_gen_pc_in_tick
  by unfold_locales (auto simp: guarded_defs)

interpretation owner_key: guarded_field has_owner_key get_owner_key set_owner_key
  by unfold_locales (auto simp: guarded_defs)

interpretation time_of_gen: guarded_field has_time_of_gen get_time_of_gen set_time_of_gen
  by unfold_locales (auto simp: guarded_defs)

interpretation req_pc: guarded_field hasPC getPC setPC
  by unfold_locales
     (auto simp: hasPC_def getPC_def setPC_def flags_isSet_set flags_isSet_def [of 16 16] is_ok_iff bindE_eq_Inr)

section \<open>The content cell\<close>

lemma low_overlay: "(ucast ((x AND NOT (mask 32)) OR ucast d :: 64 word) :: 32 word) = d"
  by (rule bit_word_eqI) (auto simp: bit_simps bit_mask_iff)

lemma high_overlay: "drop_bit 32 ((x AND NOT (mask 32)) OR ucast (d :: 32 word) :: 64 word) = drop_bit 32 x"
  by (rule bit_word_eqI) (auto simp: bit_simps bit_mask_iff dest: bit_imp_le_length)

lemma set_data_ok: "ci_chunkType c = CT_DATA \<Longrightarrow> \<exists>c'. set_data d c = Inr c' \<and> get_data c' = Inr d \<and>
    ci_chunkType c' = CT_DATA \<and> is_flag_set (ci_flags c') HAS_DATA"
  by (simp add: chunk_defs Let_def low_overlay is_flag_set_set is_flag_set_def [of 128 128])

lemma get_data_iff: "get_data c = Inr d \<longleftrightarrow>
    is_flag_set (ci_flags c) HAS_DATA \<and> ci_chunkType c = CT_DATA \<and> d = ucast (ci_content c)"
  by (auto simp: get_data_def bindE_eq_Inr)

lemma target_addr_roundtrip: "ci_chunkType c = CT_ADDR \<Longrightarrow> bindE (set_target_addr a c) get_target_addr = Inr a"
  by (simp add: chunk_defs)

text \<open>
  A chunk of a cache line is either a data chunk that holds data, or invalid.
\<close>

definition chunk_ok :: "ChunkInfo \<Rightarrow> bool" where
  "chunk_ok c = (ci_chunkType c = CT_INVALID \<or> ci_chunkType c = CT_DATA \<and> is_flag_set (ci_flags c) HAS_DATA)"

definition chunk_data :: "ChunkInfo \<Rightarrow> DataChunk" where
  "chunk_data c = ucast (ci_content c)"

lemma ChunkInfo_default_ok [simp]: "chunk_ok ChunkInfo_default"
  by (simp add: chunk_ok_def ChunkInfo_default_def)

lemma chunk_ok_valid [simp]: "chunk_ok c \<Longrightarrow> is_valid c = Inr (ci_chunkType c = CT_DATA)"
  by (auto simp: chunk_ok_def is_valid_def)

lemma chunk_ok_invalid [simp]: "chunk_ok c \<Longrightarrow> is_invalid c = Inr (ci_chunkType c \<noteq> CT_DATA)"
  by (simp add: is_invalid_def)

lemma chunk_ok_data [simp]: "chunk_ok c \<Longrightarrow> ci_chunkType c = CT_DATA \<Longrightarrow> get_data c = Inr (chunk_data c)"
  by (simp add: chunk_ok_def get_data_def chunk_data_def)

lemma set_type_data_ok: "\<exists>c'. set_data d (set_chunk_type CT_DATA c) = Inr c' \<and> chunk_ok c' \<and>
    ci_chunkType c' = CT_DATA \<and> chunk_data c' = d"
  by (simp add: chunk_defs Let_def low_overlay is_flag_set_set is_flag_set_def [of 128 128]
      chunk_ok_def chunk_data_def)

lemma ci_clear_ok: "\<exists>c'. ci_clear c = Inr c' \<and> chunk_ok c' \<and> ci_chunkType c' = CT_INVALID \<and>
    chunk_data c' = 0 \<and> ci_flags c' = HAS_DATA"
  using low_overlay [of "ci_content c" 0]
  by (simp add: ci_clear_def set_data_def set_flag_def chunk_ok_def chunk_data_def)

lemma valid_count_ok: "\<forall>c \<in> set cs. chunk_ok c \<Longrightarrow>
    valid_count cs = Inr (length (filter (\<lambda>c. ci_chunkType c = CT_DATA) cs))"
proof -
  have "fold_res (\<lambda>c n. bindE (is_valid c) (\<lambda>v. Inr (if v then n + 1 else n))) cs k
      = Inr (k + length (filter (\<lambda>c. ci_chunkType c = CT_DATA) cs))"
    if "\<forall>c \<in> set cs. chunk_ok c" for k
    using that by (induction cs arbitrary: k) auto
  then show "\<forall>c \<in> set cs. chunk_ok c \<Longrightarrow> ?thesis" by (simp add: valid_count_def)
qed

section \<open>Properties\<close>

text \<open>On a data chunk \<open>set_data\<close> succeeds, \<open>get_data\<close> then returns the value, the upper half of
  the union and every other member but the flag word keep their values; on any other chunk
  \<open>set_data\<close> panics.\<close>

theorem set_data_get_data:
  "if ci_chunkType c = CT_DATA
   then \<exists>c'. set_data d c = Inr c' \<and> get_data c' = Inr d \<and>
     drop_bit 32 (ci_content c') = drop_bit 32 (ci_content c) \<and>
     c' = c\<lparr>ci_flags := ci_flags c OR HAS_DATA, ci_content := ci_content c'\<rparr>
   else set_data d c = Inl (Panic ''set_data'')"
  using set_data_ok [of c d] high_overlay [of "ci_content c" d]
  by (auto simp: set_data_def Let_def set_flag_def)

end
