(* ===== verification/Cache_Line.thy ===== *)
theory Cache_Line
  imports Chunk_Info
begin

text \<open>
  \<open>gem5/src/mem/predictor/CacheLine.hh\<close>: sixteen chunks with an optional address and time stamps.
  The constructors take the current tick as an argument.  \<open>get_addr_offset\<close> and \<open>get_data_offset\<close>
  are the two searches the training of the predictor rests on.
\<close>

section \<open>State and constructors\<close>

record CacheLine =
  cl_addr :: Addr_t
  cl_hasAddr :: bool
  cl_dataChunks :: "ChunkInfo list"
  cl_timeOfCreation :: Tick
  cl_timeOfLastUpdate :: Tick
  cl_hasTimeOfLastUpdate :: bool
  cl_isDirty :: bool

definition CacheLine_default :: "Tick \<Rightarrow> CacheLine" where
  "CacheLine_default curTick = \<lparr>cl_addr = 0, cl_hasAddr = False,
     cl_dataChunks = replicate DATA_CHUNK_COUNT ChunkInfo_default, cl_timeOfCreation = curTick,
     cl_timeOfLastUpdate = 0, cl_hasTimeOfLastUpdate = False, cl_isDirty = False\<rparr>"

text \<open>\<open>dataChunks[index].set_chunk_type(DATA); dataChunks[index].set_data(d)\<close>\<close>

definition store_chunk :: "nat \<Rightarrow> DataChunk \<Rightarrow> ChunkInfo list \<Rightarrow> ChunkInfo list res" where
  "store_chunk index d cs =
     bindE (arr_get cs index) (\<lambda>c.
     bindE (set_data d (set_chunk_type CT_DATA c)) (\<lambda>c'.
     arr_set cs index c'))"

text \<open>The filling loop of the constructors: source chunk \<open>i\<close> goes to index \<open>i + shift\<close>.\<close>

definition fill_chunks :: "DataChunk list \<Rightarrow> nat \<Rightarrow> nat \<Rightarrow> ChunkInfo list \<Rightarrow> ChunkInfo list res" where
  "fill_chunks src count shift cs =
     fold_res (\<lambda>i cs.
       bindE (panic_if (i + shift > DATA_CHUNK_COUNT) ''Check alignment'') (\<lambda>_.
       bindE (arr_get src i) (\<lambda>d. store_chunk (i + shift) d cs))) [0..<count] cs"

definition chunk_offset :: "Addr_t \<Rightarrow> nat" where
  "chunk_offset addr = unat (get_cacheline_off addr) div 4"

text \<open>
  From a cache: \<open>block\<close> is the data of the valid block the tag lookup finds, and \<open>fresh\<close> the
  contents of newly allocated memory otherwise.
\<close>

definition mk_CacheLine_cache ::
    "Tick \<Rightarrow> Addr_t \<Rightarrow> DataChunk list option \<Rightarrow> DataChunk list \<Rightarrow> CacheLine res" where
  "mk_CacheLine_cache curTick paddr block fresh =
     (let cacheData = (case block of None \<Rightarrow> fresh | Some d \<Rightarrow> d);
          cs = map (set_chunk_type CT_DATA) (cl_dataChunks (CacheLine_default curTick)) in
      bindE (fill_chunks cacheData DATA_CHUNK_COUNT 0 cs) (\<lambda>cs'.
      Inr ((CacheLine_default curTick)\<lparr>cl_addr := paddr, cl_hasAddr := True, cl_dataChunks := cs'\<rparr>)))"

definition mk_CacheLine_data ::
    "Tick \<Rightarrow> Addr_t \<Rightarrow> DataChunk list \<Rightarrow> nat \<Rightarrow> bool \<Rightarrow> CacheLine res" where
  "mk_CacheLine_data curTick addr src count alignCacheline =
     bindE (panic_if (count > DATA_CHUNK_COUNT) ''Cannot store data larger than a cache line'') (\<lambda>_.
     let cs = map (set_chunk_type CT_DATA) (cl_dataChunks (CacheLine_default curTick)) in
     bindE (fill_chunks src count (if alignCacheline then chunk_offset addr else 0) cs) (\<lambda>cs'.
     Inr ((CacheLine_default curTick)\<lparr>cl_addr := addr, cl_hasAddr := True, cl_dataChunks := cs'\<rparr>)))"

definition mk_CacheLine_pkt :: "Tick \<Rightarrow> Packet \<Rightarrow> bool \<Rightarrow> CacheLine res" where
  "mk_CacheLine_pkt curTick pkt useVaddr =
     bindE (if useVaddr then getVaddr (pk_req pkt) else getPaddr (pk_req pkt)) (\<lambda>addr.
     bindE (getSize pkt) (\<lambda>sz.
     let chunkCount = sz div 4 in
     bindE (panic_if (chunkCount > DATA_CHUNK_COUNT) ''Cannot store data larger than a cache line'') (\<lambda>_.
     bindE (getPtr pkt) (\<lambda>pktData.
     bindE (fill_chunks pktData chunkCount (chunk_offset addr) (cl_dataChunks (CacheLine_default curTick))) (\<lambda>cs.
     Inr ((CacheLine_default curTick)\<lparr>cl_dataChunks := cs\<rparr>))))))"

section \<open>Searches\<close>

definition get_lower_32_bits :: "64 word \<Rightarrow> 32 word" where
  "get_lower_32_bits num = ucast (drop_bit 32 (push_bit 32 num))"

definition get_higher_32_bits :: "64 word \<Rightarrow> 32 word" where
  "get_higher_32_bits num = ucast (drop_bit 32 num)"

text \<open>The loop of \<open>get_addr_offset\<close>: conjuncts are evaluated left to right.\<close>

fun addr_offset_loop :: "32 word \<Rightarrow> 32 word \<Rightarrow> int \<Rightarrow> ChunkInfo list \<Rightarrow> int res" where
  "addr_offset_loop addrHigh addrLow i (c # c' # cs) =
     (if ci_chunkType c = CT_DATA \<and> ci_chunkType c' = CT_DATA
      then bindE (get_data c) (\<lambda>x.
             if ucast (cacheline_align (ucast x)) = addrHigh
             then bindE (get_data c') (\<lambda>y.
                    if y = addrLow then Inr i else addr_offset_loop addrHigh addrLow (i + 1) (c' # cs))
             else addr_offset_loop addrHigh addrLow (i + 1) (c' # cs))
      else addr_offset_loop addrHigh addrLow (i + 1) (c' # cs))"
| "addr_offset_loop addrHigh addrLow i cs = Inr (- 1)"

definition get_addr_offset :: "CacheLine \<Rightarrow> Addr_t \<Rightarrow> bool \<Rightarrow> int res" where
  "get_addr_offset cl addr reverseHalfWords =
     (let alignedAddr = cacheline_align addr;
          addrLow = get_lower_32_bits alignedAddr;
          addrHigh = get_higher_32_bits alignedAddr;
          low1 = addrLow XOR addrHigh;
          high1 = low1 XOR addrHigh;
          low2 = low1 XOR high1 in
      if reverseHalfWords then addr_offset_loop high1 low2 0 (cl_dataChunks cl)
      else addr_offset_loop addrHigh addrLow 0 (cl_dataChunks cl))"

fun data_offset_loop :: "DataChunk \<Rightarrow> int \<Rightarrow> ChunkInfo list \<Rightarrow> int res" where
  "data_offset_loop d i (c # cs) =
     (if ci_chunkType c = CT_DATA
      then bindE (get_data c) (\<lambda>x. if x = d then Inr i else data_offset_loop d (i + 1) cs)
      else data_offset_loop d (i + 1) cs)"
| "data_offset_loop d i [] = Inr (- 1)"

definition get_data_offset :: "CacheLine \<Rightarrow> DataChunk \<Rightarrow> int res" where
  "get_data_offset cl d = data_offset_loop d 0 (cl_dataChunks cl)"

section \<open>Other operations\<close>

definition are_all_complete :: "CacheLine \<Rightarrow> bool" where
  "are_all_complete cl = fold (\<lambda>c r. r \<and> get_completion c) (cl_dataChunks cl) True"

definition set_addr :: "Addr_t \<Rightarrow> CacheLine \<Rightarrow> CacheLine" where
  "set_addr a cl = cl\<lparr>cl_addr := a, cl_hasAddr := True\<rparr>"

definition get_addr :: "CacheLine \<Rightarrow> Addr_t res" where
  "get_addr cl = bindE (assertE (cl_hasAddr cl) ''hasAddr'') (\<lambda>_. Inr (cl_addr cl))"

definition all_invalid :: "CacheLine \<Rightarrow> bool res" where
  "all_invalid cl = fold_res (\<lambda>c r. bindE (is_valid c) (\<lambda>v. Inr (if v then False else r))) (cl_dataChunks cl) True"

fun first_valid_loop :: "size_t \<Rightarrow> ChunkInfo list \<Rightarrow> size_t res" where
  "first_valid_loop i [] = Inr (- 1)"
| "first_valid_loop i (c # cs) = bindE (is_valid c) (\<lambda>v. if v then Inr i else first_valid_loop (i + 1) cs)"

definition find_first_valid_index :: "CacheLine \<Rightarrow> size_t res" where
  "find_first_valid_index cl = first_valid_loop 0 (cl_dataChunks cl)"

fun map_res :: "('a \<Rightarrow> 'b res) \<Rightarrow> 'a list \<Rightarrow> 'b list res" where
  "map_res f [] = Inr []"
| "map_res f (x # xs) = bindE (f x) (\<lambda>y. bindE (map_res f xs) (\<lambda>ys. Inr (y # ys)))"

definition cl_clear :: "CacheLine \<Rightarrow> CacheLine res" where
  "cl_clear cl = bindE (map_res ci_clear (cl_dataChunks cl)) (\<lambda>cs. Inr (cl\<lparr>cl_dataChunks := cs\<rparr>))"

definition cl_get_time_of_gen :: "CacheLine \<Rightarrow> Tick res" where
  "cl_get_time_of_gen cl =
     bindE (fold_res (\<lambda>c r.
       bindE (is_valid c) (\<lambda>v.
       if v \<and> has_time_of_gen c
       then bindE (get_time_of_gen c) (\<lambda>t. Inr (if r < t then t else r))
       else Inr r)) (cl_dataChunks cl) 0) (\<lambda>result.
     bindE (panic_if (result = 0) ''Cannot calculate the time of generation'') (\<lambda>_. Inr result))"

fun all_zeros_loop :: "ChunkInfo list \<Rightarrow> bool res" where
  "all_zeros_loop [] = Inr True"
| "all_zeros_loop (c # cs) = bindE (is_valid c) (\<lambda>v.
     if v then bindE (get_data c) (\<lambda>d. if d \<noteq> 0 then Inr False else all_zeros_loop cs)
     else all_zeros_loop cs)"

definition all_zeros :: "CacheLine \<Rightarrow> bool res" where
  "all_zeros cl = all_zeros_loop (cl_dataChunks cl)"

definition get_time_of_creation :: "CacheLine \<Rightarrow> Tick" where
  "get_time_of_creation cl = cl_timeOfCreation cl"

definition set_time_of_creation :: "Tick \<Rightarrow> CacheLine \<Rightarrow> CacheLine" where
  "set_time_of_creation t cl = cl\<lparr>cl_timeOfCreation := t\<rparr>"

definition get_time_of_last_update :: "CacheLine \<Rightarrow> Tick res" where
  "get_time_of_last_update cl = bindE (panic_if_not (cl_hasTimeOfLastUpdate cl) ''hasTimeOfLastUpdate'')
     (\<lambda>_. Inr (cl_timeOfLastUpdate cl))"

definition set_time_of_last_update :: "Tick \<Rightarrow> CacheLine \<Rightarrow> CacheLine" where
  "set_time_of_last_update t cl = cl\<lparr>cl_hasTimeOfLastUpdate := True, cl_timeOfLastUpdate := t\<rparr>"

text \<open>One iteration of the merging loop, and the loop over both chunk arrays.\<close>

definition merge_chunk :: "ChunkInfo \<Rightarrow> ChunkInfo \<Rightarrow> (ChunkInfo \<times> nat) res" where
  "merge_chunk src dest =
     bindE (is_valid src) (\<lambda>v.
     if \<not> v then Inr (dest, 0)
     else bindE (is_invalid dest) (\<lambda>inv.
       bindE (if inv then Inr True
              else bindE (get_data dest) (\<lambda>d. bindE (get_data src) (\<lambda>s. Inr (d \<noteq> s)))) (\<lambda>differs.
       Inr (src, if differs then 1 else 0))))"

fun merge_chunks :: "ChunkInfo list \<Rightarrow> ChunkInfo list \<Rightarrow> (ChunkInfo list \<times> nat) res" where
  "merge_chunks (s # ss) (d # ds) =
     bindE (merge_chunk s d) (\<lambda>(c, k). bindE (merge_chunks ss ds) (\<lambda>(cs, n). Inr (c # cs, k + n)))"
| "merge_chunks ss ds = Inr ([], 0)"

definition overwriteFrom :: "CacheLine \<Rightarrow> CacheLine \<Rightarrow> (CacheLine \<times> nat) res" where
  "overwriteFrom srcCacheline cl =
     bindE (merge_chunks (cl_dataChunks srcCacheline) (cl_dataChunks cl)) (\<lambda>(cs, n).
     Inr (cl\<lparr>cl_dataChunks := cs\<rparr>, n))"

text \<open>\<open>overwriteTo\<close> works on a copy of its argument: the caller's line is not part of the result.\<close>

definition overwriteTo :: "CacheLine \<Rightarrow> CacheLine \<Rightarrow> (CacheLine \<times> nat) res" where
  "overwriteTo destCacheline cl =
     bindE (merge_chunks (cl_dataChunks cl) (cl_dataChunks destCacheline)) (\<lambda>(cs, n).
     Inr (cl\<lparr>cl_dataChunks := cs\<rparr>, n))"

definition set_dirty :: "CacheLine \<Rightarrow> CacheLine" where
  "set_dirty cl = cl\<lparr>cl_isDirty := True\<rparr>"

definition set_clean :: "CacheLine \<Rightarrow> CacheLine" where
  "set_clean cl = cl\<lparr>cl_isDirty := False\<rparr>"

definition invalid_chunk_count :: "CacheLine \<Rightarrow> nat res" where
  "invalid_chunk_count cl =
     fold_res (\<lambda>c n. bindE (is_invalid c) (\<lambda>b. Inr (if b then n + 1 else n))) (cl_dataChunks cl) 0"

definition valid_chunk_count :: "CacheLine \<Rightarrow> nat res" where
  "valid_chunk_count cl = bindE (invalid_chunk_count cl) (\<lambda>n. Inr (DATA_CHUNK_COUNT - n))"

section \<open>Well-formed lines\<close>

definition cl_ok :: "CacheLine \<Rightarrow> bool" where
  "cl_ok cl = (length (cl_dataChunks cl) = DATA_CHUNK_COUNT \<and> list_all chunk_ok (cl_dataChunks cl))"

abbreviation (input) holds :: "ChunkInfo \<Rightarrow> DataChunk \<Rightarrow> bool" where
  "holds c d \<equiv> ci_chunkType c = CT_DATA \<and> chunk_data c = d"

lemma CacheLine_default_ok [simp]: "cl_ok (CacheLine_default t)"
  by (simp add: cl_ok_def CacheLine_default_def list_all_iff)

lemma data_offset_loop_ok: "list_all chunk_ok cs \<Longrightarrow> data_offset_loop d i cs =
    Inr (case first_index (\<lambda>c. holds c d) cs of None \<Rightarrow> - 1 | Some k \<Rightarrow> i + int k)"
  by (induction cs arbitrary: i) (auto split: option.splits)

lemma merge_chunk_ok: "chunk_ok s \<Longrightarrow> chunk_ok d \<Longrightarrow> merge_chunk s d =
    Inr (if ci_chunkType s = CT_DATA then s else d,
         of_bool (ci_chunkType s = CT_DATA \<and> \<not> holds d (chunk_data s)))"
  by (auto simp: merge_chunk_def)

lemma merge_chunks_ok: "length ss = length ds \<Longrightarrow> list_all chunk_ok ss \<Longrightarrow> list_all chunk_ok ds \<Longrightarrow>
    merge_chunks ss ds = Inr
      (map2 (\<lambda>s d. if ci_chunkType s = CT_DATA then s else d) ss ds,
       length (filter (\<lambda>(s, d). ci_chunkType s = CT_DATA \<and> \<not> holds d (chunk_data s)) (zip ss ds)))"
  by (induction ss ds rule: list_induct2) (simp_all add: merge_chunk_ok)

section \<open>The address search\<close>

lemma get_lower_32_bits_ucast: "get_lower_32_bits a = ucast a"
  unfolding get_lower_32_bits_def by (rule bit_word_eqI) (auto simp: bit_simps)

lemma xor_swap:
  fixes a b :: "'w::len word"
  shows "(a XOR b) XOR b = a" "(a XOR b) XOR a = b"
  by (rule bit_word_eqI; auto simp: bit_simps)+

text \<open>Chunk \<open>i\<close> holds the low half of the line address up to its offset, chunk \<open>i + 1\<close> the high half.\<close>

definition addr_match :: "ChunkInfo list \<Rightarrow> Addr_t \<Rightarrow> nat \<Rightarrow> bool" where
  "addr_match cs a i = (ci_chunkType (cs ! i) = CT_DATA \<and> ci_chunkType (cs ! (i + 1)) = CT_DATA \<and>
     (ucast (cacheline_align (ucast (chunk_data (cs ! i)))) :: 32 word) = ucast (cacheline_align a) \<and>
     chunk_data (cs ! (i + 1)) = ucast (drop_bit 32 (cacheline_align a)))"

definition least_match :: "(nat \<Rightarrow> bool) \<Rightarrow> nat \<Rightarrow> int \<Rightarrow> bool" where
  "least_match P n r = ((r = - 1 \<and> (\<forall>i<n. \<not> P i)) \<or> (\<exists>k<n. r = int k \<and> P k \<and> (\<forall>j<k. \<not> P j)))"

lemma least_match_cong:
  assumes "\<And>i. i < n \<Longrightarrow> P i = Q i"
  shows "least_match P n r = least_match Q n r"
proof -
  have "(P k \<and> (\<forall>j<k. \<not> P j)) = (Q k \<and> (\<forall>j<k. \<not> Q j))" if "k < n" for k
    using assms that by (auto dest: order_less_trans)
  then show ?thesis using assms by (auto simp: least_match_def)
qed

lemma least_match_first_index:
  "least_match (\<lambda>i. P (xs ! i)) (length xs) (case first_index P xs of None \<Rightarrow> - 1 | Some k \<Rightarrow> int k)"
  by (auto simp: least_match_def first_index_Some first_index_None split: option.splits)

lemma addr_offset_loop_ok: "list_all chunk_ok cs \<Longrightarrow> addr_offset_loop hi lo i cs =
    Inr (case first_index (\<lambda>(c, c'). ci_chunkType c = CT_DATA \<and> ci_chunkType c' = CT_DATA \<and>
           ucast (cacheline_align (ucast (chunk_data c))) = hi \<and> chunk_data c' = lo) (zip cs (tl cs))
         of None \<Rightarrow> - 1 | Some k \<Rightarrow> i + int k)"
  by (induction hi lo i cs rule: addr_offset_loop.induct) (auto split: option.splits)

lemma get_addr_offset_least:
  assumes "cl_ok cl"
  shows "\<exists>r. get_addr_offset cl a True = Inr r \<and> least_match (addr_match (cl_dataChunks cl) a) 15 r"
proof -
  let ?cs = "cl_dataChunks cl"
  let ?P = "\<lambda>(c, c'). ci_chunkType c = CT_DATA \<and> ci_chunkType c' = CT_DATA \<and>
      (ucast (cacheline_align (ucast (chunk_data c))) :: 32 word) = ucast (cacheline_align a) \<and>
      chunk_data c' = ucast (drop_bit 32 (cacheline_align a))"
  let ?r = "case first_index ?P (zip ?cs (tl ?cs)) of None \<Rightarrow> - 1 | Some k \<Rightarrow> int k"
  have len: "length ?cs = 16" and ok: "list_all chunk_ok ?cs" using assms by (auto simp: cl_ok_def)
  have "get_addr_offset cl a True = Inr ?r"
    unfolding get_addr_offset_def Let_def xor_swap
    by (simp add: addr_offset_loop_ok [OF ok] get_lower_32_bits_ucast get_higher_32_bits_def
        split: option.splits)
  moreover have "least_match (\<lambda>i. ?P (zip ?cs (tl ?cs) ! i)) 15 ?r"
    using least_match_first_index [of ?P "zip ?cs (tl ?cs)"] len by simp
  moreover have "?P (zip ?cs (tl ?cs) ! i) = addr_match ?cs a i" if "i < 15" for i
    using that len by (simp add: addr_match_def nth_tl)
  then have "least_match (\<lambda>i. ?P (zip ?cs (tl ?cs) ! i)) 15 ?r = least_match (addr_match ?cs a) 15 ?r"
    by (rule least_match_cong)
  ultimately show ?thesis by blast
qed

lemma align_low_half:
  fixes x :: "32 word" and a :: "64 word"
  assumes "(ucast (cacheline_align (ucast x)) :: 32 word) = ucast (cacheline_align a)"
  shows "\<And>n. 6 \<le> n \<Longrightarrow> n < 32 \<Longrightarrow> bit x n = bit a n"
proof -
  fix n :: nat assume n: "6 \<le> n" "n < 32"
  have "bit (ucast (cacheline_align (ucast x)) :: 32 word) n = bit (ucast (cacheline_align a) :: 32 word) n"
    using assms by simp
  then show "bit x n = bit a n" using n by (simp add: cacheline_align_def bit_simps)
qed

text \<open>The two chunks of a match give the line address back.\<close>

lemma join_halves:
  fixes x y :: "32 word" and a :: "64 word"
  assumes x: "(ucast (cacheline_align (ucast x)) :: 32 word) = ucast (cacheline_align a)"
    and y: "y = ucast (drop_bit 32 (cacheline_align a))"
  shows "cacheline_align (push_bit 32 (ucast y) + ucast x) = cacheline_align a"
proof -
  have "push_bit 32 (ucast y) AND (ucast x :: 64 word) = 0"
    by (rule bit_word_eqI) (auto simp: bit_simps dest: bit_imp_le_length)
  then have "push_bit 32 (ucast y) + (ucast x :: 64 word) = push_bit 32 (ucast y) OR ucast x"
    using word_plus_and_or [of "push_bit 32 (ucast y) :: 64 word" "ucast x"] by simp
  moreover have "cacheline_align (push_bit 32 (ucast y) OR ucast x) = cacheline_align a"
  proof (rule bit_word_eqI)
    fix n assume "n < LENGTH(64)"
    then show "bit (cacheline_align (push_bit 32 (ucast y) OR ucast x)) n = bit (cacheline_align a) n"
      using align_low_half [OF x, of n]
      by (cases "n < 32") (auto simp: y cacheline_align_def bit_simps dest: bit_imp_le_length)
  qed
  ultimately show ?thesis by simp
qed

lemma addr_match_reconstruct: "addr_match cs a i \<Longrightarrow>
    cacheline_align (push_bit 32 (ucast (chunk_data (cs ! (i + 1)))) + ucast (chunk_data (cs ! i)))
    = cacheline_align a"
  using join_halves [of "chunk_data (cs ! i)" a "chunk_data (cs ! (i + 1))"] by (simp add: addr_match_def)

section \<open>Filling a line\<close>

lemma store_chunk_ok:
  assumes "k < length cs"
  shows "\<exists>c. store_chunk k d cs = Inr (cs[k := c]) \<and> chunk_ok c \<and> holds c d"
  using assms set_type_data_ok [of d "cs ! k"] by (auto simp: store_chunk_def)

lemma fill_chunks_ok:
  assumes "length cs = 16" and "shift + count \<le> 16" and "count \<le> length src"
  shows "\<exists>cs'. fill_chunks src count shift cs = Inr cs' \<and> length cs' = 16 \<and>
    (\<forall>j<16. if shift \<le> j \<and> j < shift + count then chunk_ok (cs' ! j) \<and> holds (cs' ! j) (src ! (j - shift))
            else cs' ! j = cs ! j)"
  using assms(2,3)
proof (induction count)
  case 0
  then show ?case using assms(1) by (auto simp: fill_chunks_def)
next
  case (Suc n)
  from Suc obtain u where u: "fill_chunks src n shift cs = Inr u" "length u = 16"
    "\<forall>j<16. if shift \<le> j \<and> j < shift + n then chunk_ok (u ! j) \<and> holds (u ! j) (src ! (j - shift))
            else u ! j = cs ! j" by auto
  from store_chunk_ok [of "n + shift" u "src ! n"] Suc.prems u(2) obtain c
    where c: "store_chunk (n + shift) (src ! n) u = Inr (u[n + shift := c])" "chunk_ok c" "holds c (src ! n)"
    by auto
  have run: "fill_chunks src (Suc n) shift cs = Inr (u[n + shift := c])"
    using u(1) c(1) Suc.prems by (simp add: fill_chunks_def fold_res_append)
  have "if shift \<le> j \<and> j < shift + Suc n
      then chunk_ok (u[n + shift := c] ! j) \<and> holds (u[n + shift := c] ! j) (src ! (j - shift))
      else u[n + shift := c] ! j = cs ! j" if "j < 16" for j
  proof (cases "j = n + shift")
    case True
    then show ?thesis using that u(2) c(2,3) by simp
  next
    case False
    then show ?thesis using u(3) [rule_format, OF that] by (auto split: if_splits)
  qed
  with run u(2) show ?case by simp
qed

text \<open>One chunk too far passes the guard \<open>index > DATA_CHUNK_COUNT\<close> and leaves the array.\<close>

lemma fill_chunks_past_end:
  assumes "length cs = 16" and "shift \<le> 16" and "16 < shift + count" and "count \<le> length src"
  shows "fill_chunks src count shift cs = Inl (Undefined ''array index'')"
proof -
  let ?n = "16 - shift"
  have "shift + ?n \<le> 16" "?n \<le> length src" using assms by auto
  from fill_chunks_ok [OF assms(1) this] obtain u where u: "fill_chunks src ?n shift cs = Inr u" "length u = 16"
    by blast
  have split: "[0..<count] = [0..<?n] @ ?n # [Suc ?n..<count]"
    using upt_add_eq_append [of 0 ?n "count - ?n"] upt_conv_Cons [of ?n count] assms by simp
  show ?thesis
    using u assms unfolding fill_chunks_def split
    by (simp add: fold_res_append store_chunk_def arr_get_def)
qed

section \<open>Packets\<close>

lemma chunk_offset_lt: "chunk_offset a < 16"
proof -
  have "unat (get_cacheline_off a) < 64"
    using get_cacheline_off_lt [of a] by (simp add: word_less_nat_alt)
  then show ?thesis by (simp add: chunk_offset_def)
qed

definition pkt_ok :: "Packet \<Rightarrow> bool" where
  "pkt_ok p = (is_ok (getVaddr (pk_req p)) \<and> is_ok (getPaddr (pk_req p)) \<and> is_ok (getSize p) \<and>
     is_ok (getPtr p) \<and> pk_size p div 4 \<le> length (pk_data p))"

lemma mk_CacheLine_pkt_fill:
  assumes "pkt_ok p" and "pk_size p div 4 \<le> 16"
  shows "mk_CacheLine_pkt t p v =
    bindE (fill_chunks (pk_data p) (pk_size p div 4)
        (chunk_offset (if v then rq_vaddr (pk_req p) else rq_paddr (pk_req p)))
        (replicate 16 ChunkInfo_default))
      (\<lambda>cs. Inr ((CacheLine_default t)\<lparr>cl_dataChunks := cs\<rparr>))"
  using assms
  by (auto simp: mk_CacheLine_pkt_def pkt_ok_def is_ok_iff bindE_eq_Inr getVaddr_def getPaddr_def
      getSize_def getPtr_def Let_def CacheLine_default_def)

lemma cl_ok_update: "length cs = 16 \<Longrightarrow> list_all chunk_ok cs \<Longrightarrow> cl_ok (cl\<lparr>cl_dataChunks := cs\<rparr>)"
  by (simp add: cl_ok_def)

lemma mk_CacheLine_pkt_ok:
  assumes "pkt_ok p"
    and "chunk_offset (if v then rq_vaddr (pk_req p) else rq_paddr (pk_req p)) + pk_size p div 4 \<le> 16"
  shows "\<exists>cl. mk_CacheLine_pkt t p v = Inr cl \<and> cl_ok cl \<and> \<not> cl_hasAddr cl \<and> cl_timeOfCreation cl = t \<and>
    (\<forall>j<16. let off = chunk_offset (if v then rq_vaddr (pk_req p) else rq_paddr (pk_req p)) in
       if off \<le> j \<and> j < off + pk_size p div 4 then holds (cl_dataChunks cl ! j) (pk_data p ! (j - off))
       else cl_dataChunks cl ! j = ChunkInfo_default)"
proof -
  let ?off = "chunk_offset (if v then rq_vaddr (pk_req p) else rq_paddr (pk_req p))"
  let ?n = "pk_size p div 4"
  have "?n \<le> length (pk_data p)" using assms(1) by (simp add: pkt_ok_def)
  from fill_chunks_ok [OF _ assms(2) this, of "replicate 16 ChunkInfo_default"] obtain cs
    where cs: "fill_chunks (pk_data p) ?n ?off (replicate 16 ChunkInfo_default) = Inr cs" "length cs = 16"
      "\<forall>j<16. if ?off \<le> j \<and> j < ?off + ?n then chunk_ok (cs ! j) \<and> holds (cs ! j) (pk_data p ! (j - ?off))
              else cs ! j = ChunkInfo_default" by auto
  have "chunk_ok (cs ! j)" if "j < 16" for j
    using cs(3) that by (metis ChunkInfo_default_ok)
  then have "list_all chunk_ok cs" using cs(2) by (auto simp: list_all_length)
  moreover have "?n \<le> 16" using assms(2) by simp
  ultimately show ?thesis
    using cs mk_CacheLine_pkt_fill [OF assms(1), of t v]
    by (auto simp: cl_ok_def Let_def CacheLine_default_def)
qed

section \<open>Times\<close>

lemma time_of_gen_fold:
  "list_all chunk_ok cs \<Longrightarrow>
    fold_res (\<lambda>c r. bindE (is_valid c) (\<lambda>v.
       if v \<and> has_time_of_gen c then bindE (get_time_of_gen c) (\<lambda>t. Inr (if r < t then t else r)) else Inr r)) cs r
    = Inr (fold max (map ci_timeOfGen (filter (\<lambda>c. ci_chunkType c = CT_DATA \<and> has_time_of_gen c) cs)) r)"
  by (induction cs arbitrary: r) (auto simp: get_time_of_gen_def has_time_of_gen_def max_def)

lemma cl_get_time_of_gen_ok:
  assumes "cl_ok cl"
  shows "cl_get_time_of_gen cl =
    (let ts = map ci_timeOfGen (filter (\<lambda>c. ci_chunkType c = CT_DATA \<and> has_time_of_gen c) (cl_dataChunks cl));
         m = fold max ts 0 in
     if m = 0 then Inl (Panic ''Cannot calculate the time of generation'') else Inr m)"
  using time_of_gen_fold [of "cl_dataChunks cl" 0] assms
  by (simp add: cl_get_time_of_gen_def cl_ok_def panic_if_def Let_def)

lemma map_res_ok: "(\<And>x. x \<in> set xs \<Longrightarrow> \<exists>y. f x = Inr y \<and> P y) \<Longrightarrow>
    \<exists>ys. map_res f xs = Inr ys \<and> length ys = length xs \<and> list_all P ys"
proof (induction xs)
  case Nil
  then show ?case by simp
next
  case (Cons x xs)
  then obtain y ys where "f x = Inr y" "P y" "map_res f xs = Inr ys" "length ys = length xs" "list_all P ys"
    by (metis list.set_intros)
  then show ?case by simp
qed

lemma cl_clear_ok: "cl_ok cl \<Longrightarrow> \<exists>cl'. cl_clear cl = Inr cl' \<and> cl_ok cl' \<and>
    list_all (\<lambda>c. ci_chunkType c = CT_INVALID) (cl_dataChunks cl')"
  using map_res_ok [of "cl_dataChunks cl" ci_clear "\<lambda>c. chunk_ok c \<and> ci_chunkType c = CT_INVALID"] ci_clear_ok
  by (fastforce simp: cl_clear_def cl_ok_def list_all_iff)

section \<open>Properties\<close>

text \<open>A data chunk, for examples.\<close>

definition data_chunk :: "DataChunk \<Rightarrow> ChunkInfo" where
  "data_chunk d = ChunkInfo_default\<lparr>ci_chunkType := CT_DATA, ci_flags := HAS_DATA, ci_content := ucast d\<rparr>"

lemma data_chunk_simps [simp]: "chunk_ok (data_chunk d)" "chunk_data (data_chunk d) = d"
  "ci_chunkType (data_chunk d) = CT_DATA"
  using low_overlay [of 0 d]
  by (simp_all add: data_chunk_def chunk_ok_def chunk_data_def is_flag_set_def)

definition example_line :: CacheLine where
  "example_line = (CacheLine_default 7)\<lparr>cl_dataChunks :=
     map data_chunk [0x11, 0x5678abcd, 0x1234, 0x5678abcd, 0x1234] @ replicate 11 ChunkInfo_default\<rparr>"

lemma example_line_ok [simp]: "cl_ok example_line"
  by (simp add: example_line_def cl_ok_def list_all_iff)

text \<open>C23: \<open>get_addr_offset\<close> on a well-formed line never fails; it returns the least index \<open>i\<close> whose
  chunk, aligned, is the low half of the aligned address and whose successor is the high half, and
  -1 when there is none.  Whenever it returns an index, joining the two chunks there and aligning
  gives back the aligned address.\<close>

theorem get_addr_offset_correct:
  assumes "cl_ok cl"
  shows "\<exists>r. get_addr_offset cl a True = Inr r \<and> least_match (addr_match (cl_dataChunks cl) a) 15 r \<and>
    (r \<noteq> - 1 \<longrightarrow>
       cacheline_align (push_bit 32 (ucast (chunk_data (cl_dataChunks cl ! (nat r + 1))))
                        + ucast (chunk_data (cl_dataChunks cl ! nat r))) = cacheline_align a)"
proof -
  obtain r where r: "get_addr_offset cl a True = Inr r" "least_match (addr_match (cl_dataChunks cl) a) 15 r"
    using get_addr_offset_least [OF assms] by blast
  have "addr_match (cl_dataChunks cl) a (nat r)" if "r \<noteq> - 1"
    using r(2) that by (auto simp: least_match_def)
  with r addr_match_reconstruct show ?thesis by blast
qed

theorem get_addr_offset_correct_witness:
  "cl_ok example_line \<and> get_addr_offset example_line 0x12345678abff True = Inr 1 \<and>
   (\<exists>r. get_addr_offset example_line 0x12345678abff True = Inr r \<and>
     least_match (addr_match (cl_dataChunks example_line) 0x12345678abff) 15 r)"
proof -
  have "get_addr_offset example_line 0x12345678abff True = Inr 1" by code_simp
  then show ?thesis using get_addr_offset_correct [of example_line "0x12345678abff"] by auto
qed

text \<open>\<open>get_data_offset\<close> on a well-formed line returns the least index of a data chunk that holds
  the value, or -1 when no data chunk does.\<close>

theorem get_data_offset_correct:
  assumes "cl_ok cl"
  shows "\<exists>r. get_data_offset cl d = Inr r \<and>
    least_match (\<lambda>i. ci_chunkType (cl_dataChunks cl ! i) = CT_DATA \<and> chunk_data (cl_dataChunks cl ! i) = d) 16 r"
proof -
  have "length (cl_dataChunks cl) = 16" and ok: "list_all chunk_ok (cl_dataChunks cl)"
    using assms by (auto simp: cl_ok_def)
  with least_match_first_index [of "\<lambda>c. holds c d" "cl_dataChunks cl"] data_offset_loop_ok [OF ok, of d 0]
  show ?thesis by (auto simp: get_data_offset_def split: option.splits)
qed

theorem get_data_offset_correct_witness:
  "cl_ok example_line \<and> get_data_offset example_line 0x1234 = Inr 2 \<and>
   (\<exists>r. get_data_offset example_line 0x1234 = Inr r \<and>
     least_match (\<lambda>i. ci_chunkType (cl_dataChunks example_line ! i) = CT_DATA \<and>
        chunk_data (cl_dataChunks example_line ! i) = 0x1234) 16 r)"
proof -
  have "get_data_offset example_line 0x1234 = Inr 2" by code_simp
  then show ?thesis using get_data_offset_correct [of example_line "0x1234"] by auto
qed

text \<open>C24: \<open>overwriteFrom\<close> between well-formed lines takes every valid chunk of the source, keeps the
  other chunks, and returns the number of chunks whose value it changed.\<close>

theorem overwriteFrom_correct:
  assumes "cl_ok src" and "cl_ok cl"
  shows "\<exists>cl' n. overwriteFrom src cl = Inr (cl', n) \<and> cl_ok cl' \<and>
    cl' = cl\<lparr>cl_dataChunks := cl_dataChunks cl'\<rparr> \<and>
    (\<forall>i<16. cl_dataChunks cl' ! i =
       (if ci_chunkType (cl_dataChunks src ! i) = CT_DATA then cl_dataChunks src ! i else cl_dataChunks cl ! i)) \<and>
    n = card {i. i < 16 \<and> ci_chunkType (cl_dataChunks src ! i) = CT_DATA \<and>
       \<not> (ci_chunkType (cl_dataChunks cl ! i) = CT_DATA \<and>
          chunk_data (cl_dataChunks cl ! i) = chunk_data (cl_dataChunks src ! i))}"
proof -
  let ?s = "cl_dataChunks src" and ?d = "cl_dataChunks cl"
  have len: "length ?s = 16" "length ?d = 16" and ok: "list_all chunk_ok ?s" "list_all chunk_ok ?d"
    using assms by (auto simp: cl_ok_def)
  let ?m = "map2 (\<lambda>s d. if ci_chunkType s = CT_DATA then s else d) ?s ?d"
  let ?n = "length (filter (\<lambda>(s, d). ci_chunkType s = CT_DATA \<and> \<not> holds d (chunk_data s)) (zip ?s ?d))"
  have "overwriteFrom src cl = Inr (cl\<lparr>cl_dataChunks := ?m\<rparr>, ?n)"
    using merge_chunks_ok [OF _ ok] len by (simp add: overwriteFrom_def)
  moreover have "cl_ok (cl\<lparr>cl_dataChunks := ?m\<rparr>)"
    using len ok by (auto simp: cl_ok_def list_all_length)
  moreover have "?n = card {i. i < 16 \<and> ci_chunkType (?s ! i) = CT_DATA \<and> \<not> holds (?d ! i) (chunk_data (?s ! i))}"
    using len by (simp add: length_filter_conv_card split_beta cong: conj_cong)
  ultimately show ?thesis using len by simp
qed

theorem overwriteFrom_correct_witness:
  "cl_ok example_line \<and> cl_ok (CacheLine_default 9) \<and>
   (\<exists>cl' n. overwriteFrom example_line (CacheLine_default 9) = Inr (cl', n) \<and> cl_ok cl' \<and> n = 5)"
proof -
  have "map_sum id snd (overwriteFrom example_line (CacheLine_default 9)) = Inr 5" by code_simp
  then show ?thesis
    using overwriteFrom_correct [of example_line "CacheLine_default 9"] by auto
qed

text \<open>C35: The constructor from a packet that fits into its line puts chunk \<open>k\<close> of the payload at
  index \<open>offset + k\<close> and leaves every other chunk invalid.\<close>

theorem mk_CacheLine_pkt_correct:
  assumes "pkt_ok p"
    and "chunk_offset (rq_vaddr (pk_req p)) + pk_size p div 4 \<le> 16"
  shows "\<exists>cl. mk_CacheLine_pkt t p True = Inr cl \<and> cl_ok cl \<and>
    (\<forall>j<16. let off = chunk_offset (rq_vaddr (pk_req p)) in
       if off \<le> j \<and> j < off + pk_size p div 4
       then get_data (cl_dataChunks cl ! j) = Inr (pk_data p ! (j - off))
       else is_valid (cl_dataChunks cl ! j) = Inr False)"
proof -
  from mk_CacheLine_pkt_ok [of p True t] assms obtain cl where cl: "mk_CacheLine_pkt t p True = Inr cl" "cl_ok cl"
    "\<forall>j<16. let off = chunk_offset (rq_vaddr (pk_req p)) in
       if off \<le> j \<and> j < off + pk_size p div 4 then holds (cl_dataChunks cl ! j) (pk_data p ! (j - off))
       else cl_dataChunks cl ! j = ChunkInfo_default" by auto
  have "chunk_ok (cl_dataChunks cl ! j)" if "j < 16" for j
    using cl(2) that by (simp add: cl_ok_def list_all_length)
  with cl show ?thesis by (auto simp: Let_def is_valid_def ChunkInfo_default_def split: if_splits)
qed

definition example_pkt :: "Addr_t \<Rightarrow> DataChunk list \<Rightarrow> Packet" where
  "example_pkt va ds = \<lparr>pk_cmd = WriteReq, pk_flags = 0x1300,
     pk_req = \<lparr>rq_flags = 0, rq_privateFlags = 0x17, rq_paddr = 0x300000000 + va, rq_vaddr = va,
       rq_size = 4 * length ds, rq_pc = 0x400123, rq_byteEnable = []\<rparr>,
     pk_data = ds, pk_addr = 0x300000000 + va, pk_size = 4 * length ds, pk_headerDelay = 0, pk_payloadDelay = 0,
     pk_isCounterPacket = False, pk_isCounterCacheEviction = False, pk_isVerificationPacket = False,
     pk_isVerificationCacheEviction = False, pk_isDup = False,
     pk_counterCacheHit = False, pk_verificationCacheHit = False, pk_verificationCacheMisses = 0\<rparr>"

lemma example_pkt_ok [simp]: "pkt_ok (example_pkt va ds)"
  by (simp add: pkt_ok_def example_pkt_def packet_defs isMaskedWrite_def)

theorem mk_CacheLine_pkt_correct_witness:
  "pkt_ok (example_pkt 0x1008 [5, 6]) \<and>
   chunk_offset (rq_vaddr (pk_req (example_pkt 0x1008 [5, 6]))) + pk_size (example_pkt 0x1008 [5, 6]) div 4 \<le> 16 \<and>
   (\<exists>cl. mk_CacheLine_pkt 3 (example_pkt 0x1008 [5, 6]) True = Inr cl \<and> cl_ok cl \<and>
      get_data (cl_dataChunks cl ! 3) = Inr 6 \<and> is_valid (cl_dataChunks cl ! 4) = Inr False)"
proof -
  let ?p = "example_pkt 0x1008 [5, 6]"
  have p: "rq_vaddr (pk_req ?p) = 0x1008" "pk_size ?p div 4 = 2" "pk_data ?p = [5, 6]"
    by (simp_all add: example_pkt_def)
  have off: "chunk_offset 0x1008 = 2" by code_simp
  obtain cl where cl: "mk_CacheLine_pkt 3 ?p True = Inr cl" "cl_ok cl"
      "\<forall>j<16. if 2 \<le> j \<and> j < 4 then get_data (cl_dataChunks cl ! j) = Inr ([5, 6] ! (j - 2))
              else is_valid (cl_dataChunks cl ! j) = Inr False"
    using mk_CacheLine_pkt_correct [of ?p 3] by (auto simp: p off Let_def)
  then have "get_data (cl_dataChunks cl ! 3) = Inr 6 \<and> is_valid (cl_dataChunks cl ! 4) = Inr False"
    by (auto dest: spec [of _ 3] spec [of _ 4])
  with cl(1,2) show ?thesis by (auto simp: p off)
qed

text \<open>C36: A payload that runs past the end of its line is not caught by the guard
  \<open>index > DATA_CHUNK_COUNT\<close>: the constructor writes outside the chunk array.\<close>

theorem mk_CacheLine_pkt_past_end:
  assumes "pkt_ok p" and "pk_size p div 4 \<le> 16"
    and "16 < chunk_offset (rq_vaddr (pk_req p)) + pk_size p div 4"
  shows "mk_CacheLine_pkt t p True = Inl (Undefined ''array index'')"
  using fill_chunks_past_end [of "replicate 16 ChunkInfo_default" "chunk_offset (rq_vaddr (pk_req p))"
      "pk_size p div 4" "pk_data p"]
    mk_CacheLine_pkt_fill [OF assms(1,2), of t True] chunk_offset_lt [of "rq_vaddr (pk_req p)"] assms
  by (simp add: pkt_ok_def)

theorem mk_CacheLine_pkt_past_end_witness:
  "pkt_ok (example_pkt 0x103c [5, 6]) \<and> pk_size (example_pkt 0x103c [5, 6]) div 4 \<le> 16 \<and>
   16 < chunk_offset (rq_vaddr (pk_req (example_pkt 0x103c [5, 6]))) + pk_size (example_pkt 0x103c [5, 6]) div 4 \<and>
   mk_CacheLine_pkt 3 (example_pkt 0x103c [5, 6]) True = Inl (Undefined ''array index'')"
proof -
  have "chunk_offset 0x103c = 15" by code_simp
  then show ?thesis
    using mk_CacheLine_pkt_past_end [of "example_pkt 0x103c [5, 6]" 3] by (simp add: example_pkt_def [of "0x103c"] pkt_ok_def
      packet_defs isMaskedWrite_def)
qed

end
