(* ===== verification/Queues.thy ===== *)
theory Queues
  imports Common
begin

text \<open>
  The containers of \<open>gem5/src/mem/predictor\<close>: the statistics base class \<open>DataStore\<close>, the bounded
  queues \<open>SimpleFixedSizeQueue\<close> and \<open>FixedSizeQueue\<close>, and \<open>PCQueue\<close>.

  The two bounded queues share one contract, the locale \<open>bounded_fifo\<close>: a push onto a full queue
  drops the oldest element.  Its main lemma says that the queue holds the last \<open>sz\<close> of everything
  ever pushed.
\<close>

section \<open>DataStore\<close>

record DataStore =
  ds_name :: string
  ds_statsEnabled :: bool
  ds_totalInsertions :: nat
  ds_totalDeletions :: nat
  ds_totalAccess :: nat

definition mk_DataStore :: "string \<Rightarrow> DataStore" where
  "mk_DataStore parentName = \<lparr>ds_name = parentName, ds_statsEnabled = (parentName \<noteq> ''''),
     ds_totalInsertions = 0, ds_totalDeletions = 0, ds_totalAccess = 0\<rparr>"

definition ds_add :: "DataStore \<Rightarrow> DataStore" where
  "ds_add d = (if ds_statsEnabled d
     then d\<lparr>ds_totalInsertions := ds_totalInsertions d + 1\<rparr> else d)"

definition ds_remove :: "DataStore \<Rightarrow> DataStore" where
  "ds_remove d = (if ds_statsEnabled d
     then d\<lparr>ds_totalDeletions := ds_totalDeletions d + 1\<rparr> else d)"

definition ds_get :: "DataStore \<Rightarrow> DataStore" where
  "ds_get d = (if ds_statsEnabled d
     then d\<lparr>ds_totalAccess := ds_totalAccess d + 1\<rparr> else d)"

section \<open>SimpleFixedSizeQueue\<close>

text \<open>\<open>pop_front\<close> of an empty \<open>std::deque\<close>, and \<open>front\<close> and \<open>back\<close> of one, are undefined.\<close>

definition deque_pop_front :: "'a list \<Rightarrow> 'a list res" where
  "deque_pop_front q = (if q = [] then Inl (Undefined ''pop_front'') else Inr (tl q))"

definition deque_front :: "'a list \<Rightarrow> 'a res" where
  "deque_front q = (if q = [] then Inl (Undefined ''front'') else Inr (hd q))"

definition deque_back :: "'a list \<Rightarrow> 'a res" where
  "deque_back q = (if q = [] then Inl (Undefined ''back'') else Inr (last q))"

record 'a SimpleFixedSizeQueue =
  sq_sz :: nat
  sq_queue :: "'a list"

definition mk_SimpleFixedSizeQueue :: "nat \<Rightarrow> 'a SimpleFixedSizeQueue" where
  "mk_SimpleFixedSizeQueue n = \<lparr>sq_sz = n, sq_queue = []\<rparr>"

definition mk_SimpleFixedSizeQueue_init :: "nat \<Rightarrow> 'a \<Rightarrow> 'a SimpleFixedSizeQueue" where
  "mk_SimpleFixedSizeQueue_init n initValue = \<lparr>sq_sz = n, sq_queue = replicate n initValue\<rparr>"

definition sq_push_back :: "'a \<Rightarrow> 'a SimpleFixedSizeQueue \<Rightarrow> 'a SimpleFixedSizeQueue res" where
  "sq_push_back elem q =
     bindE (assertE (length (sq_queue q) \<le> sq_sz q) ''push_back'') (\<lambda>_.
     bindE (if length (sq_queue q) = sq_sz q then deque_pop_front (sq_queue q) else Inr (sq_queue q)) (\<lambda>xs.
     Inr (q\<lparr>sq_queue := xs @ [elem]\<rparr>)))"

definition sq_back :: "'a SimpleFixedSizeQueue \<Rightarrow> 'a res" where
  "sq_back q = deque_back (sq_queue q)"

definition sq_front :: "'a SimpleFixedSizeQueue \<Rightarrow> 'a res" where
  "sq_front q = deque_front (sq_queue q)"

definition sq_get :: "'a SimpleFixedSizeQueue \<Rightarrow> nat \<Rightarrow> 'a res" where
  "sq_get q i = vec_at (sq_queue q) i"

definition sq_get_size :: "'a SimpleFixedSizeQueue \<Rightarrow> nat res" where
  "sq_get_size q = bindE (assertE (length (sq_queue q) \<le> sq_sz q) ''get_size'')
     (\<lambda>_. Inr (length (sq_queue q)))"

definition sq_remove :: "'a SimpleFixedSizeQueue \<Rightarrow> 'a SimpleFixedSizeQueue res" where
  "sq_remove q = bindE (assertE (length (sq_queue q) > 0) ''remove'') (\<lambda>_.
     bindE (deque_pop_front (sq_queue q)) (\<lambda>xs. Inr (q\<lparr>sq_queue := xs\<rparr>)))"

text \<open>\<open>clear\<close> loops while \<open>get_size()\<close> is not zero; a run that does not end is \<open>None\<close>.\<close>

partial_function (option) sq_clear :: "'a SimpleFixedSizeQueue \<Rightarrow> 'a SimpleFixedSizeQueue res option" where
  "sq_clear q = (case sq_get_size q of
      Inl e \<Rightarrow> Some (Inl e)
    | Inr n \<Rightarrow> (if n = 0 then Some (Inr q)
               else (case sq_remove q of Inl e \<Rightarrow> Some (Inl e) | Inr q' \<Rightarrow> sq_clear q')))"

section \<open>FixedSizeQueue\<close>

record 'a FixedSizeQueue =
  fq_sz :: nat
  fq_queue :: "'a list"
  fq_ds :: DataStore

definition mk_FixedSizeQueue :: "string \<Rightarrow> nat \<Rightarrow> 'a FixedSizeQueue" where
  "mk_FixedSizeQueue parentName n = \<lparr>fq_sz = n, fq_queue = [], fq_ds = mk_DataStore parentName\<rparr>"

text \<open>The body of the loop in the destructor is commented out.  On a queue with elements the loop would neither
  end nor have a side effect, which C++ leaves undefined.\<close>

definition fq_destroy :: "'a FixedSizeQueue \<Rightarrow> unit res" where
  "fq_destroy q = (if length (fq_queue q) \<noteq> 0 then Inl (Undefined ''loop without side effects'') else Inr ())"

definition fq_push_back :: "'a \<Rightarrow> 'a FixedSizeQueue \<Rightarrow> 'a FixedSizeQueue res" where
  "fq_push_back elem q0 =
     (let q = q0\<lparr>fq_ds := ds_add (fq_ds q0)\<rparr> in
      bindE (if length (fq_queue q) = fq_sz q
             then bindE (deque_pop_front (fq_queue q)) (\<lambda>xs.
                    Inr (q\<lparr>fq_queue := xs, fq_ds := ds_remove (fq_ds q)\<rparr>))
             else Inr q) (\<lambda>q1.
      Inr (q1\<lparr>fq_queue := fq_queue q1 @ [elem]\<rparr>)))"

definition fq_front :: "'a FixedSizeQueue \<Rightarrow> ('a \<times> 'a FixedSizeQueue) res" where
  "fq_front q = bindE (deque_front (fq_queue q)) (\<lambda>x. Inr (x, q\<lparr>fq_ds := ds_get (fq_ds q)\<rparr>))"

definition fq_get_size :: "'a FixedSizeQueue \<Rightarrow> nat res" where
  "fq_get_size q = bindE (assertE (length (fq_queue q) \<le> fq_sz q) ''get_size'')
     (\<lambda>_. Inr (length (fq_queue q)))"

definition fq_get :: "'a FixedSizeQueue \<Rightarrow> nat \<Rightarrow> 'a res" where
  "fq_get q index =
     bindE (fq_get_size q) (\<lambda>n.
     bindE (panic_if (index > n) ''index exceeds size'') (\<lambda>_.
     vec_at (fq_queue q) index))"

definition fq_remove :: "'a FixedSizeQueue \<Rightarrow> 'a FixedSizeQueue res" where
  "fq_remove q = bindE (deque_pop_front (fq_queue q)) (\<lambda>xs.
     Inr (q\<lparr>fq_ds := ds_remove (fq_ds q), fq_queue := xs\<rparr>))"

section \<open>PCQueue\<close>

text \<open>
  \<open>push_back\<close>, \<open>pop\<close> and \<open>top\<close> return before the statements that would use the priority queue
  \<open>queue\<close>; it is kept as a field since \<open>get_oldest_entry\<close> reads it.
\<close>

record pcQueueEntry_t =
  pqe_pc :: PC_t
  pqe_tick :: Tick

record PCQueue =
  pq_queue :: "pcQueueEntry_t list"
  pq_queue_n :: "pcQueueEntry_t list"

definition mk_PCQueue :: PCQueue where
  "mk_PCQueue = \<lparr>pq_queue = [], pq_queue_n = []\<rparr>"

definition pq_get_oldest_entry :: "PCQueue \<Rightarrow> Tick" where
  "pq_get_oldest_entry q =
     fold (\<lambda>e oldest. if pqe_tick e < oldest then pqe_tick e else oldest) (pq_queue q) (- 1)"

definition pq_exists :: "PCQueue \<Rightarrow> pcQueueEntry_t \<Rightarrow> bool" where
  "pq_exists q entry = list_ex (\<lambda>e. pqe_pc e = pqe_pc entry) (pq_queue_n q)"

definition pq_get_size :: "PCQueue \<Rightarrow> nat" where
  "pq_get_size q = length (pq_queue_n q)"

definition pq_push_back :: "pcQueueEntry_t \<Rightarrow> PCQueue \<Rightarrow> PCQueue" where
  "pq_push_back entry q = q\<lparr>pq_queue_n := pq_queue_n q @ [entry]\<rparr>"

definition pq_pop :: "PCQueue \<Rightarrow> PCQueue res" where
  "pq_pop q = bindE (deque_pop_front (pq_queue_n q)) (\<lambda>xs. Inr (q\<lparr>pq_queue_n := xs\<rparr>))"

definition pq_top :: "PCQueue \<Rightarrow> pcQueueEntry_t res" where
  "pq_top q = deque_front (pq_queue_n q)"

definition pq_top_n_pc :: "nat \<Rightarrow> PCQueue \<Rightarrow> PC_t list" where
  "pq_top_n_pc n q = map (\<lambda>i. if i < length (pq_queue_n q) then pqe_pc (pq_queue_n q ! i) else 0) [0..<n]"

section \<open>The contract of the bounded queues\<close>

definition last_n :: "nat \<Rightarrow> 'a list \<Rightarrow> 'a list" where
  "last_n n xs = drop (length xs - n) xs"

lemma length_last_n [simp]: "length (last_n n xs) = min n (length xs)"
  by (simp add: last_n_def min_def)

lemma last_n_all [simp]: "length xs \<le> n \<Longrightarrow> last_n n xs = xs"
  by (simp add: last_n_def)

lemma last_n_append_last_n: "last_n n (last_n n xs @ ys) = last_n n (xs @ ys)"
  by (cases "length xs \<le> n") (auto simp: last_n_def ac_simps)

lemma last_n_of_append: "n \<le> length ys \<Longrightarrow> last_n n (xs @ ys) = last_n n ys"
  by (simp add: last_n_def)

locale bounded_fifo =
  fixes push :: "'a \<Rightarrow> 'q \<Rightarrow> 'q res"
    and contents :: "'q \<Rightarrow> 'a list"
    and cap :: "'q \<Rightarrow> nat"
    and inv :: "'q \<Rightarrow> bool"
  assumes push_ok: "inv q \<Longrightarrow> \<exists>q'. push x q = Inr q' \<and> inv q' \<and> cap q' = cap q \<and>
      contents q' = (if length (contents q) = cap q then tl (contents q) else contents q) @ [x]"
    and bounded: "inv q \<Longrightarrow> length (contents q) \<le> cap q \<and> 0 < cap q"
begin

lemma push_last_n: "inv q \<Longrightarrow> \<exists>q'. push x q = Inr q' \<and> inv q' \<and> cap q' = cap q \<and>
    contents q' = last_n (cap q) (contents q @ [x])"
proof -
  assume q: "inv q"
  have "(if length (contents q) = cap q then tl (contents q) else contents q) @ [x]
      = last_n (cap q) (contents q @ [x])"
    using bounded [OF q] by (auto simp: last_n_def drop_Suc tl_append2 not_le)
  with push_ok [OF q, of x] show ?thesis by auto
qed

lemma pushes: "inv q \<Longrightarrow> \<exists>q'. fold_res push xs q = Inr q' \<and> inv q' \<and> cap q' = cap q \<and>
    contents q' = last_n (cap q) (contents q @ xs)"
proof (induction xs arbitrary: q)
  case Nil
  then show ?case using bounded [OF Nil.prems] by simp
next
  case (Cons x xs)
  from push_last_n [OF Cons.prems, of x] obtain u where u: "push x q = Inr u" "inv u"
    "cap u = cap q" "contents u = last_n (cap q) (contents q @ [x])" by blast
  from Cons.IH [OF u(2)] obtain q' where q': "fold_res push xs u = Inr q'" "inv q'"
    "cap q' = cap u" "contents q' = last_n (cap u) (contents u @ xs)" by blast
  have "contents q' = last_n (cap q) (contents q @ x # xs)"
    using q'(4) u(3,4) last_n_append_last_n [of "cap q" "contents q @ [x]" xs] by simp
  with u q' show ?case by auto
qed

text \<open>The contents after enough pushes do not depend on what was there before.\<close>

lemma pushes_forget:
  assumes "inv p" "inv q" "cap p = cap q" "cap q \<le> length xs"
    and "fold_res push xs p = Inr p'" "fold_res push xs q = Inr q'"
  shows "contents p' = contents q'"
  using pushes [OF assms(1), of xs] pushes [OF assms(2), of xs] assms(3-)
  by (auto simp: last_n_of_append)

end

section \<open>SimpleFixedSizeQueue meets the contract\<close>

definition sq_inv :: "'a SimpleFixedSizeQueue \<Rightarrow> bool" where
  "sq_inv q = (length (sq_queue q) \<le> sq_sz q \<and> 0 < sq_sz q)"

lemma mk_SimpleFixedSizeQueue_inv: "0 < n \<Longrightarrow> sq_inv (mk_SimpleFixedSizeQueue n)"
  by (simp add: sq_inv_def mk_SimpleFixedSizeQueue_def)

interpretation sqf: bounded_fifo sq_push_back sq_queue sq_sz sq_inv
  by unfold_locales (auto simp: sq_push_back_def sq_inv_def deque_pop_front_def)

lemma sq_get_size_inv [simp]: "sq_inv q \<Longrightarrow> sq_get_size q = Inr (length (sq_queue q))"
  by (simp add: sq_get_size_def sq_inv_def)

lemma sq_remove_ok: "sq_queue q \<noteq> [] \<Longrightarrow> sq_remove q = Inr (q\<lparr>sq_queue := tl (sq_queue q)\<rparr>)"
  by (simp add: sq_remove_def deque_pop_front_def)

lemma sq_clear_run: "length (sq_queue q) \<le> sq_sz q \<Longrightarrow> sq_clear q = Some (Inr (q\<lparr>sq_queue := []\<rparr>))"
proof (induction "length (sq_queue q)" arbitrary: q)
  case 0
  then show ?case by (subst sq_clear.simps) (simp add: sq_get_size_def)
next
  case (Suc n)
  let ?q = "q\<lparr>sq_queue := tl (sq_queue q)\<rparr>"
  have ne: "sq_queue q \<noteq> []" using Suc.hyps(2) by auto
  have "sq_clear q = sq_clear ?q"
    using Suc.prems ne by (subst sq_clear.simps) (simp add: sq_get_size_def sq_remove_ok)
  also have "\<dots> = Some (Inr (?q\<lparr>sq_queue := []\<rparr>))"
    by (rule Suc.hyps(1)) (use Suc.hyps(2) Suc.prems in auto)
  finally show ?case by simp
qed

section \<open>FixedSizeQueue meets the contract\<close>

text \<open>
  The statistics follow the contents: with statistics on, insertions exceed deletions by the
  number of elements held.
\<close>

definition fq_inv :: "'a FixedSizeQueue \<Rightarrow> bool" where
  "fq_inv q = (length (fq_queue q) \<le> fq_sz q \<and> 0 < fq_sz q \<and>
     (ds_statsEnabled (fq_ds q) \<longrightarrow>
        ds_totalInsertions (fq_ds q) = ds_totalDeletions (fq_ds q) + length (fq_queue q)))"

lemma mk_FixedSizeQueue_inv: "0 < n \<Longrightarrow> fq_inv (mk_FixedSizeQueue nm n)"
  by (simp add: fq_inv_def mk_FixedSizeQueue_def mk_DataStore_def)

interpretation fqf: bounded_fifo fq_push_back fq_queue fq_sz fq_inv
  by unfold_locales
     (auto simp: fq_push_back_def fq_inv_def deque_pop_front_def ds_add_def ds_remove_def Let_def)

lemma fq_push_back_frame: "fq_push_back x q = Inr q' \<Longrightarrow>
    fq_sz q' = fq_sz q \<and> ds_statsEnabled (fq_ds q') = ds_statsEnabled (fq_ds q) \<and>
    ds_totalInsertions (fq_ds q') = ds_totalInsertions (fq_ds q) + of_bool (ds_statsEnabled (fq_ds q))"
  by (auto simp: fq_push_back_def Let_def ds_add_def ds_remove_def bindE_eq_Inr split: if_splits)

lemma fq_pushes_insertions: "fold_res fq_push_back xs q = Inr q' \<Longrightarrow> ds_statsEnabled (fq_ds q) \<Longrightarrow>
    ds_statsEnabled (fq_ds q') \<and> ds_totalInsertions (fq_ds q') = ds_totalInsertions (fq_ds q) + length xs"
proof (induction xs arbitrary: q)
  case Nil
  then show ?case by simp
next
  case (Cons x xs)
  then obtain u where u: "fq_push_back x q = Inr u" "fold_res fq_push_back xs u = Inr q'"
    by (auto simp: bindE_eq_Inr)
  from Cons.IH [OF u(2)] fq_push_back_frame [OF u(1)] Cons.prems(2) show ?case by simp
qed

lemma fq_remove_inv: "fq_inv q \<Longrightarrow> fq_remove q = Inr q' \<Longrightarrow> fq_inv q' \<and> fq_queue q' = tl (fq_queue q)"
  by (auto simp: fq_remove_def fq_inv_def deque_pop_front_def ds_remove_def bindE_eq_Inr split: if_splits)

lemma fq_get_cases: "fq_inv q \<Longrightarrow> fq_get q i =
    (if i < length (fq_queue q) then Inr (fq_queue q ! i)
     else if i = length (fq_queue q) then Inl Out_Of_Range
     else Inl (Panic ''index exceeds size''))"
  by (simp add: fq_get_def fq_get_size_def fq_inv_def vec_at_def panic_if_def)

section \<open>PCQueue\<close>

lemma pq_fifo: "pq_queue_n q \<noteq> [] \<Longrightarrow>
    pq_top q = Inr (hd (pq_queue_n q)) \<and> pq_pop q = Inr (q\<lparr>pq_queue_n := tl (pq_queue_n q)\<rparr>)"
  by (simp add: pq_top_def pq_pop_def deque_front_def deque_pop_front_def)

lemma pq_exists_iff: "pq_exists q e \<longleftrightarrow> pqe_pc e \<in> pqe_pc ` set (pq_queue_n q)"
  by (simp add: pq_exists_def list_ex_iff image_iff eq_commute)

lemma pq_push_back_queue [simp]: "pq_queue (pq_push_back e q) = pq_queue q"
  by (simp add: pq_push_back_def)

lemma pq_pop_queue: "pq_pop q = Inr q' \<Longrightarrow> pq_queue q' = pq_queue q"
  by (auto simp: pq_pop_def bindE_eq_Inr)

section \<open>Properties\<close>

text \<open>A \<open>SimpleFixedSizeQueue\<close> of positive capacity \<open>n\<close> accepts every sequence of \<open>push_back\<close>
  calls and afterwards holds exactly the last \<open>n\<close> pushed elements, oldest first.\<close>

theorem simple_queue_keeps_last:
  assumes "0 < n"
  shows "\<exists>q. fold_res sq_push_back xs (mk_SimpleFixedSizeQueue n) = Inr q \<and> sq_queue q = last_n n xs"
  using sqf.pushes [OF mk_SimpleFixedSizeQueue_inv [OF assms], of xs]
  by (auto simp: mk_SimpleFixedSizeQueue_def)

theorem simple_queue_keeps_last_witness:
  "0 < (2::nat) \<and> (\<exists>q. fold_res sq_push_back [1::nat, 2, 3] (mk_SimpleFixedSizeQueue 2) = Inr q \<and>
     sq_queue q = [2, 3])"
  using simple_queue_keeps_last [of 2 "[1::nat, 2, 3]"] by (simp add: last_n_def)

text \<open>C38: The loop of \<open>SimpleFixedSizeQueue::clear\<close> ends on every queue.  It removes all elements of a queue that
  respects its capacity and leaves the capacity alone; on a fuller queue the assertion of \<open>get_size\<close> ends it
  before anything is removed.\<close>

theorem simple_queue_clear_ends:
  "sq_clear q = Some (if length (sq_queue q) \<le> sq_sz q then Inr (q\<lparr>sq_queue := []\<rparr>) else Inl (Assert_Fail ''get_size''))"
proof (cases "length (sq_queue q) \<le> sq_sz q")
  case True
  then show ?thesis using sq_clear_run by simp
next
  case False
  then show ?thesis by (subst sq_clear.simps) (simp add: sq_get_size_def)
qed

text \<open>C37: After any sequence of \<open>push_back\<close> calls a \<open>FixedSizeQueue\<close> of positive capacity \<open>n\<close> holds the
  last \<open>n\<close> pushed elements, and with statistics on its \<open>DataStore\<close> counts one insertion per push
  and one deletion per element dropped.\<close>

theorem fixed_queue_stats:
  assumes "0 < n" and "nm \<noteq> ''''"
  shows "\<exists>q. fold_res fq_push_back xs (mk_FixedSizeQueue nm n) = Inr q \<and> fq_queue q = last_n n xs \<and>
    ds_totalInsertions (fq_ds q) = length xs \<and> ds_totalDeletions (fq_ds q) = length xs - n"
proof -
  let ?q0 = "mk_FixedSizeQueue nm n"
  from fqf.pushes [OF mk_FixedSizeQueue_inv [OF assms(1)], of xs nm] obtain q
    where q: "fold_res fq_push_back xs ?q0 = Inr q" "fq_inv q" "fq_queue q = last_n n xs"
    by (auto simp: mk_FixedSizeQueue_def)
  have "ds_statsEnabled (fq_ds q) \<and> ds_totalInsertions (fq_ds q) = length xs"
    using fq_pushes_insertions [OF q(1)] assms(2) by (simp add: mk_FixedSizeQueue_def mk_DataStore_def)
  with q show ?thesis by (auto simp: fq_inv_def)
qed

theorem fixed_queue_stats_witness:
  "0 < (2::nat) \<and> ''whb'' \<noteq> '''' \<and>
   (\<exists>q. fold_res fq_push_back [1::nat, 2, 3] (mk_FixedSizeQueue ''whb'' 2) = Inr q \<and> fq_queue q = [2, 3] \<and>
    ds_totalInsertions (fq_ds q) = 3 \<and> ds_totalDeletions (fq_ds q) = 1)"
  using fixed_queue_stats [of 2 "''whb''" "[1::nat, 2, 3]"] by (simp add: last_n_def eval_nat_numeral)

end
