(* ===== verification/Write_History.thy ===== *)
theory Write_History
  imports Cache_Line Queues
begin

text \<open>
  \<open>gem5/src/mem/predictor/WriteHistoryBuffer.{hh,cc}\<close>: one write of the history buffer, the buffer
  itself being a \<open>FixedSizeQueue\<close> of entries.  Members no constructor initialises and no guard
  protects (\<open>id\<close>, \<open>size\<close>) are options; reading \<open>None\<close> is undefined.
\<close>

record WriteHistoryBufferEntry =
  whb_id :: "64 word option"
  whb_pc :: PC_t
  whb_cacheLine :: CacheLine
  whb_genTick :: Tick
  whb_pathHash :: hash_t
  whb_size :: "size_t option"
  whb_hasGenTick :: bool
  whb_isUsed :: bool
  whb_hasPathHash :: bool
  whb_hasSize :: bool

type_synonym whb = "WriteHistoryBufferEntry FixedSizeQueue"

definition mk_WHBEntry :: "PC_t \<Rightarrow> CacheLine \<Rightarrow> WriteHistoryBufferEntry" where
  "mk_WHBEntry pc cl = \<lparr>whb_id = None, whb_pc = pc, whb_cacheLine = cl, whb_genTick = 0,
     whb_pathHash = 0, whb_size = None, whb_hasGenTick = False, whb_isUsed = False,
     whb_hasPathHash = False, whb_hasSize = True\<rparr>"

definition whb_set_cacheline :: "CacheLine \<Rightarrow> WriteHistoryBufferEntry \<Rightarrow> WriteHistoryBufferEntry" where
  "whb_set_cacheline cl e = e\<lparr>whb_cacheLine := cl\<rparr>"

definition whb_get_cacheline :: "WriteHistoryBufferEntry \<Rightarrow> CacheLine" where
  "whb_get_cacheline e = whb_cacheLine e"

text \<open>One iteration of the filling loop of the constructor from a write.\<close>

definition whb_fill_chunk :: "PC_t \<Rightarrow> Addr_t \<Rightarrow> DataChunk list \<Rightarrow> nat \<Rightarrow> nat \<Rightarrow> CacheLine \<Rightarrow> CacheLine res" where
  "whb_fill_chunk pc alignedAddr src addrOffset i cl =
     bindE (panic_if (i \<ge> DATA_CHUNK_COUNT) ''Buffer overflow'') (\<lambda>_.
     bindE (arr_get (cl_dataChunks cl) i) (\<lambda>c.
     bindE (arr_get src (i - addrOffset)) (\<lambda>d.
     bindE (set_data d (set_chunk_type CT_DATA c)) (\<lambda>c1.
     bindE (arr_set (cl_dataChunks cl) i (set_generating_pc pc c1)) (\<lambda>cs.
     Inr (set_addr alignedAddr (cl\<lparr>cl_dataChunks := cs\<rparr>)))))))"

definition mk_WHBEntry_write ::
    "Tick \<Rightarrow> PC_t \<Rightarrow> Addr_t \<Rightarrow> DataChunk list \<Rightarrow> nat \<Rightarrow> hash_t \<Rightarrow> WriteHistoryBufferEntry res" where
  "mk_WHBEntry_write curTick pc addr src dataChunkCount hash =
     (let addrOffset = chunk_offset addr in
      bindE (fold_res (whb_fill_chunk pc (cacheline_align addr) src addrOffset)
               [addrOffset..<addrOffset + dataChunkCount] (CacheLine_default curTick)) (\<lambda>tempCacheline.
      Inr ((whb_set_cacheline tempCacheline (mk_WHBEntry pc (CacheLine_default curTick)))
             \<lparr>whb_pathHash := hash, whb_hasPathHash := True\<rparr>)))"

definition whb_set_pc :: "PC_t \<Rightarrow> WriteHistoryBufferEntry \<Rightarrow> WriteHistoryBufferEntry" where
  "whb_set_pc pc e = e\<lparr>whb_pc := pc\<rparr>"

definition whb_get_pc :: "WriteHistoryBufferEntry \<Rightarrow> PC_t" where
  "whb_get_pc e = whb_pc e"

definition whb_set_gen_tick :: "Tick \<Rightarrow> WriteHistoryBufferEntry \<Rightarrow> WriteHistoryBufferEntry" where
  "whb_set_gen_tick t e = e\<lparr>whb_hasGenTick := True, whb_genTick := t\<rparr>"

definition whb_get_gen_tick :: "WriteHistoryBufferEntry \<Rightarrow> Tick res" where
  "whb_get_gen_tick e = bindE (assertE (whb_hasGenTick e) ''hasGenTick'') (\<lambda>_. Inr (whb_genTick e))"

definition whb_set_id :: "64 word \<Rightarrow> WriteHistoryBufferEntry \<Rightarrow> WriteHistoryBufferEntry" where
  "whb_set_id i e = e\<lparr>whb_id := Some i\<rparr>"

definition whb_get_id :: "WriteHistoryBufferEntry \<Rightarrow> 64 word res" where
  "whb_get_id e = (case whb_id e of None \<Rightarrow> Inl (Undefined ''id'') | Some i \<Rightarrow> Inr i)"

definition whb_use :: "WriteHistoryBufferEntry \<Rightarrow> WriteHistoryBufferEntry" where
  "whb_use e = e\<lparr>whb_isUsed := True\<rparr>"

definition whb_is_used :: "WriteHistoryBufferEntry \<Rightarrow> bool" where
  "whb_is_used e = whb_isUsed e"

definition whb_get_path_hash :: "WriteHistoryBufferEntry \<Rightarrow> hash_t res" where
  "whb_get_path_hash e = bindE (panic_if_not (whb_hasPathHash e) ''hasPathHash'') (\<lambda>_. Inr (whb_pathHash e))"

definition whb_set_path_hash :: "hash_t \<Rightarrow> WriteHistoryBufferEntry \<Rightarrow> WriteHistoryBufferEntry" where
  "whb_set_path_hash h e = e\<lparr>whb_pathHash := h, whb_hasPathHash := True\<rparr>"

definition whb_get_size :: "WriteHistoryBufferEntry \<Rightarrow> size_t res" where
  "whb_get_size e = bindE (panic_if_not (whb_hasSize e) ''hasSize'') (\<lambda>_.
     case whb_size e of None \<Rightarrow> Inl (Undefined ''size'') | Some n \<Rightarrow> Inr n)"

definition whb_set_size :: "size_t \<Rightarrow> WriteHistoryBufferEntry \<Rightarrow> WriteHistoryBufferEntry" where
  "whb_set_size n e = e\<lparr>whb_size := Some n, whb_hasSize := True\<rparr>"

section \<open>Lemmas\<close>

interpretation whb_tick: guarded_field whb_hasGenTick whb_get_gen_tick whb_set_gen_tick
  by unfold_locales (auto simp: whb_get_gen_tick_def whb_set_gen_tick_def is_ok_iff bindE_eq_Inr)

interpretation whb_hash: guarded_field whb_hasPathHash whb_get_path_hash whb_set_path_hash
  by unfold_locales (auto simp: whb_get_path_hash_def whb_set_path_hash_def is_ok_iff bindE_eq_Inr)

lemma set_type_data_pc_ok: "\<exists>c'. set_data d (set_chunk_type CT_DATA c) = Inr c' \<and>
    chunk_ok (set_generating_pc pc c') \<and> get_data (set_generating_pc pc c') = Inr d \<and>
    get_generating_pc (set_generating_pc pc c') = Inr pc"
proof -
  obtain c' where "set_data d (set_chunk_type CT_DATA c) = Inr c'" "chunk_ok c'" "holds c' d"
    using set_type_data_ok by blast
  moreover have "chunk_ok (set_generating_pc pc c')" "holds (set_generating_pc pc c') d"
    using calculation by (auto simp: chunk_ok_def set_generating_pc_def is_flag_set_set chunk_data_def)
  ultimately show ?thesis by (simp add: gen_pc.get_set)
qed

lemma whb_fill_run:
  assumes "off + n \<le> 16" and "n \<le> length src" and "cl_ok cl"
  shows "\<exists>cl'. fold_res (whb_fill_chunk pc a src off) [off..<off + n] cl = Inr cl' \<and> cl_ok cl' \<and>
    (0 < n \<longrightarrow> get_addr cl' = Inr a) \<and> (n = 0 \<longrightarrow> cl' = cl) \<and>
    (\<forall>j<16. if off \<le> j \<and> j < off + n
       then get_data (cl_dataChunks cl' ! j) = Inr (src ! (j - off)) \<and>
            get_generating_pc (cl_dataChunks cl' ! j) = Inr pc
       else cl_dataChunks cl' ! j = cl_dataChunks cl ! j)"
  using assms(1,2)
proof (induction n)
  case 0
  then show ?case using assms(3) by auto
next
  case (Suc n)
  from Suc obtain u where u: "fold_res (whb_fill_chunk pc a src off) [off..<off + n] cl = Inr u" "cl_ok u"
    "\<forall>j<16. if off \<le> j \<and> j < off + n
       then get_data (cl_dataChunks u ! j) = Inr (src ! (j - off)) \<and>
            get_generating_pc (cl_dataChunks u ! j) = Inr pc
       else cl_dataChunks u ! j = cl_dataChunks cl ! j" by auto
  have len: "length (cl_dataChunks u) = 16" and ok: "list_all chunk_ok (cl_dataChunks u)"
    using u(2) by (auto simp: cl_ok_def)
  obtain c where c: "set_data (src ! n) (set_chunk_type CT_DATA (cl_dataChunks u ! (off + n))) = Inr c"
    "chunk_ok (set_generating_pc pc c)" "get_data (set_generating_pc pc c) = Inr (src ! n)"
    "get_generating_pc (set_generating_pc pc c) = Inr pc"
    using set_type_data_pc_ok by blast
  let ?u = "set_addr a (u\<lparr>cl_dataChunks := (cl_dataChunks u)[off + n := set_generating_pc pc c]\<rparr>)"
  have "whb_fill_chunk pc a src off (off + n) u = Inr ?u"
    using Suc.prems len c(1) by (simp add: whb_fill_chunk_def)
  then have run: "fold_res (whb_fill_chunk pc a src off) [off..<off + Suc n] cl = Inr ?u"
    using u(1) by (simp add: fold_res_append)
  have "cl_ok ?u"
    using len ok c(2) set_update_subset_insert [of "cl_dataChunks u" "off + n" "set_generating_pc pc c"]
    by (auto simp: cl_ok_def set_addr_def list_all_iff)
  moreover have "get_addr ?u = Inr a" by (simp add: get_addr_def set_addr_def)
  moreover have "if off \<le> j \<and> j < off + Suc n
       then get_data (cl_dataChunks ?u ! j) = Inr (src ! (j - off)) \<and>
            get_generating_pc (cl_dataChunks ?u ! j) = Inr pc
       else cl_dataChunks ?u ! j = cl_dataChunks cl ! j" if "j < 16" for j
  proof (cases "j = off + n")
    case True
    then show ?thesis using that len c by (simp add: set_addr_def)
  next
    case False
    then show ?thesis using u(3) [rule_format, OF that] by (auto simp: set_addr_def split: if_splits)
  qed
  ultimately show ?case using run by simp
qed

lemma mk_WHBEntry_write_run:
  assumes "chunk_offset addr + n \<le> 16" and "n \<le> length src"
  shows "\<exists>cl. mk_WHBEntry_write t pc addr src n h = Inr ((mk_WHBEntry pc cl)\<lparr>whb_pathHash := h, whb_hasPathHash := True\<rparr>) \<and>
    cl_ok cl \<and> (0 < n \<longrightarrow> get_addr cl = Inr (cacheline_align addr)) \<and>
    (\<forall>j<16. if chunk_offset addr \<le> j \<and> j < chunk_offset addr + n
       then get_data (cl_dataChunks cl ! j) = Inr (src ! (j - chunk_offset addr)) \<and>
            get_generating_pc (cl_dataChunks cl ! j) = Inr pc
       else cl_dataChunks cl ! j = ChunkInfo_default)"
proof -
  have d: "cl_dataChunks (CacheLine_default t) ! j = ChunkInfo_default" if "j < 16" for j
    using that by (simp add: CacheLine_default_def)
  from whb_fill_run [OF assms CacheLine_default_ok, of pc "cacheline_align addr" t] obtain cl
    where cl: "fold_res (whb_fill_chunk pc (cacheline_align addr) src (chunk_offset addr))
        [chunk_offset addr..<chunk_offset addr + n] (CacheLine_default t) = Inr cl"
      "cl_ok cl" "0 < n \<longrightarrow> get_addr cl = Inr (cacheline_align addr)"
      "\<forall>j<16. if chunk_offset addr \<le> j \<and> j < chunk_offset addr + n
         then get_data (cl_dataChunks cl ! j) = Inr (src ! (j - chunk_offset addr)) \<and>
              get_generating_pc (cl_dataChunks cl ! j) = Inr pc
         else cl_dataChunks cl ! j = cl_dataChunks (CacheLine_default t) ! j" by auto
  have "mk_WHBEntry_write t pc addr src n h = Inr ((mk_WHBEntry pc cl)\<lparr>whb_pathHash := h, whb_hasPathHash := True\<rparr>)"
    using cl(1) by (simp add: mk_WHBEntry_write_def whb_set_cacheline_def mk_WHBEntry_def Let_def)
  then show ?thesis using cl(2-4) d by (auto split: if_splits)
qed

section \<open>Properties\<close>

text \<open>C34: The history entry built from a write of \<open>n\<close> chunks that fits into its line records the
  write: the line is well-formed and carries the aligned address, chunk \<open>k\<close> of the write sits at
  index \<open>offset + k\<close> with the program counter of the store, every other chunk is invalid, and the
  path hash is the one given.\<close>

theorem mk_WHBEntry_write_correct:
  assumes "0 < n" and "chunk_offset addr + n \<le> 16" and "n \<le> length src"
  shows "\<exists>e. mk_WHBEntry_write t pc addr src n h = Inr e \<and> whb_get_pc e = pc \<and>
    whb_get_path_hash e = Inr h \<and> cl_ok (whb_get_cacheline e) \<and>
    get_addr (whb_get_cacheline e) = Inr (cacheline_align addr) \<and>
    (\<forall>j<16. let c = cl_dataChunks (whb_get_cacheline e) ! j; off = chunk_offset addr in
       if off \<le> j \<and> j < off + n then get_data c = Inr (src ! (j - off)) \<and> get_generating_pc c = Inr pc
       else is_valid c = Inr False)"
proof -
  have "is_valid ChunkInfo_default = Inr False" by (simp add: ChunkInfo_default_def is_valid_def)
  with mk_WHBEntry_write_run [OF assms(2,3), of t pc h] assms(1) show ?thesis
    by (auto simp: whb_get_pc_def whb_get_path_hash_def whb_get_cacheline_def mk_WHBEntry_def Let_def split: if_splits)
qed

theorem mk_WHBEntry_write_correct_witness:
  "0 < (2::nat) \<and> chunk_offset 0x1008 + 2 \<le> 16 \<and> (2::nat) \<le> length [5, 6 :: DataChunk] \<and>
   (\<exists>e. mk_WHBEntry_write 3 0x400 0x1008 [5, 6] 2 0xab = Inr e \<and> whb_get_pc e = 0x400 \<and>
      get_addr (whb_get_cacheline e) = Inr (cacheline_align 0x1008))"
proof -
  have "chunk_offset 0x1008 = 2" by code_simp
  then show ?thesis
    using mk_WHBEntry_write_correct [of 2 "0x1008" "[5, 6]" 3 "0x400" "0xab"] by auto
qed

end
