(* ===== verification/Pending_Table.thy ===== *)
theory Pending_Table
  imports Write_History
begin

text \<open>
  \<open>gem5/src/mem/predictor/PendingTable.{hh,cc}\<close>: the predictions that wait for the stores of
  their generating program counters.

  Several waiting chunks point to one parent, the write they belong to; the parents live in an
  explicit store from addresses to objects.  \<open>pendingVolatilePCs\<close> counts the waiting chunks per
  program counter and \<open>insertionOrder\<close> drives the eviction in insertion order.  The samples of the
  distribution \<open>pendingVolatilePCsSize\<close> are not kept.
\<close>

section \<open>Parents\<close>

record PendingTableEntryParent =
  pp_generatorHash :: hash_t
  pp_hasGeneratorHash :: bool
  pp_originalCacheLine :: CacheLine
  pp_hasOrigCL :: bool
  pp_ihbPatternIndex :: size_t
  pp_hasIhbPatternIndex :: bool
  pp_pc :: PC_t
  pp_addrComplete :: bool
  pp_addr :: ChunkInfo
  pp_dataComplete :: "bool list"
  pp_cacheline :: CacheLine

definition mk_Parent :: "Tick \<Rightarrow> PendingTableEntryParent" where
  "mk_Parent curTick = \<lparr>pp_generatorHash = 0, pp_hasGeneratorHash = False,
     pp_originalCacheLine = CacheLine_default curTick, pp_hasOrigCL = False, pp_ihbPatternIndex = 0,
     pp_hasIhbPatternIndex = False, pp_pc = 0, pp_addrComplete = False, pp_addr = ChunkInfo_default,
     pp_dataComplete = replicate DATA_CHUNK_COUNT False, pp_cacheline = CacheLine_default curTick\<rparr>"

text \<open>The terms of the sum in \<open>allComplete\<close>: an invalid chunk always counts.\<close>

fun complete_count :: "ChunkInfo list \<Rightarrow> bool list \<Rightarrow> nat res" where
  "complete_count (c # cs) (b # bs) =
     bindE (is_valid c) (\<lambda>v. bindE (complete_count cs bs) (\<lambda>n. Inr ((if v then of_bool b else 1) + n)))"
| "complete_count cs bs = Inr 0"

definition allComplete :: "PendingTableEntryParent \<Rightarrow> nat res" where
  "allComplete p =
     bindE (complete_count (cl_dataChunks (pp_cacheline p)) (pp_dataComplete p)) (\<lambda>n.
     Inr (of_bool (pp_addrComplete p) + n))"

definition pp_set_generator_hash :: "hash_t \<Rightarrow> PendingTableEntryParent \<Rightarrow> PendingTableEntryParent" where
  "pp_set_generator_hash h p = p\<lparr>pp_hasGeneratorHash := True, pp_generatorHash := h\<rparr>"

definition pp_get_generator_hash :: "PendingTableEntryParent \<Rightarrow> hash_t res" where
  "pp_get_generator_hash p = bindE (assertE (pp_hasGeneratorHash p) ''hasGeneratorHash'') (\<lambda>_. Inr (pp_generatorHash p))"

definition pp_set_original_cacheline :: "CacheLine \<Rightarrow> PendingTableEntryParent \<Rightarrow> PendingTableEntryParent" where
  "pp_set_original_cacheline cl p = p\<lparr>pp_hasOrigCL := True, pp_originalCacheLine := cl\<rparr>"

definition pp_get_original_cacheline :: "PendingTableEntryParent \<Rightarrow> CacheLine res" where
  "pp_get_original_cacheline p = bindE (assertE (pp_hasOrigCL p) ''hasOrigCL'') (\<lambda>_. Inr (pp_originalCacheLine p))"

definition pp_set_ihb_pattern_index :: "size_t \<Rightarrow> PendingTableEntryParent \<Rightarrow> PendingTableEntryParent" where
  "pp_set_ihb_pattern_index i p = p\<lparr>pp_hasIhbPatternIndex := True, pp_ihbPatternIndex := i\<rparr>"

definition pp_get_ihb_pattern_index :: "PendingTableEntryParent \<Rightarrow> size_t res" where
  "pp_get_ihb_pattern_index p = bindE (assertE (pp_hasIhbPatternIndex p) ''hasIhbPatternIndex'') (\<lambda>_. Inr (pp_ihbPatternIndex p))"

section \<open>Waiting chunks\<close>

text \<open>\<open>PendTableChunkInfo\<close> extends \<open>ChunkInfo\<close>; the base object is the field \<open>pe_chunk\<close>.\<close>

record PendTableChunkInfo =
  pe_chunk :: ChunkInfo
  pe_parent :: "nat option"
  pe_parentIndex :: int
  pe_hasParentIndex :: bool

type_synonym parents = "nat \<rightharpoonup> PendingTableEntryParent"

definition mk_PendTableChunkInfo :: "ChunkInfo \<Rightarrow> nat option \<Rightarrow> int \<Rightarrow> PendTableChunkInfo" where
  "mk_PendTableChunkInfo c parent parentIndex =
     \<lparr>pe_chunk = c, pe_parent = parent, pe_parentIndex = parentIndex, pe_hasParentIndex = True\<rparr>"

definition get_parent_index :: "PendTableChunkInfo \<Rightarrow> int res" where
  "get_parent_index e = bindE (panic_if (\<not> pe_hasParentIndex e) ''Parent index was not set'') (\<lambda>_. Inr (pe_parentIndex e))"

definition set_parent_index :: "int \<Rightarrow> PendTableChunkInfo \<Rightarrow> PendTableChunkInfo" where
  "set_parent_index i e = e\<lparr>pe_hasParentIndex := True, pe_parentIndex := i\<rparr>"

definition pe_clear :: "PendTableChunkInfo \<Rightarrow> PendTableChunkInfo res" where
  "pe_clear e = bindE (ci_clear (pe_chunk e)) (\<lambda>c. Inr (e\<lparr>pe_chunk := c, pe_parent := None, pe_parentIndex := - 1\<rparr>))"

definition deref :: "parents \<Rightarrow> nat option \<Rightarrow> (nat \<times> PendingTableEntryParent) res" where
  "deref h ptr = (case ptr of None \<Rightarrow> Inl (Undefined ''null parent'')
     | Some a \<Rightarrow> (case h a of None \<Rightarrow> Inl (Undefined ''dangling parent'') | Some p \<Rightarrow> Inr (a, p)))"

definition to_index :: "int \<Rightarrow> nat" where
  "to_index i = unat (word_of_int i :: size_t)"

section \<open>The table\<close>

record PendingTable =
  pt_pendingTable :: "(PC_t, PendTableChunkInfo list) umap"
  pt_pendingVolatilePCs :: "(PC_t, 64 word) umap"
  pt_insertionOrder :: "PC_t list"
  pt_MAX_SIZE :: nat
  pt_DISABLE_WHB_SEARCH :: bool
  pt_ds :: DataStore

text \<open>\<open>maxSize\<close> is 128 times the floating-point factor \<open>SharedArea::sizeMultiplier\<close>, truncated.\<close>

definition mk_PendingTable :: "string \<Rightarrow> nat \<Rightarrow> environ \<Rightarrow> PendingTable" where
  "mk_PendingTable nm maxSize env = \<lparr>pt_pendingTable = [], pt_pendingVolatilePCs = [],
     pt_insertionOrder = [], pt_MAX_SIZE = maxSize,
     pt_DISABLE_WHB_SEARCH = get_env_val env ''DISABLE_WHB_SEARCH'', pt_ds = mk_DataStore nm\<rparr>"

definition pt_has_pc_waiting :: "PendingTable \<Rightarrow> PC_t \<Rightarrow> bool" where
  "pt_has_pc_waiting pt pc = (case um_find (pt_pendingVolatilePCs pt) pc of None \<Rightarrow> False | Some n \<Rightarrow> n > 0)"

definition pt_contains :: "PendingTable \<Rightarrow> PC_t \<Rightarrow> bool" where
  "pt_contains pt key = um_has (pt_pendingTable pt) key"

definition pt_get_size :: "PendingTable \<Rightarrow> nat" where
  "pt_get_size pt = length (pt_pendingTable pt)"

definition pt_remove_elem :: "PC_t \<Rightarrow> PendingTable \<Rightarrow> PendingTable" where
  "pt_remove_elem key pt = pt\<lparr>pt_ds := ds_remove (pt_ds pt), pt_pendingTable := um_erase key (pt_pendingTable pt)\<rparr>"

fun completed_parent_loop :: "parents \<Rightarrow> PendTableChunkInfo list \<Rightarrow> nat option res" where
  "completed_parent_loop h [] = Inr None"
| "completed_parent_loop h (e # es) =
     bindE (deref h (pe_parent e)) (\<lambda>(a, p).
     bindE (allComplete p) (\<lambda>n. if n = 17 then Inr (Some a) else completed_parent_loop h es))"

definition get_completed_parent :: "parents \<Rightarrow> PendingTable \<Rightarrow> PC_t \<Rightarrow> nat option res" where
  "get_completed_parent h pt pc = (case um_find (pt_pendingTable pt) pc of
     None \<Rightarrow> Inr None | Some q \<Rightarrow> completed_parent_loop h q)"

subsection \<open>add\<close>

text \<open>The waiting branch of \<open>add\<close>, with the eviction of the oldest program counter at capacity.\<close>

definition pt_add_waiting :: "PendTableChunkInfo \<Rightarrow> PendingTable \<Rightarrow> PendingTable res" where
  "pt_add_waiting elem pt =
     bindE (get_generating_pc (pe_chunk elem)) (\<lambda>pc.
     let q = (case um_find (pt_pendingTable pt) pc of None \<Rightarrow> [] | Some q \<Rightarrow> q);
         n = (case um_find (pt_pendingVolatilePCs pt) pc of None \<Rightarrow> 0 | Some n \<Rightarrow> n) + 1;
         order = (if List.member (pt_insertionOrder pt) pc then pt_insertionOrder pt
                  else pt_insertionOrder pt @ [pc]);
         pt1 = pt\<lparr>pt_ds := ds_add (pt_ds pt),
                  pt_pendingTable := um_put pc (q @ [elem]) (pt_pendingTable pt),
                  pt_pendingVolatilePCs := um_put pc n (pt_pendingVolatilePCs pt),
                  pt_insertionOrder := order\<rparr> in
     bindE (panic_if_not (n > 0) ''pendingVolatilePCs'') (\<lambda>_.
     bindE (panic_if_not (pe_hasParentIndex elem) ''has_parent_index'') (\<lambda>_.
     if length order = pt_MAX_SIZE pt
     then bindE (deque_front order) (\<lambda>entryToEvict.
            Inr (pt1\<lparr>pt_insertionOrder := tl order,
                     pt_pendingVolatilePCs := um_erase entryToEvict (pt_pendingVolatilePCs pt1),
                     pt_pendingTable := um_erase entryToEvict (pt_pendingTable pt1)\<rparr>))
     else Inr pt1)))"

text \<open>The searching branch: newest history entry first.\<close>

definition whb_search_hit :: "PendTableChunkInfo \<Rightarrow> DataChunk \<Rightarrow> parents \<Rightarrow> parents res" where
  "whb_search_hit elem data h =
     (if ci_chunkType (pe_chunk elem) = CT_DATA then
        bindE (deref h (pe_parent elem)) (\<lambda>(a, p).
        bindE (get_parent_index elem) (\<lambda>i.
        bindE (arr_get (cl_dataChunks (pp_cacheline p)) (to_index i)) (\<lambda>c.
        bindE (set_data data c) (\<lambda>c'.
        bindE (arr_set (cl_dataChunks (pp_cacheline p)) (to_index i) c') (\<lambda>cs.
        bindE (arr_set (pp_dataComplete p) (to_index i) True) (\<lambda>bs.
        Inr (h(a \<mapsto> p\<lparr>pp_cacheline := (pp_cacheline p)\<lparr>cl_dataChunks := cs\<rparr>, pp_dataComplete := bs\<rparr>))))))))
      else if ci_chunkType (pe_chunk elem) = CT_ADDR then
        bindE (deref h (pe_parent elem)) (\<lambda>(a, p).
        bindE (set_target_addr (ucast data) (pp_addr p)) (\<lambda>c.
        Inr (h(a \<mapsto> p\<lparr>pp_addr := c, pp_addrComplete := True\<rparr>))))
      else Inr h)"

primrec whb_search_loop :: "PendTableChunkInfo \<Rightarrow> WriteHistoryBufferEntry list \<Rightarrow> parents \<Rightarrow> parents res" where
  "whb_search_loop elem [] h = Inr h"
| "whb_search_loop elem (w # ws) h =
     (let cl = whb_get_cacheline w in
      bindE (find_first_valid_index cl) (\<lambda>f.
      bindE (get_data_field_offset (pe_chunk elem)) (\<lambda>off.
      bindE (arr_get (cl_dataChunks cl) (unat (f + off))) (\<lambda>c.
      bindE (is_valid c) (\<lambda>v.
      if v \<and> ci_chunkType c = CT_DATA
      then bindE (get_data c) (\<lambda>data.
           bindE (get_generating_pc (pe_chunk elem)) (\<lambda>pc.
           if whb_get_pc w = pc then whb_search_hit elem data h
           else whb_search_loop elem ws h))
      else whb_search_loop elem ws h)))))"

definition pt_add :: "PendTableChunkInfo \<Rightarrow> whb \<Rightarrow> parents \<times> PendingTable \<Rightarrow> (parents \<times> PendingTable) res" where
  "pt_add elem whb = (\<lambda>(h, pt).
     if \<not> is_whb_search (pe_chunk elem) \<or> pt_DISABLE_WHB_SEARCH pt
     then bindE (pt_add_waiting elem pt) (\<lambda>pt'. Inr (h, pt'))
     else bindE (whb_search_loop elem (rev (fq_queue whb)) h) (\<lambda>h'. Inr (h', pt)))"

subsection \<open>update entry state\<close>

record UpdState =
  us_heap :: parents
  us_counts :: "(PC_t, 64 word) umap"
  us_completedParents :: "nat list"
  us_completedEntries :: "nat list"
  us_iter :: nat

definition count_decr_index :: "PC_t \<Rightarrow> (PC_t, 64 word) umap \<Rightarrow> (PC_t, 64 word) umap res" where
  "count_decr_index pc m =
     (let n = (case um_find m pc of None \<Rightarrow> 0 | Some n \<Rightarrow> n) - 1;
          m1 = (if n = 0 then um_erase pc (um_put pc n m) else um_put pc n m);
          m2 = um_index 0 pc m1 in
      bindE (panic_if (um_find m2 pc = Some (- 1)) ''Volatile write count violation'') (\<lambda>_. Inr m2))"

definition count_decr_at :: "PC_t \<Rightarrow> (PC_t, 64 word) umap \<Rightarrow> (PC_t, 64 word) umap res" where
  "count_decr_at pc m = bindE (um_at m pc) (\<lambda>n. Inr (um_put pc (n - 1) m))"

definition satisfy_data :: "Tick \<Rightarrow> PendTableChunkInfo \<Rightarrow> DataChunk \<Rightarrow> PendingTableEntryParent \<Rightarrow> PendingTableEntryParent res" where
  "satisfy_data curTick e d p =
     bindE (get_parent_index e) (\<lambda>i.
     bindE (arr_set (pp_dataComplete p) (to_index i) True) (\<lambda>bs.
     bindE (arr_get (cl_dataChunks (pp_cacheline p)) (to_index i)) (\<lambda>c.
     bindE (set_data d (set_chunk_type CT_DATA c)) (\<lambda>c'.
     bindE (arr_set (cl_dataChunks (pp_cacheline p)) (to_index i) (set_time_of_gen curTick c')) (\<lambda>cs.
     Inr (p\<lparr>pp_dataComplete := bs, pp_cacheline := (pp_cacheline p)\<lparr>cl_dataChunks := cs\<rparr>\<rparr>))))))"

definition satisfy_addr :: "Tick \<Rightarrow> DataChunk list \<Rightarrow> nat \<Rightarrow> nat \<Rightarrow> PendingTableEntryParent \<Rightarrow> PendingTableEntryParent res" where
  "satisfy_addr curTick src sz off p =
     bindE (panic_if_not (off + 1 < sz) ''dataFieldOffset'') (\<lambda>_.
     bindE (arr_get src off) (\<lambda>addrFromWriteHigh.
     bindE (arr_get src (off + 1)) (\<lambda>addrFromWriteLow.
     let addrFromWrite = cacheline_align (push_bit 32 (ucast addrFromWriteLow) + ucast addrFromWriteHigh) in
     bindE (set_target_addr addrFromWrite (set_chunk_type CT_ADDR (pp_addr p))) (\<lambda>c.
     Inr (p\<lparr>pp_addrComplete := True, pp_addr := set_time_of_gen curTick c\<rparr>)))))"

text \<open>
  The body of the loop over the waiting entries.  \<open>iter\<close> is incremented only when the entry is
  satisfied.
\<close>

definition update_step :: "Tick \<Rightarrow> PC_t \<Rightarrow> DataChunk list \<Rightarrow> nat \<Rightarrow> PendTableChunkInfo \<Rightarrow> UpdState \<Rightarrow> UpdState res" where
  "update_step curTick pc src sz e s =
     bindE (get_generating_pc (pe_chunk e)) (\<lambda>g.
     bindE (panic_if_not (g \<noteq> 0) ''generating pc'') (\<lambda>_.
     bindE (get_data_field_offset (pe_chunk e)) (\<lambda>offw.
     let off = unat offw in
     if \<not> off < sz then Inr s
     else
       bindE (deref (us_heap s) (pe_parent e)) (\<lambda>(a, p).
       bindE (all_invalid (pp_cacheline p)) (\<lambda>inv.
       bindE (panic_if inv ''All cachelines of the parent for this entry are invalid'') (\<lambda>_.
       bindE (is_valid (pe_chunk e)) (\<lambda>v.
       bindE (panic_if_not v ''waitingEntry.is_valid'') (\<lambda>_.
       bindE (arr_get src off) (\<lambda>d.
       bindE (if ci_chunkType (pe_chunk e) = CT_DATA then
                bindE (satisfy_data curTick e d p) (\<lambda>p'.
                bindE (count_decr_index pc (us_counts s)) (\<lambda>m. Inr (p', m)))
              else if ci_chunkType (pe_chunk e) = CT_ADDR then
                bindE (satisfy_addr curTick src sz off p) (\<lambda>p'.
                bindE (count_decr_at pc (us_counts s)) (\<lambda>m. Inr (p', m)))
              else Inl (Panic ''0'')) (\<lambda>(p', m).
       bindE (allComplete p') (\<lambda>n.
       Inr (s\<lparr>us_heap := (us_heap s)(a \<mapsto> p'), us_counts := m,
              us_completedParents := us_completedParents s @ (if n = 17 then [a] else []),
              us_completedEntries := us_completedEntries s @ [us_iter s],
              us_iter := us_iter s + 1\<rparr>)))))))))))) "

definition erase_nth :: "nat \<Rightarrow> 'a list \<Rightarrow> 'a list res" where
  "erase_nth i xs = (if i < length xs then Inr (take i xs @ drop (Suc i) xs) else Inl (Undefined ''erase''))"

definition update_entry_state ::
    "Tick \<Rightarrow> PC_t \<Rightarrow> DataChunk list \<Rightarrow> nat \<Rightarrow> parents \<times> PendingTable \<Rightarrow> (nat list \<times> parents \<times> PendingTable) res" where
  "update_entry_state curTick pc src sz = (\<lambda>(h, pt).
     bindE (panic_if (\<not> pt_has_pc_waiting pt pc) ''called on a non-existent pc'') (\<lambda>_.
     bindE (um_at (pt_pendingTable pt) pc) (\<lambda>waitingEntries.
     bindE (fold_res (update_step curTick pc src sz) waitingEntries
              \<lparr>us_heap = h, us_counts = pt_pendingVolatilePCs pt, us_completedParents = [],
               us_completedEntries = [], us_iter = 0\<rparr>) (\<lambda>s.
     bindE (fold_res (\<lambda>i (q, ds). bindE (erase_nth i q) (\<lambda>q'. Inr (q', ds_remove ds)))
              (rev (us_completedEntries s)) (waitingEntries, ds_get (pt_ds pt))) (\<lambda>(q, ds).
     Inr (us_completedParents s, us_heap s,
          pt\<lparr>pt_pendingTable := um_put pc q (pt_pendingTable pt),
             pt_pendingVolatilePCs := us_counts s, pt_ds := ds\<rparr>))))))"

section \<open>The invariant of the table\<close>

text \<open>
  The counter of a program counter is the length of its queue; queues exist exactly for the program
  counters in \<open>insertionOrder\<close>, which stays below the capacity.
\<close>

definition pt_inv :: "PendingTable \<Rightarrow> bool" where
  "pt_inv pt = (um_wf (pt_pendingTable pt) \<and> um_wf (pt_pendingVolatilePCs pt) \<and>
     distinct (pt_insertionOrder pt) \<and> length (pt_insertionOrder pt) < pt_MAX_SIZE pt \<and>
     dom (um_find (pt_pendingTable pt)) = set (pt_insertionOrder pt) \<and>
     (\<forall>pc. um_find (pt_pendingVolatilePCs pt) pc =
             map_option (\<lambda>q. of_nat (length q)) (um_find (pt_pendingTable pt) pc)))"

definition waiting :: "PendingTable \<Rightarrow> PC_t \<Rightarrow> PendTableChunkInfo list" where
  "waiting pt pc = (case um_find (pt_pendingTable pt) pc of None \<Rightarrow> [] | Some q \<Rightarrow> q)"

lemma mk_PendingTable_inv: "0 < n \<Longrightarrow> pt_inv (mk_PendingTable nm n env)"
  by (simp add: pt_inv_def mk_PendingTable_def dom_def)

lemma of_nat_pos_word: "0 < n \<Longrightarrow> n < 2 ^ 64 \<Longrightarrow> (0 :: 64 word) < of_nat n"
  by (simp add: word_less_nat_alt unat_of_nat)

lemma pt_has_pc_waiting_iff:
  assumes "pt_inv pt" and "length (waiting pt pc) < 2 ^ 64"
  shows "pt_has_pc_waiting pt pc \<longleftrightarrow> waiting pt pc \<noteq> []"
proof (cases "um_find (pt_pendingTable pt) pc")
  case None
  then show ?thesis using assms(1) by (simp add: pt_inv_def pt_has_pc_waiting_def waiting_def)
next
  case (Some q)
  then have "um_find (pt_pendingVolatilePCs pt) pc = Some (of_nat (length q))" "waiting pt pc = q"
    using assms(1) by (simp_all add: pt_inv_def waiting_def)
  then show ?thesis
    using assms(2) of_nat_pos_word [of "length q"] by (auto simp: pt_has_pc_waiting_def)
qed

subsection \<open>add\<close>

lemma pt_add_waiting_ok:
  assumes inv: "pt_inv pt" and pc: "get_generating_pc (pe_chunk e) = Inr pc" and "pe_hasParentIndex e"
    and room: "length (waiting pt pc) + 1 < 2 ^ 64"
  defines "order \<equiv> if pc \<in> set (pt_insertionOrder pt) then pt_insertionOrder pt else pt_insertionOrder pt @ [pc]"
  shows "\<exists>pt'. pt_add_waiting e pt = Inr pt' \<and> pt_inv pt' \<and> pt_MAX_SIZE pt' = pt_MAX_SIZE pt \<and>
    pt_insertionOrder pt' = (if length order = pt_MAX_SIZE pt then tl order else order) \<and>
    (\<forall>k. um_find (pt_pendingTable pt') k =
      (if length order = pt_MAX_SIZE pt \<and> k = hd order then None
       else if k = pc then Some (waiting pt pc @ [e]) else um_find (pt_pendingTable pt) k))"
proof -
  have wf: "um_wf (pt_pendingTable pt)" "um_wf (pt_pendingVolatilePCs pt)" "distinct (pt_insertionOrder pt)"
    "length (pt_insertionOrder pt) < pt_MAX_SIZE pt"
    and dom: "dom (um_find (pt_pendingTable pt)) = set (pt_insertionOrder pt)"
    and cnt: "\<And>k. um_find (pt_pendingVolatilePCs pt) k =
                map_option (\<lambda>q. of_nat (length q)) (um_find (pt_pendingTable pt) k)"
    using inv by (auto simp: pt_inv_def)
  let ?q = "waiting pt pc"
  define N :: "64 word" where "N = of_nat (length (?q @ [e]))"
  have n: "(case um_find (pt_pendingVolatilePCs pt) pc of None \<Rightarrow> 0 | Some n \<Rightarrow> n) + 1 = N"
    by (simp add: N_def cnt waiting_def split: option.splits)
  have pos: "0 < N" unfolding N_def using room by (intro of_nat_pos_word) auto
  define pt1 where "pt1 = pt\<lparr>pt_ds := ds_add (pt_ds pt),
      pt_pendingTable := um_put pc (?q @ [e]) (pt_pendingTable pt),
      pt_pendingVolatilePCs := um_put pc N (pt_pendingVolatilePCs pt),
      pt_insertionOrder := order\<rparr>"
  have ne: "order \<noteq> []" by (auto simp: order_def)
  have run: "pt_add_waiting e pt =
      (if length order = pt_MAX_SIZE pt
       then Inr (pt1\<lparr>pt_insertionOrder := tl order,
                     pt_pendingVolatilePCs := um_erase (hd order) (pt_pendingVolatilePCs pt1),
                     pt_pendingTable := um_erase (hd order) (pt_pendingTable pt1)\<rparr>)
       else Inr pt1)"
    using pc assms(3) pos unfolding pt_add_waiting_def
    by (simp add: n Let_def waiting_def [symmetric] order_def [symmetric] deque_front_def ne pt1_def)
  have ord: "distinct order" "set order = insert pc (set (pt_insertionOrder pt))" "length order \<le> pt_MAX_SIZE pt"
    using wf by (auto simp: order_def)
  have find1: "um_find (pt_pendingTable pt1) k =
      (if k = pc then Some (?q @ [e]) else um_find (pt_pendingTable pt) k)"
    and cnt1: "um_find (pt_pendingVolatilePCs pt1) k =
      map_option (\<lambda>q. of_nat (length q)) (um_find (pt_pendingTable pt1) k)" for k
    by (simp_all add: pt1_def um_find_put cnt N_def)
  have dom1: "dom (um_find (pt_pendingTable pt1)) = set order"
    using dom ord(2) by (simp add: pt1_def um.dom_put)
  have wf1: "um_wf (pt_pendingTable pt1)" "um_wf (pt_pendingVolatilePCs pt1)"
    using wf by (simp_all add: pt1_def um_wf_intros)
  show ?thesis
  proof (cases "length order = pt_MAX_SIZE pt")
    case True
    have "set (tl order) = set order - {hd order}" "distinct (tl order)"
      using ord(1) ne by (cases order; auto)+
    moreover have "length (tl order) < pt_MAX_SIZE pt" using True ne by (cases order) auto
    ultimately show ?thesis
      using True run dom1 wf1 cnt1 find1
      by (simp add: pt_inv_def um.dom_erase um_wf_intros um_find_erase) (simp add: pt1_def)
  next
    case False
    then show ?thesis
      using run dom1 wf1 cnt1 find1 ord
      by (simp add: pt_inv_def) (simp add: pt1_def)
  qed
qed

section \<open>Parents: completeness\<close>

definition parent_ok :: "PendingTableEntryParent \<Rightarrow> bool" where
  "parent_ok p = (length (cl_dataChunks (pp_cacheline p)) = 16 \<and> length (pp_dataComplete p) = 16 \<and>
     list_all (\<lambda>c. ci_chunkType c \<noteq> CT_MAX) (cl_dataChunks (pp_cacheline p)))"

definition parent_live :: "PendingTableEntryParent \<Rightarrow> bool" where
  "parent_live p = (parent_ok p \<and> list_ex (\<lambda>c. ci_chunkType c \<noteq> CT_INVALID) (cl_dataChunks (pp_cacheline p)))"

text \<open>Address known, and every valid chunk known.\<close>

definition parent_done :: "PendingTableEntryParent \<Rightarrow> bool" where
  "parent_done p = (pp_addrComplete p \<and>
     (\<forall>i<16. ci_chunkType (cl_dataChunks (pp_cacheline p) ! i) \<noteq> CT_INVALID \<longrightarrow> pp_dataComplete p ! i))"

lemma complete_count_ok: "length cs = length bs \<Longrightarrow> list_all (\<lambda>c. ci_chunkType c \<noteq> CT_MAX) cs \<Longrightarrow>
    complete_count cs bs = Inr (length (filter (\<lambda>(c, b). ci_chunkType c = CT_INVALID \<or> b) (zip cs bs)))"
  by (induction cs bs rule: list_induct2) (auto simp: is_valid_def)

lemma length_filter_all: "length (filter P xs) = length xs \<longleftrightarrow> (\<forall>x \<in> set xs. P x)"
proof
  assume "length (filter P xs) = length xs"
  then show "\<forall>x \<in> set xs. P x" using length_filter_less [of _ xs P] by fastforce
qed (simp add: filter_True)

lemma allComplete_17:
  assumes "parent_ok p"
  shows "\<exists>n. allComplete p = Inr n \<and> (n = 17 \<longleftrightarrow> parent_done p)"
proof -
  let ?cs = "cl_dataChunks (pp_cacheline p)" and ?bs = "pp_dataComplete p"
  let ?P = "\<lambda>(c, b). ci_chunkType c = CT_INVALID \<or> b"
  let ?z = "zip ?cs ?bs"
  have len: "length ?cs = 16" "length ?bs = 16" using assms by (auto simp: parent_ok_def)
  have val: "allComplete p = Inr (of_bool (pp_addrComplete p) + length (filter ?P ?z))"
    using assms complete_count_ok [of ?cs ?bs] by (simp add: allComplete_def parent_ok_def)
  have le: "length (filter ?P ?z) \<le> 16" using length_filter_le [of ?P ?z] len by simp
  have "length (filter ?P ?z) = 16 \<longleftrightarrow> (\<forall>x \<in> set ?z. ?P x)"
    using len length_filter_all [of ?P ?z] by simp
  also have "\<dots> \<longleftrightarrow> (\<forall>i<16. ?P (?z ! i))" using len by (simp add: all_set_conv_all_nth)
  also have "\<dots> \<longleftrightarrow> (\<forall>i<16. ci_chunkType (?cs ! i) \<noteq> CT_INVALID \<longrightarrow> ?bs ! i)" using len by auto
  finally have "of_bool (pp_addrComplete p) + length (filter ?P ?z) = 17 \<longleftrightarrow> parent_done p"
    using le by (auto simp: parent_done_def)
  with val show ?thesis by simp
qed

lemma all_invalid_live:
  assumes "parent_live p"
  shows "all_invalid (pp_cacheline p) = Inr False"
proof -
  have "fold_res (\<lambda>c r. bindE (is_valid c) (\<lambda>v. Inr (if v then False else r))) cs r =
      Inr (r \<and> list_all (\<lambda>c. ci_chunkType c = CT_INVALID) cs)"
    if "list_all (\<lambda>c. ci_chunkType c \<noteq> CT_MAX) cs" for cs r
    using that by (induction cs arbitrary: r) (auto simp: is_valid_def)
  then show ?thesis
    using assms by (auto simp: all_invalid_def parent_live_def parent_ok_def list_ex_iff list_all_iff)
qed

section \<open>One waiting entry\<close>

definition reached :: "nat \<Rightarrow> PendTableChunkInfo \<Rightarrow> bool" where
  "reached sz e = (unat (ci_dataFieldOffset (pe_chunk e)) < sz)"

definition live_at :: "parents \<Rightarrow> nat \<Rightarrow> bool" where
  "live_at h a = (\<exists>p. h a = Some p \<and> parent_live p)"

definition done_at :: "parents \<Rightarrow> nat \<Rightarrow> bool" where
  "done_at h a = (\<exists>p. h a = Some p \<and> parent_done p)"

text \<open>
  What the frontend guarantees of an entry it inserts: it names a program counter and an offset;
  once reached, its parent exists and has a valid chunk, a data entry has an index in its parent,
  and an address entry is followed by the second half of the address.
\<close>

definition entry_ok :: "parents \<Rightarrow> nat \<Rightarrow> PendTableChunkInfo \<Rightarrow> bool" where
  "entry_ok h sz e = (has_generating_pc (pe_chunk e) \<and> ci_generatingPC (pe_chunk e) \<noteq> 0 \<and>
     has_data_field_offset (pe_chunk e) \<and>
     (reached sz e \<longrightarrow> (\<exists>a. pe_parent e = Some a \<and> live_at h a) \<and>
        (ci_chunkType (pe_chunk e) = CT_DATA \<and> pe_hasParentIndex e \<and> 0 \<le> pe_parentIndex e \<and> pe_parentIndex e < 16 \<or>
         ci_chunkType (pe_chunk e) = CT_ADDR \<and> unat (ci_dataFieldOffset (pe_chunk e)) + 1 < sz)))"

lemma to_index_small: "0 \<le> i \<Longrightarrow> i < 16 \<Longrightarrow> to_index i = nat i"
  by (simp add: to_index_def unat_eq_nat_uint uint_word_of_int)

lemma satisfy_data_ok:
  assumes "parent_live p" and "pe_hasParentIndex e" and i: "0 \<le> pe_parentIndex e" "pe_parentIndex e < 16"
  shows "\<exists>p'. satisfy_data t e d p = Inr p' \<and> parent_live p' \<and> (parent_done p \<longrightarrow> parent_done p') \<and>
    pp_dataComplete p' ! nat (pe_parentIndex e) \<and>
    get_data (cl_dataChunks (pp_cacheline p') ! nat (pe_parentIndex e)) = Inr d"
proof -
  let ?i = "nat (pe_parentIndex e)" and ?cs = "cl_dataChunks (pp_cacheline p)"
  have len: "length ?cs = 16" "length (pp_dataComplete p) = 16" and lt: "?i < 16"
    and max: "list_all (\<lambda>c. ci_chunkType c \<noteq> CT_MAX) ?cs"
    using assms by (auto simp: parent_live_def parent_ok_def)
  obtain c where c: "set_data d (set_chunk_type CT_DATA (?cs ! ?i)) = Inr c" "chunk_ok c" "holds c d"
    using set_type_data_ok by blast
  let ?c = "set_time_of_gen t c"
  have c': "ci_chunkType ?c = CT_DATA" "get_data ?c = Inr d"
    using c by (auto simp: set_time_of_gen_def get_data_iff is_flag_set_set chunk_ok_def chunk_data_def)
  let ?p = "p\<lparr>pp_dataComplete := (pp_dataComplete p)[?i := True],
              pp_cacheline := (pp_cacheline p)\<lparr>cl_dataChunks := ?cs[?i := ?c]\<rparr>\<rparr>"
  have "satisfy_data t e d p = Inr ?p"
    using assms(2) i len lt c(1) by (simp add: satisfy_data_def get_parent_index_def to_index_small)
  moreover have "parent_ok ?p"
    using len max c'(1) set_update_subset_insert [of ?cs ?i ?c] by (auto simp: parent_ok_def list_all_iff)
  moreover have "?c \<in> set (?cs[?i := ?c])" using len lt by (simp add: set_update_memI)
  then have "list_ex (\<lambda>c. ci_chunkType c \<noteq> CT_INVALID) (?cs[?i := ?c])"
    using c'(1) by (auto simp: list_ex_iff intro!: bexI [of _ ?c])
  moreover have "parent_done p \<longrightarrow> parent_done ?p"
    using len lt by (auto simp: parent_done_def nth_list_update)
  ultimately show ?thesis using c'(2) len lt by (simp add: parent_live_def)
qed

lemma satisfy_addr_ok:
  assumes "parent_live p" and "off + 1 < sz" and "sz \<le> length src"
  shows "\<exists>p'. satisfy_addr t src sz off p = Inr p' \<and> parent_live p' \<and> (parent_done p \<longrightarrow> parent_done p') \<and>
    pp_addrComplete p' \<and>
    get_target_addr (pp_addr p') = Inr (cacheline_align (push_bit 32 (ucast (src ! (off + 1))) + ucast (src ! off)))"
  using assms
  by (auto simp: satisfy_addr_def set_target_addr_def set_chunk_type_def parent_live_def parent_ok_def
      parent_done_def get_target_addr_def set_time_of_gen_def Let_def)

lemma count_decr_ok:
  assumes "um_find m pc = Some n" and "n \<noteq> 0" and "um_wf m"
  shows "\<exists>m'. count_decr_index pc m = Inr m' \<and> um_wf m' \<and> um_find m' = (um_find m)(pc \<mapsto> n - 1)"
    and "\<exists>m'. count_decr_at pc m = Inr m' \<and> um_wf m' \<and> um_find m' = (um_find m)(pc \<mapsto> n - 1)"
proof -
  have "n - 1 \<noteq> - 1" using assms(2) by simp
  then show "\<exists>m'. count_decr_index pc m = Inr m' \<and> um_wf m' \<and> um_find m' = (um_find m)(pc \<mapsto> n - 1)"
    using assms(1,3)
    by (cases "n - 1 = 0") (auto simp: count_decr_index_def Let_def um_simps um_wf_intros fun_eq_iff)
  show "\<exists>m'. count_decr_at pc m = Inr m' \<and> um_wf m' \<and> um_find m' = (um_find m)(pc \<mapsto> n - 1)"
    using assms by (auto simp: count_decr_at_def um_wf_intros um.find_put)
qed

lemma update_step_skip:
  assumes "entry_ok (us_heap s) sz e" and "\<not> reached sz e"
  shows "update_step t pc src sz e s = Inr s"
  using assms
  by (simp add: update_step_def entry_ok_def reached_def get_generating_pc_def get_data_field_offset_def
      has_data_field_offset_def Let_def)

lemma update_step_hit:
  assumes ok: "entry_ok (us_heap s) sz e" and r: "reached sz e" and sz: "sz \<le> length src"
    and n: "um_find (us_counts s) pc = Some n" "n \<noteq> 0" "um_wf (us_counts s)"
  shows "\<exists>a p p' m. pe_parent e = Some a \<and> us_heap s a = Some p \<and> parent_live p' \<and>
    (parent_done p \<longrightarrow> parent_done p') \<and> um_wf m \<and> um_find m = (um_find (us_counts s))(pc \<mapsto> n - 1) \<and>
    update_step t pc src sz e s = Inr (s\<lparr>us_heap := (us_heap s)(a \<mapsto> p'), us_counts := m,
      us_completedParents := us_completedParents s @ (if parent_done p' then [a] else []),
      us_completedEntries := us_completedEntries s @ [us_iter s], us_iter := us_iter s + 1\<rparr>)"
proof -
  let ?off = "unat (ci_dataFieldOffset (pe_chunk e))"
  from ok r obtain a p where a: "pe_parent e = Some a" "us_heap s a = Some p" "parent_live p"
    and kind: "ci_chunkType (pe_chunk e) = CT_DATA \<and> pe_hasParentIndex e \<and> 0 \<le> pe_parentIndex e \<and> pe_parentIndex e < 16 \<or>
       ci_chunkType (pe_chunk e) = CT_ADDR \<and> ?off + 1 < sz"
    by (auto simp: entry_ok_def live_at_def)
  have off: "?off < sz" "?off < length src" using r sz by (auto simp: reached_def)
  obtain p' m where p': "parent_live p'" "parent_done p \<longrightarrow> parent_done p'"
    and m: "um_wf m" "um_find m = (um_find (us_counts s))(pc \<mapsto> n - 1)"
    and branch: "(if ci_chunkType (pe_chunk e) = CT_DATA then
          bindE (satisfy_data t e (src ! ?off) p) (\<lambda>p'. bindE (count_decr_index pc (us_counts s)) (\<lambda>m. Inr (p', m)))
        else if ci_chunkType (pe_chunk e) = CT_ADDR then
          bindE (satisfy_addr t src sz ?off p) (\<lambda>p'. bindE (count_decr_at pc (us_counts s)) (\<lambda>m. Inr (p', m)))
        else Inl (Panic ''0'')) = Inr (p', m)"
    using kind
  proof (elim disjE conjE)
    assume "ci_chunkType (pe_chunk e) = CT_DATA" "pe_hasParentIndex e" "0 \<le> pe_parentIndex e" "pe_parentIndex e < 16"
    with satisfy_data_ok [OF a(3), of e t "src ! ?off"] count_decr_ok(1) [OF n] that
    show ?thesis by force
  next
    assume "ci_chunkType (pe_chunk e) = CT_ADDR" "?off + 1 < sz"
    with satisfy_addr_ok [OF a(3) _ sz, of ?off t] count_decr_ok(2) [OF n] that
    show ?thesis by force
  qed
  have "parent_ok p'" using p'(1) by (simp add: parent_live_def)
  then obtain k where k: "allComplete p' = Inr k" "k = 17 \<longleftrightarrow> parent_done p'" using allComplete_17 by blast
  have "is_valid (pe_chunk e) = Inr True" using kind by (auto simp: is_valid_def)
  then have "update_step t pc src sz e s = Inr (s\<lparr>us_heap := (us_heap s)(a \<mapsto> p'), us_counts := m,
      us_completedParents := us_completedParents s @ (if parent_done p' then [a] else []),
      us_completedEntries := us_completedEntries s @ [us_iter s], us_iter := us_iter s + 1\<rparr>)"
    using ok a off k branch all_invalid_live [OF a(3)]
    by (simp add: update_step_def entry_ok_def get_generating_pc_def get_data_field_offset_def
        has_data_field_offset_def Let_def deref_def)
  with a p' m show ?thesis by blast
qed

section \<open>The loop over the waiting entries\<close>

definition touched :: "nat \<Rightarrow> PendTableChunkInfo list \<Rightarrow> nat set" where
  "touched sz es = {a. \<exists>e \<in> set es. reached sz e \<and> pe_parent e = Some a}"

lemma touched_simps [simp]: "touched sz [] = {}"
  "touched sz (e # es) = (if reached sz e then set_option (pe_parent e) else {}) \<union> touched sz es"
  by (auto simp: touched_def)

lemma entry_ok_mono: "entry_ok h sz e \<Longrightarrow> (\<And>a. live_at h a \<Longrightarrow> live_at h' a) \<Longrightarrow> entry_ok h' sz e"
  by (auto simp: entry_ok_def)

text \<open>
  What a finished loop has established, from state \<open>s\<close> to \<open>s'\<close>, for \<open>k\<close> entries satisfied out of
  a queue counted \<open>m\<close>.
\<close>

definition loop_post :: "PC_t \<Rightarrow> nat \<Rightarrow> PendTableChunkInfo list \<Rightarrow> nat \<Rightarrow> UpdState \<Rightarrow> UpdState \<Rightarrow> bool" where
  "loop_post pc sz es m s s' = (let k = length (filter (reached sz) es) in
     us_iter s' = us_iter s + k \<and>
     us_completedEntries s' = us_completedEntries s @ [us_iter s..<us_iter s + k] \<and>
     um_wf (us_counts s') \<and> um_find (us_counts s') = (um_find (us_counts s))(pc \<mapsto> of_nat (m - k)) \<and>
     (\<forall>a. live_at (us_heap s) a \<longrightarrow> live_at (us_heap s') a) \<and>
     (\<forall>a. done_at (us_heap s) a \<longrightarrow> done_at (us_heap s') a) \<and>
     (\<forall>a. a \<notin> touched sz es \<longrightarrow> us_heap s' a = us_heap s a) \<and>
     set (us_completedParents s') = set (us_completedParents s) \<union> {a \<in> touched sz es. done_at (us_heap s') a})"

lemma loop_post_Cons:
  assumes r: "reached sz e" "pe_parent e = Some a" and post: "loop_post pc sz es (m - 1) u s'"
    and "us_iter u = us_iter s + 1" and "us_completedEntries u = us_completedEntries s @ [us_iter s]"
    and "um_find (us_counts u) = (um_find (us_counts s))(pc \<mapsto> x)"
    and heap: "\<And>b. b \<noteq> a \<Longrightarrow> us_heap u b = us_heap s b"
    and "\<And>b. live_at (us_heap s) b \<Longrightarrow> live_at (us_heap u) b"
    and "\<And>b. done_at (us_heap s) b \<Longrightarrow> done_at (us_heap u) b"
    and cp: "set (us_completedParents u) = set (us_completedParents s) \<union> {b. b = a \<and> done_at (us_heap u) a}"
  shows "loop_post pc sz (e # es) m s s'"
proof -
  let ?k = "length (filter (reached sz) es)"
  have frame: "\<And>b. b \<notin> touched sz es \<Longrightarrow> us_heap s' b = us_heap u b"
    and dn: "\<And>b. done_at (us_heap u) b \<Longrightarrow> done_at (us_heap s') b"
    and cp': "set (us_completedParents s') = set (us_completedParents u) \<union> {b \<in> touched sz es. done_at (us_heap s') b}"
    using post by (auto simp: loop_post_def Let_def)
  have "a \<notin> touched sz es \<Longrightarrow> done_at (us_heap s') a = done_at (us_heap u) a"
    using frame by (simp add: done_at_def)
  then have "set (us_completedParents s') =
      set (us_completedParents s) \<union> {b \<in> touched sz (e # es). done_at (us_heap s') b}"
    using cp cp' r dn by auto
  moreover have "us_heap s' b = us_heap s b" if "b \<notin> touched sz (e # es)" for b
    using that r frame heap by auto
  moreover have "[us_iter s..<us_iter s + Suc ?k] = us_iter s # [us_iter s + 1..<us_iter s + 1 + ?k]"
    by (simp add: upt_conv_Cons del: upt_Suc)
  ultimately show ?thesis
    using post assms(4-9) r(1) by (auto simp: loop_post_def Let_def)
qed

lemma update_loop:
  assumes "sz \<le> length src" and "\<forall>e \<in> set es. entry_ok (us_heap s) sz e"
    and "um_find (us_counts s) pc = Some (of_nat m)" and "length (filter (reached sz) es) \<le> m" and "m < 2 ^ 64"
    and "um_wf (us_counts s)"
  shows "\<exists>s'. fold_res (update_step t pc src sz) es s = Inr s' \<and> loop_post pc sz es m s s'"
  using assms(2-)
proof (induction es arbitrary: s m)
  case Nil
  then show ?case by (auto simp: loop_post_def fun_upd_idem)
next
  case (Cons e es)
  show ?case
  proof (cases "reached sz e")
    case False
    have "update_step t pc src sz e s = Inr s"
      using Cons.prems(1) False by (intro update_step_skip) auto
    moreover have "loop_post pc sz (e # es) m s s' = loop_post pc sz es m s s'" for s'
      using False by (simp add: loop_post_def)
    ultimately show ?thesis using Cons.IH [of s m] Cons.prems False by simp
  next
    case True
    have m: "0 < m" "length (filter (reached sz) es) \<le> m - 1" using Cons.prems(3) True by auto
    have "(of_nat m :: 64 word) \<noteq> 0" using of_nat_pos_word [OF m(1) Cons.prems(4)] by auto
    with update_step_hit [OF _ True assms(1) Cons.prems(2) _ Cons.prems(5), of t] Cons.prems(1)
    obtain a p p' c where step: "pe_parent e = Some a" "us_heap s a = Some p" "parent_live p'"
        "parent_done p \<longrightarrow> parent_done p'" "um_wf c" "um_find c = (um_find (us_counts s))(pc \<mapsto> of_nat m - 1)"
        "update_step t pc src sz e s = Inr (s\<lparr>us_heap := (us_heap s)(a \<mapsto> p'), us_counts := c,
          us_completedParents := us_completedParents s @ (if parent_done p' then [a] else []),
          us_completedEntries := us_completedEntries s @ [us_iter s], us_iter := us_iter s + 1\<rparr>)"
      by auto
    define u where "u = s\<lparr>us_heap := (us_heap s)(a \<mapsto> p'), us_counts := c,
          us_completedParents := us_completedParents s @ (if parent_done p' then [a] else []),
          us_completedEntries := us_completedEntries s @ [us_iter s], us_iter := us_iter s + 1\<rparr>"
    have live: "live_at (us_heap s) b \<Longrightarrow> live_at (us_heap u) b" for b
      using step(3) by (auto simp: u_def live_at_def)
    have dn: "done_at (us_heap s) b \<Longrightarrow> done_at (us_heap u) b" for b
      using step(2,4) by (auto simp: u_def done_at_def)
    have oks: "\<forall>e \<in> set es. entry_ok (us_heap u) sz e"
      using Cons.prems(1) live by (auto intro: entry_ok_mono)
    have cu: "um_find (us_counts u) pc = Some (of_nat (m - 1))" "um_wf (us_counts u)" "m - 1 < 2 ^ 64"
      using step(5,6) m(1) Cons.prems(4) by (simp_all add: u_def of_nat_diff)
    obtain s' where s': "fold_res (update_step t pc src sz) es u = Inr s'" "loop_post pc sz es (m - 1) u s'"
      using Cons.IH [OF oks cu(1) m(2) cu(3,2)] by blast
    have "loop_post pc sz (e # es) m s s'"
      by (rule loop_post_Cons [OF True step(1) s'(2)])
         (use step(3,6) live dn in \<open>auto simp: u_def done_at_def\<close>)
    with s'(1) step(7) show ?thesis by (auto simp: u_def)
  qed
qed

section \<open>The whole update\<close>

lemma erase_prefix: "k \<le> length q \<Longrightarrow>
    fold_res (\<lambda>i (q, ds). bindE (erase_nth i q) (\<lambda>q'. Inr (q', ds_remove ds))) (rev [0..<k]) (q, ds)
    = Inr (drop k q, (ds_remove ^^ k) ds)"
proof (induction k arbitrary: q ds)
  case 0
  then show ?case by simp
next
  case (Suc k)
  let ?q = "take k q @ drop (Suc k) q"
  have "k \<le> length ?q" "drop k ?q = drop (Suc k) q" using Suc.prems by auto
  with Suc.IH [of ?q "ds_remove ds"] Suc.prems show ?case
    by (simp add: erase_nth_def funpow_swap1)
qed

lemma pt_inv_update:
  assumes inv: "pt_inv pt" and q: "um_find (pt_pendingTable pt) pc = Some q" and k: "k \<le> length q"
    and c: "um_wf c" "um_find c = (um_find (pt_pendingVolatilePCs pt))(pc \<mapsto> of_nat (length q - k))"
  shows "pt_inv (pt\<lparr>pt_pendingTable := um_put pc (drop k q) (pt_pendingTable pt), pt_pendingVolatilePCs := c, pt_ds := d\<rparr>)"
proof -
  have "pc \<in> dom (um_find (pt_pendingTable pt))" using q by auto
  then show ?thesis
    using inv c by (auto simp: pt_inv_def um_wf_intros um_find_put um.dom_put)
qed

lemma update_entry_state_run:
  assumes inv: "pt_inv pt" and q: "um_find (pt_pendingTable pt) pc = Some q" "q \<noteq> []" "length q < 2 ^ 64"
    and sz: "sz \<le> length src" and ok: "\<forall>e \<in> set q. entry_ok h sz e"
  defines "k \<equiv> length (filter (reached sz) q)"
  shows "\<exists>cps h' pt'. update_entry_state t pc src sz (h, pt) = Inr (cps, h', pt') \<and> pt_inv pt' \<and>
    (\<forall>x. um_find (pt_pendingTable pt') x = (if x = pc then Some (drop k q) else um_find (pt_pendingTable pt) x)) \<and>
    set cps = {a \<in> touched sz q. done_at h' a} \<and> (\<forall>a. a \<notin> touched sz q \<longrightarrow> h' a = h a) \<and>
    (\<forall>a. done_at h a \<longrightarrow> done_at h' a) \<and> (\<forall>a. live_at h a \<longrightarrow> live_at h' a)"
proof -
  let ?s0 = "\<lparr>us_heap = h, us_counts = pt_pendingVolatilePCs pt, us_completedParents = [],
      us_completedEntries = [], us_iter = 0\<rparr>"
  have cnt: "um_find (pt_pendingVolatilePCs pt) pc = Some (of_nat (length q))" "um_wf (pt_pendingVolatilePCs pt)"
    using inv q by (auto simp: pt_inv_def)
  have kq: "k \<le> length q" by (simp add: k_def)
  have wait: "pt_has_pc_waiting pt pc"
    using cnt(1) of_nat_pos_word [of "length q"] q by (simp add: pt_has_pc_waiting_def)
  obtain s where s: "fold_res (update_step t pc src sz) q ?s0 = Inr s" "loop_post pc sz q (length q) ?s0 s"
    using update_loop [OF sz, of q ?s0 pc "length q" t] ok cnt q(3) by auto
  then have s': "us_completedEntries s = [0..<k]" "um_wf (us_counts s)"
      "um_find (us_counts s) = (um_find (pt_pendingVolatilePCs pt))(pc \<mapsto> of_nat (length q - k))"
    by (auto simp: loop_post_def k_def Let_def)
  let ?pt = "pt\<lparr>pt_pendingTable := um_put pc (drop k q) (pt_pendingTable pt),
      pt_pendingVolatilePCs := us_counts s, pt_ds := (ds_remove ^^ k) (ds_get (pt_ds pt))\<rparr>"
  have "update_entry_state t pc src sz (h, pt) = Inr (us_completedParents s, us_heap s, ?pt)"
    using wait q(1) s(1) erase_prefix [OF kq] by (simp add: update_entry_state_def s'(1))
  moreover have "pt_inv ?pt" by (rule pt_inv_update [OF inv q(1) kq s'(2,3)])
  ultimately show ?thesis using s(2) by (auto simp: um_find_put loop_post_def Let_def)
qed

text \<open>Any update that returns keeps the invariant of the table, whatever the entries are.\<close>

lemma update_step_Inr:
  assumes "update_step t pc src sz e s = Inr s'"
  shows "s' = s \<and> \<not> reached sz e \<or>
    reached sz e \<and> us_iter s' = us_iter s + 1 \<and> us_completedEntries s' = us_completedEntries s @ [us_iter s] \<and>
    (count_decr_index pc (us_counts s) = Inr (us_counts s') \<or> count_decr_at pc (us_counts s) = Inr (us_counts s'))"
  using assms
  by (auto simp: update_step_def bindE_eq_Inr Let_def reached_def get_data_field_offset_def split: if_splits)

lemma update_loop_Inr:
  assumes "fold_res (update_step t pc src sz) es s = Inr s'"
    and "um_find (us_counts s) pc = Some (of_nat m)" and "length (filter (reached sz) es) \<le> m" and "m < 2 ^ 64"
    and "um_wf (us_counts s)"
  shows "let k = length (filter (reached sz) es) in
     us_completedEntries s' = us_completedEntries s @ [us_iter s..<us_iter s + k] \<and>
     um_wf (us_counts s') \<and> um_find (us_counts s') = (um_find (us_counts s))(pc \<mapsto> of_nat (m - k))"
  using assms
proof (induction es arbitrary: s m)
  case Nil
  then show ?case by (auto simp: fun_upd_idem)
next
  case (Cons e es)
  from Cons.prems(1) obtain u where u: "update_step t pc src sz e s = Inr u" "fold_res (update_step t pc src sz) es u = Inr s'"
    by (auto simp: bindE_eq_Inr)
  show ?case
  proof (cases "reached sz e")
    case False
    with update_step_Inr [OF u(1)] have "u = s" by auto
    then show ?thesis using Cons.IH [OF u(2), of m] Cons.prems False by simp
  next
    case True
    have m: "0 < m" "length (filter (reached sz) es) \<le> m - 1" using Cons.prems(3) True by auto
    have "(of_nat m :: 64 word) \<noteq> 0" using of_nat_pos_word [OF m(1) Cons.prems(4)] by auto
    with update_step_Inr [OF u(1)] True count_decr_ok [OF Cons.prems(2) _ Cons.prems(5)]
    have it: "us_iter u = us_iter s + 1" "us_completedEntries u = us_completedEntries s @ [us_iter s]"
      and c: "um_wf (us_counts u)" "um_find (us_counts u) = (um_find (us_counts s))(pc \<mapsto> of_nat m - 1)"
      by auto
    have "um_find (us_counts u) pc = Some (of_nat (m - 1))" using c(2) m(1) by (simp add: of_nat_diff)
    moreover have "m - 1 < 2 ^ 64" using Cons.prems(4) by simp
    ultimately have "let k = length (filter (reached sz) es) in
        us_completedEntries s' = us_completedEntries u @ [us_iter u..<us_iter u + k] \<and>
        um_wf (us_counts s') \<and> um_find (us_counts s') = (um_find (us_counts u))(pc \<mapsto> of_nat (m - 1 - k))"
      using Cons.IH [OF u(2) _ m(2) _ c(1)] by blast
    moreover have "[us_iter s..<us_iter s + Suc k] = us_iter s # [us_iter s + 1..<us_iter s + 1 + k]" for k
      by (simp add: upt_conv_Cons del: upt_Suc)
    ultimately show ?thesis using True it c(2) by (simp add: Let_def)
  qed
qed

lemma update_entry_state_inv:
  assumes inv: "pt_inv pt" and run: "update_entry_state t pc src sz (h, pt) = Inr (cps, h', pt')"
    and len: "length (waiting pt pc) < 2 ^ 64"
  shows "pt_inv pt' \<and> waiting pt' pc = drop (length (filter (reached sz) (waiting pt pc))) (waiting pt pc)"
proof -
  let ?s0 = "\<lparr>us_heap = h, us_counts = pt_pendingVolatilePCs pt, us_completedParents = [],
      us_completedEntries = [], us_iter = 0\<rparr>"
  from run obtain q s where q: "um_find (pt_pendingTable pt) pc = Some q"
    and s: "fold_res (update_step t pc src sz) q ?s0 = Inr s"
    by (auto simp: update_entry_state_def bindE_eq_Inr um_at_eq_Inr)
  let ?k = "length (filter (reached sz) q)"
  have w: "waiting pt pc = q" using q by (simp add: waiting_def)
  have cnt: "um_find (pt_pendingVolatilePCs pt) pc = Some (of_nat (length q))" "um_wf (pt_pendingVolatilePCs pt)"
    using inv q by (auto simp: pt_inv_def)
  from update_loop_Inr [OF s, of "length q"] cnt len w have s': "us_completedEntries s = [0..<?k]" "um_wf (us_counts s)"
      "um_find (us_counts s) = (um_find (pt_pendingVolatilePCs pt))(pc \<mapsto> of_nat (length q - ?k))"
    by (auto simp: Let_def)
  have "pt' = pt\<lparr>pt_pendingTable := um_put pc (drop ?k q) (pt_pendingTable pt),
      pt_pendingVolatilePCs := us_counts s, pt_ds := (ds_remove ^^ ?k) (ds_get (pt_ds pt))\<rparr>"
    using run q s erase_prefix [of ?k q] by (auto simp: update_entry_state_def bindE_eq_Inr s'(1))
  with pt_inv_update [OF inv q _ s'(2,3)] w show ?thesis by (simp add: waiting_def um_find_put)
qed

section \<open>Properties\<close>

text \<open>C14: \<open>PendingTable::add\<close> of a prediction that waits for its generating store keeps the
  invariant of the table: every counter is the length of its queue, queues exist exactly for the
  program counters in the insertion order, and their number stays below the capacity.  The new entry is
  appended to the queue of its program counter; when that makes the table full, the program counter
  inserted first is evicted, and no other queue changes.\<close>

theorem pending_add_correct:
  assumes "pt_inv pt" and "get_generating_pc (pe_chunk e) = Inr pc" and "pe_hasParentIndex e"
    and "\<not> is_whb_search (pe_chunk e)" and "length (waiting pt pc) + 1 < 2 ^ 64"
  shows "\<exists>pt'. pt_add e w (h, pt) = Inr (h, pt') \<and> pt_inv pt' \<and>
    (let order = (if pc \<in> set (pt_insertionOrder pt) then pt_insertionOrder pt else pt_insertionOrder pt @ [pc]);
         full = (length order = pt_MAX_SIZE pt) in
     pt_insertionOrder pt' = (if full then tl order else order) \<and>
     (\<forall>k. um_find (pt_pendingTable pt') k =
        (if full \<and> k = hd order then None
         else if k = pc then Some (waiting pt pc @ [e]) else um_find (pt_pendingTable pt) k)))"
  using pt_add_waiting_ok [OF assms(1,2,3,5)] assms(4) by (auto simp: pt_add_def Let_def)

definition example_entry :: PendTableChunkInfo where
  "example_entry = mk_PendTableChunkInfo
     (set_generating_pc 0x400 (ChunkInfo_default\<lparr>ci_chunkType := CT_DATA, ci_flags := HAS_DATA_FIELD_OFF\<rparr>)) (Some 0) 0"

definition example_table :: PendingTable where
  "example_table = (mk_PendingTable ''pt'' 128 (\<lambda>_. None))\<lparr>pt_pendingTable := [(0x400, [example_entry])],
     pt_pendingVolatilePCs := [(0x400, 1)], pt_insertionOrder := [0x400]\<rparr>"

definition example_parents :: parents where
  "example_parents = [0 \<mapsto> (mk_Parent 1)\<lparr>pp_addrComplete := True,
     pp_cacheline := (CacheLine_default 1)\<lparr>cl_dataChunks := data_chunk 0 # replicate 15 ChunkInfo_default\<rparr>\<rparr>]"

lemma example_table_inv [simp]: "pt_inv example_table"
  by (auto simp: pt_inv_def example_table_def mk_PendingTable_def um_wf_def um_find_def dom_def)

lemma example_entry_ok: "entry_ok example_parents 2 example_entry" "reached 2 example_entry"
  by (auto simp: entry_ok_def reached_def example_entry_def mk_PendTableChunkInfo_def chunk_defs live_at_def
      example_parents_def parent_live_def parent_ok_def ChunkInfo_default_def is_flag_set_def set_flag_def
      mk_Parent_def list_all_iff CacheLine_default_def)

theorem pending_add_correct_witness:
  "pt_inv example_table \<and> get_generating_pc (pe_chunk example_entry) = Inr 0x400 \<and>
   pe_hasParentIndex example_entry \<and> \<not> is_whb_search (pe_chunk example_entry) \<and>
   length (waiting example_table 0x400) + 1 < 2 ^ 64 \<and>
   (\<exists>pt'. pt_add example_entry (mk_FixedSizeQueue ''w'' 1) (example_parents, example_table) = Inr (example_parents, pt') \<and>
      pt_inv pt' \<and> um_find (pt_pendingTable pt') 0x400 = Some [example_entry, example_entry])"
proof -
  have e: "get_generating_pc (pe_chunk example_entry) = Inr 0x400" "pe_hasParentIndex example_entry"
      "\<not> is_whb_search (pe_chunk example_entry)"
    by (simp_all add: example_entry_def mk_PendTableChunkInfo_def chunk_defs is_flag_set_def set_flag_def
        ChunkInfo_default_def)
  have w: "waiting example_table 0x400 = [example_entry]" "pt_MAX_SIZE example_table = 128"
      "pt_insertionOrder example_table = [0x400]"
    by (simp_all add: waiting_def example_table_def um_find_def mk_PendingTable_def)
  show ?thesis
    using pending_add_correct [OF example_table_inv e, of "mk_FixedSizeQueue ''w'' 1" example_parents] e w
    by auto
qed

text \<open>C13: \<open>update_entry_state\<close> for a program counter with well-formed waiting entries always
  returns.  Let \<open>k\<close> be the number of waiting entries whose offset the store reaches.  The invariant
  is kept; the first \<open>k\<close> entries of the queue are removed, no other queue changes; the parents
  returned are exactly those that a reached entry points to and whose address and valid chunks are
  all known afterwards; parents not reached keep their state.\<close>

theorem update_entry_state_correct:
  assumes "pt_inv pt" and "um_find (pt_pendingTable pt) pc = Some q" and "q \<noteq> []" and "length q < 2 ^ 64"
    and "sz \<le> length src" and "list_all (entry_ok h sz) q"
  shows "\<exists>cps h' pt'. update_entry_state t pc src sz (h, pt) = Inr (cps, h', pt') \<and> pt_inv pt' \<and>
    (\<forall>x. um_find (pt_pendingTable pt') x =
       (if x = pc then Some (drop (length (filter (reached sz) q)) q) else um_find (pt_pendingTable pt) x)) \<and>
    set cps = {a. (\<exists>e \<in> set q. reached sz e \<and> pe_parent e = Some a) \<and> done_at h' a} \<and>
    (\<forall>a. (\<forall>e \<in> set q. \<not> (reached sz e \<and> pe_parent e = Some a)) \<longrightarrow> h' a = h a)"
  using update_entry_state_run [OF assms(1-5), of h t] assms(6)
  by (auto simp: touched_def list_all_iff)

theorem update_entry_state_correct_witness:
  "pt_inv example_table \<and> um_find (pt_pendingTable example_table) 0x400 = Some [example_entry] \<and>
   [example_entry] \<noteq> [] \<and> length [example_entry] < 2 ^ 64 \<and> (2::nat) \<le> length [7, 8 :: DataChunk] \<and>
   list_all (entry_ok example_parents 2) [example_entry] \<and>
   (\<exists>cps h' pt'. update_entry_state 9 0x400 [7, 8] 2 (example_parents, example_table) = Inr (cps, h', pt') \<and>
      pt_inv pt' \<and> um_find (pt_pendingTable pt') 0x400 = Some [])"
proof -
  have q: "um_find (pt_pendingTable example_table) 0x400 = Some [example_entry]"
    by (simp add: example_table_def um_find_def)
  from update_entry_state_correct [OF example_table_inv q, of 2 "[7, 8]" example_parents 9] example_entry_ok
  obtain cps h' pt' where "update_entry_state 9 0x400 [7, 8] 2 (example_parents, example_table) = Inr (cps, h', pt')"
      "pt_inv pt'" "um_find (pt_pendingTable pt') 0x400 = Some []"
    by auto
  with q example_entry_ok show ?thesis by auto
qed

text \<open>C25: A store that reaches every entry waiting for its program counter leaves nothing waiting
  for it: the filter \<open>has_pc_waiting\<close> answers no afterwards.\<close>

theorem update_all_reached_clears_filter:
  assumes "pt_inv pt" and "length (waiting pt pc) < 2 ^ 64" and "list_all (reached sz) (waiting pt pc)"
    and "update_entry_state t pc src sz (h, pt) = Inr (cps, h', pt')"
  shows "waiting pt' pc = [] \<and> \<not> pt_has_pc_waiting pt' pc"
proof -
  from update_entry_state_inv [OF assms(1,4,2)] have "pt_inv pt'"
      "waiting pt' pc = drop (length (filter (reached sz) (waiting pt pc))) (waiting pt pc)" by auto
  moreover have "filter (reached sz) (waiting pt pc) = waiting pt pc"
    using assms(3) by (simp add: list_all_iff filter_True)
  ultimately show ?thesis using pt_has_pc_waiting_iff [of pt' pc] by simp
qed

theorem update_all_reached_clears_filter_witness:
  "\<exists>cps h' pt'. pt_inv example_table \<and> length (waiting example_table 0x400) < 2 ^ 64 \<and>
     list_all (reached 2) (waiting example_table 0x400) \<and>
     update_entry_state 9 0x400 [7, 8] 2 (example_parents, example_table) = Inr (cps, h', pt') \<and>
     \<not> pt_has_pc_waiting pt' 0x400"
proof -
  have q: "um_find (pt_pendingTable example_table) 0x400 = Some [example_entry]"
    by (simp add: example_table_def um_find_def)
  then have w: "waiting example_table 0x400 = [example_entry]" by (simp add: waiting_def)
  from update_entry_state_run [OF example_table_inv q, of 2 "[7, 8]" example_parents 9] example_entry_ok
  obtain cps h' pt' where run: "update_entry_state 9 0x400 [7, 8] 2 (example_parents, example_table) = Inr (cps, h', pt')"
    by auto
  from update_all_reached_clears_filter [OF example_table_inv _ _ run] w example_entry_ok run
  show ?thesis by (intro exI conjI) auto
qed

end
