(* ===== verification/Addr_Predictor.thy ===== *)
theory Addr_Predictor
  imports Queues
begin

text \<open>
  \<open>gem5/src/mem/predictor/AddrPredictor.hh\<close>: the predictor of the next persistent-write address
  from the last \<open>TRACKING_SIZE\<close> address differences.  Differences are 64-bit signed in the code and
  only compared for equality and added to addresses, so they are 64-bit words.
\<close>

abbreviation (input) TRACKING_SIZE :: nat where "TRACKING_SIZE \<equiv> 4"

record AddrPredictor =
  ap_lastSeenAddr :: Addr_t
  ap_addrDiff :: "64 word SimpleFixedSizeQueue"

definition mk_AddrPredictor :: AddrPredictor where
  "mk_AddrPredictor = \<lparr>ap_lastSeenAddr = 0, ap_addrDiff = mk_SimpleFixedSizeQueue TRACKING_SIZE\<rparr>"

definition set_last_seen_addr :: "Addr_t \<Rightarrow> AddrPredictor \<Rightarrow> AddrPredictor res" where
  "set_last_seen_addr addr p =
     bindE (sq_push_back (addr - ap_lastSeenAddr p) (ap_addrDiff p)) (\<lambda>q.
     Inr (p\<lparr>ap_addrDiff := q, ap_lastSeenAddr := addr\<rparr>))"

text \<open>\<open>addr_q_size\<close> returns the size converted to \<open>bool\<close>.\<close>

definition addr_q_size :: "AddrPredictor \<Rightarrow> bool res" where
  "addr_q_size p = bindE (sq_get_size (ap_addrDiff p)) (\<lambda>n. Inr (n \<noteq> 0))"

text \<open>The loop of \<open>can_pred_addr\<close> from index \<open>i\<close> with bound \<open>n\<close>.\<close>

function can_pred_loop :: "'a SimpleFixedSizeQueue \<Rightarrow> nat \<Rightarrow> nat \<Rightarrow> bool res" where
  "can_pred_loop q n i =
     (if i < n
      then bindE (sq_get q i) (\<lambda>a. bindE (sq_get q (i + 1)) (\<lambda>b.
             if a \<noteq> b then Inr False else can_pred_loop q n (i + 1)))
      else Inr True)"
  by pat_completeness auto
termination by (relation "measure (\<lambda>(q, n, i). n - i)") auto

declare can_pred_loop.simps [simp del]

text \<open>
  The bound \<open>get_size() - 1\<close> is unsigned and wraps on an empty queue.  In
  \<open>not this->addr_q_size() > 1\<close> the negation binds tighter: a truth value is compared with 1.
\<close>

definition can_pred_addr :: "AddrPredictor \<Rightarrow> bool res" where
  "can_pred_addr p =
     bindE (sq_get_size (ap_addrDiff p)) (\<lambda>n.
     bindE (can_pred_loop (ap_addrDiff p) (unat (of_nat n - 1 :: size_t)) 0) (\<lambda>result.
     bindE (addr_q_size p) (\<lambda>s.
     Inr (if (of_bool (\<not> s) :: int) > 1 then False else result))))"

definition predict_addr :: "AddrPredictor \<Rightarrow> Addr_t res" where
  "predict_addr p =
     bindE (can_pred_addr p) (\<lambda>b.
     if b then bindE (sq_back (ap_addrDiff p)) (\<lambda>d. Inr (ap_lastSeenAddr p + d))
     else Inr 0)"

section \<open>Lemmas\<close>

definition ap_inv :: "AddrPredictor \<Rightarrow> bool" where
  "ap_inv p = (sq_sz (ap_addrDiff p) = TRACKING_SIZE \<and> length (sq_queue (ap_addrDiff p)) \<le> TRACKING_SIZE)"

lemma ap_inv_queue: "ap_inv p \<Longrightarrow> sq_inv (ap_addrDiff p)"
  by (simp add: ap_inv_def sq_inv_def)

lemma mk_AddrPredictor_inv [simp]: "ap_inv mk_AddrPredictor"
  by (simp add: ap_inv_def mk_AddrPredictor_def mk_SimpleFixedSizeQueue_def)

lemma set_last_seen_addr_ok: "ap_inv p \<Longrightarrow> \<exists>p'. set_last_seen_addr a p = Inr p' \<and> ap_inv p' \<and>
    ap_lastSeenAddr p' = a \<and>
    sq_queue (ap_addrDiff p') = last_n TRACKING_SIZE (sq_queue (ap_addrDiff p) @ [a - ap_lastSeenAddr p])"
  using sqf.push_last_n [OF ap_inv_queue, of p "a - ap_lastSeenAddr p"] sqf.bounded
  by (fastforce simp: set_last_seen_addr_def ap_inv_def)

lemma can_pred_loop_iff:
  "n < length (sq_queue q) \<Longrightarrow>
     can_pred_loop q n i = Inr (\<forall>j. i \<le> j \<and> j < n \<longrightarrow> sq_queue q ! j = sq_queue q ! (j + 1))"
proof (induction q n i rule: can_pred_loop.induct)
  case (1 q n i)
  show ?case
  proof (cases "i < n")
    case False
    then show ?thesis by (subst can_pred_loop.simps) auto
  next
    case True
    let ?x = "sq_queue q"
    have unroll: "(\<forall>j. i \<le> j \<and> j < n \<longrightarrow> ?x ! j = ?x ! (j + 1)) \<longleftrightarrow>
        ?x ! i = ?x ! (i + 1) \<and> (\<forall>j. i + 1 \<le> j \<and> j < n \<longrightarrow> ?x ! j = ?x ! (j + 1))"
      using True by (auto simp: Suc_le_eq dest: le_imp_less_or_eq)
    have run: "can_pred_loop q n i = (if ?x ! i \<noteq> ?x ! (i + 1) then Inr False else can_pred_loop q n (i + 1))"
      using True 1(2) by (subst can_pred_loop.simps) (simp add: sq_get_def)
    show ?thesis
      unfolding unroll using 1(1) [OF True] 1(2) run True by (simp add: sq_get_def)
  qed
qed

lemma adjacent_eq_last:
  assumes "xs \<noteq> []"
  shows "(\<forall>j. 0 \<le> j \<and> j < length xs - 1 \<longrightarrow> xs ! j = xs ! (j + 1)) \<longleftrightarrow> (\<forall>d \<in> set xs. d = last xs)"
  using assms
proof (induction xs)
  case Nil
  then show ?case by simp
next
  case (Cons x xs)
  show ?case
  proof (cases xs)
    case Nil
    then show ?thesis by simp
  next
    case (Cons y ys)
    have "(\<forall>j. 0 \<le> j \<and> j < length (x # xs) - 1 \<longrightarrow> (x # xs) ! j = (x # xs) ! (j + 1)) \<longleftrightarrow>
        x = y \<and> (\<forall>j. 0 \<le> j \<and> j < length xs - 1 \<longrightarrow> xs ! j = xs ! (j + 1))"
      using Cons by (auto simp: nth_Cons split: nat.splits)
    then show ?thesis using Cons.IH Cons by auto
  qed
qed

lemma can_pred_addr_iff:
  assumes "ap_inv p" and "sq_queue (ap_addrDiff p) \<noteq> []"
  shows "can_pred_addr p = Inr (\<forall>d \<in> set (sq_queue (ap_addrDiff p)). d = last (sq_queue (ap_addrDiff p)))"
proof -
  let ?x = "sq_queue (ap_addrDiff p)"
  have len: "0 < length ?x" "length ?x \<le> 4" using assms by (auto simp: ap_inv_def)
  obtain m where m: "length ?x = Suc m" using len(1) gr0_implies_Suc by blast
  have bound: "unat (of_nat (length ?x) - 1 :: size_t) = length ?x - 1"
    using len by (simp add: m unat_of_nat)
  have "(\<forall>j. 0 \<le> j \<and> j < length ?x - 1 \<longrightarrow> ?x ! j = ?x ! (j + 1)) \<longleftrightarrow> (\<forall>d \<in> set ?x. d = last ?x)"
    by (rule adjacent_eq_last) (use assms in simp)
  then show ?thesis
    using assms len ap_inv_queue [OF assms(1)]
    by (simp add: can_pred_addr_def bound can_pred_loop_iff addr_q_size_def)
qed

lemma can_pred_addr_empty: "ap_inv p \<Longrightarrow> sq_queue (ap_addrDiff p) = [] \<Longrightarrow> can_pred_addr p = Inl Out_Of_Range"
  by (simp add: can_pred_addr_def ap_inv_queue can_pred_loop.simps [of _ _ 0] sq_get_def vec_at_def
      unsigned_minus_1_eq_mask mask_eq_exp_minus_1)

text \<open>The differences a run of observations appends.\<close>

primrec diffs :: "Addr_t \<Rightarrow> Addr_t list \<Rightarrow> 64 word list" where
  "diffs l [] = []"
| "diffs l (a # as) = (a - l) # diffs a as"

lemma length_diffs [simp]: "length (diffs l as) = length as"
  by (induction as arbitrary: l) auto

lemma observe_run: "ap_inv p \<Longrightarrow> \<exists>p'. fold_res set_last_seen_addr as p = Inr p' \<and> ap_inv p' \<and>
    ap_lastSeenAddr p' = last (ap_lastSeenAddr p # as) \<and>
    sq_queue (ap_addrDiff p') = last_n 4 (sq_queue (ap_addrDiff p) @ diffs (ap_lastSeenAddr p) as)"
proof (induction as arbitrary: p)
  case Nil
  then show ?case by (simp add: ap_inv_def)
next
  case (Cons a as)
  from set_last_seen_addr_ok [OF Cons.prems, of a] obtain u where
    u: "set_last_seen_addr a p = Inr u" "ap_inv u" "ap_lastSeenAddr u = a"
       "sq_queue (ap_addrDiff u) = last_n 4 (sq_queue (ap_addrDiff p) @ [a - ap_lastSeenAddr p])"
    by blast
  from Cons.IH [OF u(2)] obtain p' where
    p': "fold_res set_last_seen_addr as u = Inr p'" "ap_inv p'" "ap_lastSeenAddr p' = last (a # as)"
        "sq_queue (ap_addrDiff p') = last_n 4 (sq_queue (ap_addrDiff u) @ diffs a as)"
    using u(3) by auto
  have "sq_queue (ap_addrDiff p') =
      last_n 4 (sq_queue (ap_addrDiff p) @ diffs (ap_lastSeenAddr p) (a # as))"
    using p'(4) u(4) last_n_append_last_n [of 4 "sq_queue (ap_addrDiff p) @ [a - ap_lastSeenAddr p]"]
    by simp
  with u p' show ?case by auto
qed

lemma diffs_stride: "diffs a (map (\<lambda>i. a + of_nat i * d) [Suc 0..<Suc n]) = replicate n d"
proof -
  have "diffs (a + of_nat k * d) (map (\<lambda>i. a + of_nat i * d) [Suc k..<Suc (k + n)]) = replicate n d" for k
  proof (induction n arbitrary: k)
    case 0
    then show ?case by simp
  next
    case (Suc n)
    have "[Suc k..<Suc (k + Suc n)] = Suc k # [Suc (Suc k)..<Suc (Suc k + n)]"
      by (subst upt_conv_Cons) auto
    then show ?case using Suc.IH [of "Suc k"] by (simp add: algebra_simps)
  qed
  from this [of 0] show ?thesis by simp
qed

section \<open>Properties\<close>

text \<open>C33: What \<open>predict_addr\<close> computes in every state: with no difference recorded it throws
  \<open>std::out_of_range\<close> (the unsigned bound wraps); otherwise it returns the last address plus the
  common difference when all recorded differences agree, even when only one is recorded, and 0
  when they do not.\<close>

theorem predict_addr_spec:
  assumes "ap_inv p"
  shows "predict_addr p =
    (let q = sq_queue (ap_addrDiff p) in
     if q = [] then Inl Out_Of_Range
     else if list_all (\<lambda>d. d = last q) q then Inr (ap_lastSeenAddr p + last q)
     else Inr 0)"
  using assms
  by (cases "sq_queue (ap_addrDiff p) = []")
     (auto simp: predict_addr_def can_pred_addr_empty can_pred_addr_iff sq_back_def deque_back_def
        list_all_iff Let_def)

theorem predict_addr_spec_witness:
  "ap_inv mk_AddrPredictor \<and> predict_addr mk_AddrPredictor = Inl Out_Of_Range"
  using predict_addr_spec [of mk_AddrPredictor]
  by (simp add: mk_AddrPredictor_def mk_SimpleFixedSizeQueue_def ap_inv_def)

text \<open>C32: From any state, after observing at least five addresses in arithmetic progression the
  predictor predicts the next term of the progression, addresses wrapping at 64 bits.\<close>

theorem predict_addr_stride:
  assumes "ap_inv p" and "5 \<le> n"
  shows "\<exists>p'. fold_res set_last_seen_addr (map (\<lambda>i. a + of_nat i * d) [0..<n]) p = Inr p' \<and>
    predict_addr p' = Inr (a + of_nat n * d)"
proof -
  obtain m where n: "n = Suc m" and m: "4 \<le> m" using assms(2) by (cases n) auto
  let ?as = "map (\<lambda>i. a + of_nat i * d) [0..<n]"
  have as: "?as = a # map (\<lambda>i. a + of_nat i * d) [Suc 0..<Suc m]"
    by (simp add: n upt_conv_Cons del: upt_Suc)
  from observe_run [OF assms(1), of ?as] obtain p' where
    p': "fold_res set_last_seen_addr ?as p = Inr p'" "ap_inv p'" "ap_lastSeenAddr p' = last ?as"
        "sq_queue (ap_addrDiff p') = last_n 4 (sq_queue (ap_addrDiff p) @ diffs (ap_lastSeenAddr p) ?as)"
    by (auto simp: n)
  have "sq_queue (ap_addrDiff p') = last_n 4 (replicate m d)"
    using p'(4) m unfolding as diffs.simps(2) diffs_stride
    by (metis append_Cons append_Nil append_assoc last_n_of_append length_replicate)
  then have q: "sq_queue (ap_addrDiff p') = replicate 4 d" using m by (simp add: last_n_def)
  have "can_pred_addr p' = Inr True"
    using can_pred_addr_iff [OF p'(2)] q by (simp add: eval_nat_numeral)
  then have "predict_addr p' = Inr (ap_lastSeenAddr p' + d)"
    by (simp add: predict_addr_def sq_back_def deque_back_def q eval_nat_numeral)
  then show ?thesis using p'(1,3) by (simp add: n algebra_simps)
qed

theorem predict_addr_stride_witness:
  "ap_inv mk_AddrPredictor \<and> (5::nat) \<le> 5 \<and>
   (\<exists>p'. fold_res set_last_seen_addr [0x1000, 0x1040, 0x1080, 0x10c0, 0x1100] mk_AddrPredictor = Inr p' \<and>
    predict_addr p' = Inr 0x1140)"
  using predict_addr_stride [of mk_AddrPredictor 5 "0x1000" "0x40"]
  by (simp add: eval_nat_numeral)

end
