(* ===== verification/Completed_Write.thy ===== *)
theory Completed_Write
  imports Cache_Line
begin

text \<open>
  \<open>gem5/src/mem/predictor/CompletedWriteEntry.hh\<close>: a write whose address and data have been
  predicted, handed from the frontend to the backend.
\<close>

abbreviation (input) CW_ADDR :: "64 word" where "CW_ADDR \<equiv> 0x2"
abbreviation (input) CW_GEN_HASH :: "64 word" where "CW_GEN_HASH \<equiv> 0x4"
abbreviation (input) CW_TIME_OF_ADDR_GEN :: "64 word" where "CW_TIME_OF_ADDR_GEN \<equiv> 0x8"
abbreviation (input) CW_TIME_OF_DATA_GEN :: "64 word" where "CW_TIME_OF_DATA_GEN \<equiv> 0x10"
abbreviation (input) CW_HAS_CACHE_LINE :: "64 word" where "CW_HAS_CACHE_LINE \<equiv> 0x20"
abbreviation (input) CW_VERIFICATION_CACHE_HIT :: "64 word" where "CW_VERIFICATION_CACHE_HIT \<equiv> 0x40"
abbreviation (input) CW_COUNTER_CACHE_HIT :: "64 word" where "CW_COUNTER_CACHE_HIT \<equiv> 0x80"
abbreviation (input) CW_ORIGNAL_CACHELINE :: "64 word" where "CW_ORIGNAL_CACHELINE \<equiv> 0x100"
abbreviation (input) CW_IHB_PATTERN_MATCH_INDEX :: "64 word" where "CW_IHB_PATTERN_MATCH_INDEX \<equiv> 0x200"
abbreviation (input) CW_TIME_OF_CREATION :: "64 word" where "CW_TIME_OF_CREATION \<equiv> 0x400"

record CompletedWriteEntry =
  cw_flags :: "64 word"
  cw_addr :: Addr_t
  cw_cacheline :: CacheLine
  cw_generatorHash :: hash_t
  cw_timeOfAddrGen :: Tick
  cw_timeOfDataGen :: Tick
  cw_timeOfCreation :: Tick
  cw_ihbPatternMatchIndex :: size_t
  cw_orignalCacheLine :: CacheLine
  cw_used :: bool

definition CompletedWriteEntry_default :: "Tick \<Rightarrow> CompletedWriteEntry" where
  "CompletedWriteEntry_default curTick = \<lparr>cw_flags = 0, cw_addr = 0,
     cw_cacheline = CacheLine_default curTick, cw_generatorHash = 0, cw_timeOfAddrGen = - 1,
     cw_timeOfDataGen = - 1, cw_timeOfCreation = - 1, cw_ihbPatternMatchIndex = 0,
     cw_orignalCacheLine = CacheLine_default curTick, cw_used = False\<rparr>"

definition mk_CompletedWriteEntry :: "Tick \<Rightarrow> Addr_t \<Rightarrow> CacheLine \<Rightarrow> hash_t \<Rightarrow> CompletedWriteEntry" where
  "mk_CompletedWriteEntry curTick addr cl hash =
     (CompletedWriteEntry_default curTick)\<lparr>cw_addr := addr, cw_cacheline := cl, cw_generatorHash := hash,
       cw_flags := set_flag (set_flag (set_flag 0 CW_ADDR) CW_HAS_CACHE_LINE) CW_GEN_HASH\<rparr>"

definition cw_get_generator_hash :: "CompletedWriteEntry \<Rightarrow> hash_t res" where
  "cw_get_generator_hash e = bindE (panic_if (\<not> is_flag_set (cw_flags e) CW_GEN_HASH) '''')
     (\<lambda>_. Inr (cw_generatorHash e))"

definition cw_has_generator_hash :: "CompletedWriteEntry \<Rightarrow> bool" where
  "cw_has_generator_hash e = is_flag_set (cw_flags e) CW_GEN_HASH"

definition cw_set_addr :: "Addr_t \<Rightarrow> CompletedWriteEntry \<Rightarrow> CompletedWriteEntry" where
  "cw_set_addr a e = e\<lparr>cw_flags := set_flag (cw_flags e) CW_ADDR, cw_addr := a\<rparr>"

definition cw_get_addr :: "CompletedWriteEntry \<Rightarrow> Addr_t res" where
  "cw_get_addr e = bindE (panic_if (\<not> is_flag_set (cw_flags e) CW_ADDR) '''') (\<lambda>_. Inr (cw_addr e))"

definition cw_has_addr :: "CompletedWriteEntry \<Rightarrow> bool" where
  "cw_has_addr e = is_flag_set (cw_flags e) CW_ADDR"

definition cw_use :: "CompletedWriteEntry \<Rightarrow> CompletedWriteEntry res" where
  "cw_use e = bindE (panic_if (cw_used e) '''') (\<lambda>_. Inr (e\<lparr>cw_used := True\<rparr>))"

definition cw_is_used :: "CompletedWriteEntry \<Rightarrow> bool" where
  "cw_is_used e = cw_used e"

definition cw_get_time_of_addr_gen :: "CompletedWriteEntry \<Rightarrow> Tick res" where
  "cw_get_time_of_addr_gen e = bindE (panic_if (\<not> is_flag_set (cw_flags e) CW_TIME_OF_ADDR_GEN) '''')
     (\<lambda>_. Inr (cw_timeOfAddrGen e))"

definition cw_set_time_of_addr_gen :: "Tick \<Rightarrow> CompletedWriteEntry \<Rightarrow> CompletedWriteEntry" where
  "cw_set_time_of_addr_gen t e = e\<lparr>cw_flags := set_flag (cw_flags e) CW_TIME_OF_ADDR_GEN, cw_timeOfAddrGen := t\<rparr>"

definition cw_has_time_of_addr_gen :: "CompletedWriteEntry \<Rightarrow> bool" where
  "cw_has_time_of_addr_gen e = is_flag_set (cw_flags e) CW_TIME_OF_ADDR_GEN"

definition cw_get_time_of_data_gen :: "CompletedWriteEntry \<Rightarrow> Tick res" where
  "cw_get_time_of_data_gen e = bindE (panic_if (\<not> is_flag_set (cw_flags e) CW_TIME_OF_DATA_GEN) '''')
     (\<lambda>_. Inr (cw_timeOfDataGen e))"

definition cw_set_time_of_data_gen :: "Tick \<Rightarrow> CompletedWriteEntry \<Rightarrow> CompletedWriteEntry" where
  "cw_set_time_of_data_gen t e = e\<lparr>cw_flags := set_flag (cw_flags e) CW_TIME_OF_DATA_GEN, cw_timeOfDataGen := t\<rparr>"

definition cw_has_time_of_data_gen :: "CompletedWriteEntry \<Rightarrow> bool" where
  "cw_has_time_of_data_gen e = is_flag_set (cw_flags e) CW_TIME_OF_DATA_GEN"

definition cw_get_time_of_creation :: "CompletedWriteEntry \<Rightarrow> Tick res" where
  "cw_get_time_of_creation e = bindE (panic_if (\<not> is_flag_set (cw_flags e) CW_TIME_OF_CREATION) '''')
     (\<lambda>_. Inr (cw_timeOfCreation e))"

definition cw_set_time_of_creation :: "Tick \<Rightarrow> CompletedWriteEntry \<Rightarrow> CompletedWriteEntry" where
  "cw_set_time_of_creation t e = e\<lparr>cw_flags := set_flag (cw_flags e) CW_TIME_OF_CREATION, cw_timeOfCreation := t\<rparr>"

definition cw_has_time_of_creation :: "CompletedWriteEntry \<Rightarrow> bool" where
  "cw_has_time_of_creation e = is_flag_set (cw_flags e) CW_TIME_OF_CREATION"

text \<open>\<open>get_time_of_gen\<close> picks an element of a two-element vector with a comparison as index.\<close>

definition cw_get_time_of_gen :: "CompletedWriteEntry \<Rightarrow> Tick res" where
  "cw_get_time_of_gen e =
     bindE (cw_get_time_of_addr_gen e) (\<lambda>addrGen.
     bindE (cw_get_time_of_data_gen e) (\<lambda>dataGen.
     arr_get [addrGen, dataGen] (of_bool (addrGen < dataGen))))"

definition cw_get_least_time_of_gen :: "CompletedWriteEntry \<Rightarrow> Tick res" where
  "cw_get_least_time_of_gen e =
     bindE (cw_get_time_of_addr_gen e) (\<lambda>addrGen.
     bindE (cw_get_time_of_data_gen e) (\<lambda>dataGen. Inr (min addrGen dataGen)))"

definition cw_set_counter_cache_hit :: "bool \<Rightarrow> CompletedWriteEntry \<Rightarrow> CompletedWriteEntry" where
  "cw_set_counter_cache_hit b e = (if b then e\<lparr>cw_flags := set_flag (cw_flags e) CW_COUNTER_CACHE_HIT\<rparr>
     else e\<lparr>cw_flags := unset_flag (cw_flags e) CW_COUNTER_CACHE_HIT\<rparr>)"

definition cw_set_verification_cache_hit :: "bool \<Rightarrow> CompletedWriteEntry \<Rightarrow> CompletedWriteEntry" where
  "cw_set_verification_cache_hit b e = (if b then e\<lparr>cw_flags := set_flag (cw_flags e) CW_VERIFICATION_CACHE_HIT\<rparr>
     else e\<lparr>cw_flags := unset_flag (cw_flags e) CW_VERIFICATION_CACHE_HIT\<rparr>)"

definition cw_was_counter_cache_hit :: "CompletedWriteEntry \<Rightarrow> bool" where
  "cw_was_counter_cache_hit e = is_flag_set (cw_flags e) CW_COUNTER_CACHE_HIT"

definition cw_was_verification_cache_hit :: "CompletedWriteEntry \<Rightarrow> bool" where
  "cw_was_verification_cache_hit e = is_flag_set (cw_flags e) CW_VERIFICATION_CACHE_HIT"

definition cw_set_orig_cacheline :: "CacheLine \<Rightarrow> CompletedWriteEntry \<Rightarrow> CompletedWriteEntry" where
  "cw_set_orig_cacheline cl e = e\<lparr>cw_flags := set_flag (cw_flags e) CW_ORIGNAL_CACHELINE, cw_orignalCacheLine := cl\<rparr>"

definition cw_get_orig_cacheline :: "CompletedWriteEntry \<Rightarrow> CacheLine res" where
  "cw_get_orig_cacheline e = bindE (panic_if_not (is_flag_set (cw_flags e) CW_ORIGNAL_CACHELINE) '''')
     (\<lambda>_. Inr (cw_orignalCacheLine e))"

definition cw_set_ihb_pattern_match_index :: "size_t \<Rightarrow> CompletedWriteEntry \<Rightarrow> CompletedWriteEntry" where
  "cw_set_ihb_pattern_match_index i e =
     e\<lparr>cw_flags := set_flag (cw_flags e) CW_IHB_PATTERN_MATCH_INDEX, cw_ihbPatternMatchIndex := i\<rparr>"

definition cw_get_ihb_pattern_match_index :: "CompletedWriteEntry \<Rightarrow> size_t res" where
  "cw_get_ihb_pattern_match_index e = bindE (panic_if_not (is_flag_set (cw_flags e) CW_IHB_PATTERN_MATCH_INDEX) '''')
     (\<lambda>_. Inr (cw_ihbPatternMatchIndex e))"

lemmas cw_defs = cw_get_generator_hash_def cw_has_generator_hash_def cw_set_addr_def cw_get_addr_def
  cw_has_addr_def cw_use_def cw_is_used_def cw_get_time_of_addr_gen_def cw_set_time_of_addr_gen_def
  cw_has_time_of_addr_gen_def cw_get_time_of_data_gen_def cw_set_time_of_data_gen_def
  cw_has_time_of_data_gen_def cw_get_time_of_creation_def cw_set_time_of_creation_def
  cw_has_time_of_creation_def cw_set_orig_cacheline_def cw_get_orig_cacheline_def
  cw_set_ihb_pattern_match_index_def cw_get_ihb_pattern_match_index_def

section \<open>Guarded members\<close>

lemma cw_flag_self [simp]: "is_flag_set (set_flag w 2) 2" "is_flag_set (set_flag w 8) 8"
  "is_flag_set (set_flag w 16) 16" "is_flag_set (set_flag w 256) 256" "is_flag_set (set_flag w 512) 512"
  "is_flag_set (set_flag w 1024) 1024"
  by (simp_all add: is_flag_set_set) (simp_all add: is_flag_set_def)

interpretation cw_address: guarded_field cw_has_addr cw_get_addr cw_set_addr
  by unfold_locales (auto simp: cw_defs is_ok_iff bindE_eq_Inr)

interpretation cw_addr_time: guarded_field cw_has_time_of_addr_gen cw_get_time_of_addr_gen cw_set_time_of_addr_gen
  by unfold_locales (auto simp: cw_defs is_ok_iff bindE_eq_Inr)

interpretation cw_data_time: guarded_field cw_has_time_of_data_gen cw_get_time_of_data_gen cw_set_time_of_data_gen
  by unfold_locales (auto simp: cw_defs is_ok_iff bindE_eq_Inr)

interpretation cw_creation_time: guarded_field cw_has_time_of_creation cw_get_time_of_creation cw_set_time_of_creation
  by unfold_locales (auto simp: cw_defs is_ok_iff bindE_eq_Inr)

lemma cw_hit_set_get: "cw_was_counter_cache_hit (cw_set_counter_cache_hit b e) = b"
  "cw_was_verification_cache_hit (cw_set_verification_cache_hit b e) = b"
  by (auto simp: cw_was_counter_cache_hit_def cw_set_counter_cache_hit_def is_flag_set_unset
      cw_was_verification_cache_hit_def cw_set_verification_cache_hit_def is_flag_set_set)
     (simp_all add: is_flag_set_def)

lemma cw_use_twice: "cw_use e = Inr e' \<Longrightarrow> cw_use e' = Inl (Panic '''')"
  by (auto simp: cw_use_def bindE_eq_Inr)

section \<open>Properties\<close>

text \<open>Once both generation times are set, \<open>get_time_of_gen\<close> is the later and
  \<open>get_least_time_of_gen\<close> the earlier of the two, whatever the order of the setters; before both
  are set, both fail.\<close>

theorem completed_write_times:
  "cw_get_time_of_gen (cw_set_time_of_data_gen d (cw_set_time_of_addr_gen a e)) = Inr (max a d) \<and>
   cw_get_least_time_of_gen (cw_set_time_of_addr_gen a (cw_set_time_of_data_gen d e)) = Inr (min a d) \<and>
   \<not> is_ok (cw_get_time_of_gen (mk_CompletedWriteEntry t addr cl h)) \<and>
   \<not> is_ok (cw_get_least_time_of_gen (cw_set_time_of_addr_gen a (mk_CompletedWriteEntry t addr cl h)))"
proof (intro conjI)
  have pair: "cw_get_time_of_addr_gen (cw_set_time_of_data_gen d (cw_set_time_of_addr_gen a e)) = Inr a"
    "cw_get_time_of_data_gen (cw_set_time_of_addr_gen a (cw_set_time_of_data_gen d e)) = Inr d"
    using cw_flag_self(2,3) by (simp_all add: cw_defs is_flag_set_set [of _ 16 8] is_flag_set_set [of _ 8 16])
  show "cw_get_time_of_gen (cw_set_time_of_data_gen d (cw_set_time_of_addr_gen a e)) = Inr (max a d)"
    by (auto simp: cw_get_time_of_gen_def pair cw_data_time.get_set max_def)
  show "cw_get_least_time_of_gen (cw_set_time_of_addr_gen a (cw_set_time_of_data_gen d e)) = Inr (min a d)"
    by (simp add: cw_get_least_time_of_gen_def pair cw_addr_time.get_set)
qed (simp_all add: cw_get_time_of_gen_def cw_get_least_time_of_gen_def cw_defs mk_CompletedWriteEntry_def
      is_flag_set_def set_flag_def)

end
