(* ===== verification/Page_Table.thy ===== *)
theory Page_Table
  imports Common
begin

text \<open>
  \<open>gem5/src/mem/page_table.{hh,cc}\<close>: the page table of the emulated process, through which the
  predictor translates predicted addresses.

  The constructor asserts that the page size is a power of two, so a table holds the exponent
  \<open>em_bits\<close>; \<open>pageSize\<close> is \<open>2 ^ em_bits\<close> and \<open>offsetMask\<close> is \<open>mask em_bits\<close>.  Region sizes are 64-bit
  signed in the code; they only decrease, by a page per iteration, until they are not positive.
\<close>

record PTEntry =
  en_paddr :: Addr_t
  en_flags :: "64 word"

record EmulationPageTable =
  em_pTable :: "(Addr_t, PTEntry) umap"
  em_bits :: nat

abbreviation (input) Clobber :: "64 word" where "Clobber \<equiv> 1"

definition pageSize :: "EmulationPageTable \<Rightarrow> Addr_t" where
  "pageSize t = 2 ^ em_bits t"

definition pageAlign :: "EmulationPageTable \<Rightarrow> Addr_t \<Rightarrow> Addr_t" where
  "pageAlign t a = a AND NOT (mask (em_bits t))"

definition pageOffset :: "EmulationPageTable \<Rightarrow> Addr_t \<Rightarrow> Addr_t" where
  "pageOffset t a = a AND mask (em_bits t)"

section \<open>Mapping and unmapping\<close>

definition map_page :: "64 word \<Rightarrow> Addr_t \<Rightarrow> Addr_t \<Rightarrow> EmulationPageTable \<Rightarrow> EmulationPageTable res" where
  "map_page flags vaddr paddr t =
     (let e = \<lparr>en_paddr = paddr, en_flags = flags\<rparr> in
      if um_has (em_pTable t) vaddr
      then bindE (panic_if (\<not> is_flag_set flags Clobber) ''already mapped'') (\<lambda>_.
             Inr (t\<lparr>em_pTable := um_put vaddr e (em_pTable t)\<rparr>))
      else Inr (t\<lparr>em_pTable := um_insert vaddr e (em_pTable t)\<rparr>))"

lemma em_bits_map_page: "map_page flags v p t = Inr t' \<Longrightarrow> em_bits t' = em_bits t"
  by (auto simp: map_page_def Let_def bindE_eq_Inr split: if_splits)

text \<open>The page size is read from the table before the loop; no iteration changes it.\<close>

function map_loop :: "nat \<Rightarrow> 64 word \<Rightarrow> Addr_t \<Rightarrow> Addr_t \<Rightarrow> int \<Rightarrow> EmulationPageTable \<Rightarrow> EmulationPageTable res" where
  "map_loop bits flags vaddr paddr sz t =
     (if sz > 0
      then bindE (map_page flags vaddr paddr t)
             (map_loop bits flags (vaddr + 2 ^ bits) (paddr + 2 ^ bits) (sz - 2 ^ bits))
      else Inr t)"
  by pat_completeness auto
termination by (relation "measure (\<lambda>(bits, flags, v, p, sz, t). nat sz)") auto

declare map_loop.simps [simp del]

definition em_map :: "Addr_t \<Rightarrow> Addr_t \<Rightarrow> int \<Rightarrow> 64 word \<Rightarrow> EmulationPageTable \<Rightarrow> EmulationPageTable res" where
  "em_map vaddr paddr sz flags t =
     bindE (assertE (pageOffset t vaddr = 0) ''pageOffset'') (\<lambda>_.
     map_loop (em_bits t) flags vaddr paddr sz t)"

definition remap_page :: "Addr_t \<Rightarrow> Addr_t \<Rightarrow> EmulationPageTable \<Rightarrow> EmulationPageTable res" where
  "remap_page vaddr new_vaddr t =
     (case um_find (em_pTable t) vaddr of
        None \<Rightarrow> Inl (Assert_Fail ''remap'')
      | Some e \<Rightarrow> bindE (assertE (\<not> um_has (em_pTable t) new_vaddr) ''remap'') (\<lambda>_.
          Inr (t\<lparr>em_pTable := um_erase vaddr (um_insert new_vaddr e (em_pTable t))\<rparr>)))"

function remap_loop :: "nat \<Rightarrow> Addr_t \<Rightarrow> int \<Rightarrow> Addr_t \<Rightarrow> EmulationPageTable \<Rightarrow> EmulationPageTable res" where
  "remap_loop bits vaddr sz new_vaddr t =
     (if sz > 0
      then bindE (remap_page vaddr new_vaddr t) (remap_loop bits (vaddr + 2 ^ bits) (sz - 2 ^ bits) (new_vaddr + 2 ^ bits))
      else Inr t)"
  by pat_completeness auto
termination by (relation "measure (\<lambda>(bits, v, sz, n, t). nat sz)") auto

declare remap_loop.simps [simp del]

definition em_remap :: "Addr_t \<Rightarrow> int \<Rightarrow> Addr_t \<Rightarrow> EmulationPageTable \<Rightarrow> EmulationPageTable res" where
  "em_remap vaddr sz new_vaddr t =
     bindE (assertE (pageOffset t vaddr = 0) ''pageOffset'') (\<lambda>_.
     bindE (assertE (pageOffset t new_vaddr = 0) ''pageOffset'') (\<lambda>_.
     remap_loop (em_bits t) vaddr sz new_vaddr t))"

definition unmap_page :: "Addr_t \<Rightarrow> EmulationPageTable \<Rightarrow> EmulationPageTable res" where
  "unmap_page vaddr t =
     bindE (assertE (um_has (em_pTable t) vaddr) ''unmap'') (\<lambda>_.
     Inr (t\<lparr>em_pTable := um_erase vaddr (em_pTable t)\<rparr>))"

function unmap_loop :: "nat \<Rightarrow> Addr_t \<Rightarrow> int \<Rightarrow> EmulationPageTable \<Rightarrow> EmulationPageTable res" where
  "unmap_loop bits vaddr sz t =
     (if sz > 0
      then bindE (unmap_page vaddr t) (unmap_loop bits (vaddr + 2 ^ bits) (sz - 2 ^ bits))
      else Inr t)"
  by pat_completeness auto
termination by (relation "measure (\<lambda>(bits, v, sz, t). nat sz)") auto

declare unmap_loop.simps [simp del]

definition em_unmap :: "Addr_t \<Rightarrow> int \<Rightarrow> EmulationPageTable \<Rightarrow> EmulationPageTable res" where
  "em_unmap vaddr sz t =
     bindE (assertE (pageOffset t vaddr = 0) ''pageOffset'') (\<lambda>_. unmap_loop (em_bits t) vaddr sz t)"

function unmapped_loop :: "EmulationPageTable \<Rightarrow> Addr_t \<Rightarrow> int \<Rightarrow> int \<Rightarrow> bool" where
  "unmapped_loop t vaddr sz offset =
     (if offset < sz
      then (if um_has (em_pTable t) (vaddr + word_of_int offset) then False
            else unmapped_loop t vaddr sz (offset + 2 ^ em_bits t))
      else True)"
  by pat_completeness auto
termination by (relation "measure (\<lambda>(t, v, sz, offset). nat (sz - offset))") auto

declare unmapped_loop.simps [simp del]

definition isUnmapped :: "Addr_t \<Rightarrow> int \<Rightarrow> EmulationPageTable \<Rightarrow> bool res" where
  "isUnmapped vaddr sz t =
     bindE (assertE (pageOffset t vaddr = 0) ''pageOffset'') (\<lambda>_. Inr (unmapped_loop t vaddr sz 0))"

section \<open>Lookup and translation\<close>

definition em_lookup :: "EmulationPageTable \<Rightarrow> Addr_t \<Rightarrow> PTEntry option" where
  "em_lookup t vaddr = um_find (em_pTable t) (pageAlign t vaddr)"

text \<open>\<open>translate\<close> returns whether it succeeded and the address through a reference: an option.\<close>

definition translate :: "EmulationPageTable \<Rightarrow> Addr_t \<Rightarrow> Addr_t option" where
  "translate t vaddr = (case em_lookup t vaddr of
     None \<Rightarrow> None | Some e \<Rightarrow> Some (pageOffset t vaddr + en_paddr e))"

definition setPaddr :: "Addr_t \<Rightarrow> Request \<Rightarrow> Request" where
  "setPaddr a r = r\<lparr>rq_paddr := a, rq_privateFlags := flags_set (rq_privateFlags r) VALID_PADDR\<rparr>"

text \<open>Translation of a request: \<open>Inr None\<close> is a page fault.\<close>

definition translate_req :: "EmulationPageTable \<Rightarrow> Request \<Rightarrow> Request option res" where
  "translate_req t req =
     bindE (getVaddr req) (\<lambda>va.
     bindE (req_getSize req) (\<lambda>sz.
     bindE (assertE (pageAlign t (va + of_nat sz - 1) = pageAlign t va) ''pageAlign'') (\<lambda>_.
     (case translate t va of
        None \<Rightarrow> Inr None
      | Some pa \<Rightarrow>
          if unat (pa AND (pageSize t - 1)) + sz > unat (pageSize t)
          then Inl (Panic ''Request spans page boundaries!'')
          else Inr (Some (setPaddr pa req))))))"

section \<open>Regions as lists of pages\<close>

definition npages :: "nat \<Rightarrow> int \<Rightarrow> nat" where
  "npages bits sz = nat ((sz + 2 ^ bits - 1) div 2 ^ bits)"

lemma npages_nonpos: "sz \<le> 0 \<Longrightarrow> npages bits sz = 0"
proof -
  assume "sz \<le> 0"
  then have "(sz + 2 ^ bits - 1) div 2 ^ bits \<le> (2 ^ bits - 1) div 2 ^ bits"
    by (intro zdiv_mono1) auto
  also have "\<dots> = 0" by (simp add: div_pos_pos_trivial)
  finally show ?thesis by (simp add: npages_def)
qed

lemma npages_pos: "0 < sz \<Longrightarrow> npages bits sz = Suc (npages bits (sz - 2 ^ bits))"
proof -
  assume "0 < sz"
  have "sz + 2 ^ bits - 1 = (sz - 2 ^ bits + 2 ^ bits - 1) + 1 * 2 ^ bits" by simp
  then have "(sz + 2 ^ bits - 1) div 2 ^ bits = 1 + (sz - 2 ^ bits + 2 ^ bits - 1) div 2 ^ bits"
    by (metis add.commute div_mult_self1 power_not_zero zero_neq_numeral)
  moreover have "0 \<le> (sz - 2 ^ bits + 2 ^ bits - 1) div 2 ^ bits"
    using \<open>0 < sz\<close> by (simp add: pos_imp_zdiv_nonneg_iff)
  ultimately show ?thesis by (simp add: npages_def)
qed

lemma map_loop_fold: "map_loop bits flags v p sz t =
    fold_res (\<lambda>i. map_page flags (v + of_nat i * 2 ^ bits) (p + of_nat i * 2 ^ bits)) [0..<npages bits sz] t"
proof (induction bits flags v p sz t rule: map_loop.induct)
  case (1 bits flags v p sz t)
  show ?case
  proof (cases "sz > 0")
    case False
    then show ?thesis by (subst map_loop.simps) (simp add: npages_nonpos)
  next
    case True
    let ?f = "\<lambda>v p i. map_page flags (v + of_nat i * 2 ^ bits) (p + of_nat i * 2 ^ bits)"
    have "fold_res (?f v p) (map Suc xs) u = fold_res (?f (v + 2 ^ bits) (p + 2 ^ bits)) xs u" for xs u
      by (induction xs arbitrary: u) (auto simp: algebra_simps intro!: arg_cong2 [where f = bindE])
    then have shift: "fold_res (?f v p) (map Suc xs) = fold_res (?f (v + 2 ^ bits) (p + 2 ^ bits)) xs" for xs
      by blast
    have "[0..<npages bits sz] = 0 # map Suc [0..<npages bits (sz - 2 ^ bits)]"
      using True by (simp add: npages_pos map_Suc_upt upt_conv_Cons del: upt_Suc)
    moreover have "map_loop bits flags (v + 2 ^ bits) (p + 2 ^ bits) (sz - 2 ^ bits) =
        fold_res (?f (v + 2 ^ bits) (p + 2 ^ bits)) [0..<npages bits (sz - 2 ^ bits)]"
      using 1 [OF True] by blast
    ultimately show ?thesis
      using True by (subst map_loop.simps) (simp add: shift)
  qed
qed

lemma page_distinct:
  assumes "i < n" and "j < n" and "n * 2 ^ bits \<le> 2 ^ 64"
    and "v + of_nat i * 2 ^ bits = v + (of_nat j * 2 ^ bits :: Addr_t)"
  shows "i = j"
proof -
  have lt: "k * 2 ^ bits < 2 ^ 64" if "k < n" for k :: nat
  proof -
    have "k * 2 ^ bits < n * 2 ^ bits" using that by simp
    with assms(3) show ?thesis by linarith
  qed
  have small: "unat (of_nat k :: Addr_t) = k" if "k < 2 ^ 64" for k
    using that by (simp add: unat_of_nat)
  have "(of_nat (i * 2 ^ bits) :: Addr_t) = of_nat (j * 2 ^ bits)" using assms(4) by simp
  then have "unat (of_nat (i * 2 ^ bits) :: Addr_t) = unat (of_nat (j * 2 ^ bits) :: Addr_t)" by (rule arg_cong)
  then have "i * 2 ^ bits = j * 2 ^ bits"
    unfolding small [OF lt [OF assms(1)]] small [OF lt [OF assms(2)]] .
  then show ?thesis by simp
qed

lemma map_page_ok:
  assumes "is_flag_set flags Clobber \<or> um_find (em_pTable t) v = None"
  shows "\<exists>t'. map_page flags v p t = Inr t' \<and> em_bits t' = em_bits t \<and>
    (\<forall>x. um_find (em_pTable t') x = (if x = v then Some \<lparr>en_paddr = p, en_flags = flags\<rparr> else um_find (em_pTable t) x))"
  using assms by (cases "um_find (em_pTable t) v") (auto simp: map_page_def um_has_def Let_def um_simps)

text \<open>The table after mapping \<open>n\<close> pages, none of them mapped before unless clobbering is allowed.\<close>

lemma map_pages_run:
  assumes "n * 2 ^ bits \<le> 2 ^ 64"
    and "is_flag_set flags Clobber \<or> (\<forall>i<n. um_find (em_pTable t) (v + of_nat i * 2 ^ bits) = None)"
  shows "\<exists>t'. fold_res (\<lambda>i. map_page flags (v + of_nat i * 2 ^ bits) (p + of_nat i * 2 ^ bits)) [0..<n] t = Inr t' \<and>
    em_bits t' = em_bits t \<and>
    (\<forall>i<n. um_find (em_pTable t') (v + of_nat i * 2 ^ bits) =
       Some \<lparr>en_paddr = p + of_nat i * 2 ^ bits, en_flags = flags\<rparr>) \<and>
    (\<forall>x. x \<notin> (\<lambda>i. v + of_nat i * 2 ^ bits) ` {..<n} \<longrightarrow> um_find (em_pTable t') x = um_find (em_pTable t) x)"
  using assms
proof (induction n)
  case 0
  then show ?case by simp
next
  case (Suc n)
  let ?v = "\<lambda>i. v + of_nat i * 2 ^ bits :: Addr_t"
  have "n * 2 ^ bits \<le> 2 ^ 64" using Suc.prems(1) by simp
  then obtain u where u: "fold_res (\<lambda>i. map_page flags (?v i) (p + of_nat i * 2 ^ bits)) [0..<n] t = Inr u"
      "em_bits u = em_bits t"
      "\<forall>i<n. um_find (em_pTable u) (?v i) = Some \<lparr>en_paddr = p + of_nat i * 2 ^ bits, en_flags = flags\<rparr>"
      "\<forall>x. x \<notin> ?v ` {..<n} \<longrightarrow> um_find (em_pTable u) x = um_find (em_pTable t) x"
    using Suc.IH Suc.prems(2) by fastforce
  have inj: "?v i \<noteq> ?v n" if "i < n" for i
    using page_distinct [of i "Suc n" n bits v] that Suc.prems(1) by auto
  then have "?v n \<notin> ?v ` {..<n}" by force
  then have same: "um_find (em_pTable u) (?v n) = um_find (em_pTable t) (?v n)" using u(4) by blast
  define e where "e = \<lparr>en_paddr = p + of_nat n * 2 ^ bits, en_flags = flags\<rparr>"
  obtain t' where t': "map_page flags (?v n) (p + of_nat n * 2 ^ bits) u = Inr t'" "em_bits t' = em_bits u"
      "\<forall>x. um_find (em_pTable t') x = (if x = ?v n then Some e else um_find (em_pTable u) x)"
    using map_page_ok [of flags u "?v n" "p + of_nat n * 2 ^ bits"] Suc.prems(2) same by (auto simp: e_def)
  have run: "fold_res (\<lambda>i. map_page flags (?v i) (p + of_nat i * 2 ^ bits)) [0..<Suc n] t = Inr t'"
    using u(1) t'(1) by (simp add: fold_res_append)
  moreover have "um_find (em_pTable t') (?v i) = Some \<lparr>en_paddr = p + of_nat i * 2 ^ bits, en_flags = flags\<rparr>"
    if "i < Suc n" for i
    using that t'(3) u(3) inj [of i] by (cases "i = n") (auto simp: e_def)
  moreover have "um_find (em_pTable t') x = um_find (em_pTable t) x" if "x \<notin> ?v ` {..<Suc n}" for x
    using that t'(3) u(4) by (auto simp: lessThan_Suc)
  ultimately show ?case using u(2) t'(2) by (intro exI [of _ t']) simp
qed

section \<open>Offsets\<close>

lemma pageAlign_offset: "pageAlign t a = a - pageOffset t a"
proof -
  have "pageAlign t a AND pageOffset t a = 0"
    by (rule bit_word_eqI) (auto simp: pageAlign_def pageOffset_def bit_simps)
  moreover have "pageAlign t a OR pageOffset t a = a"
    by (rule bit_word_eqI) (auto simp: pageAlign_def pageOffset_def bit_simps)
  ultimately have "pageAlign t a + pageOffset t a = a"
    using word_plus_and_or [of "pageAlign t a" "pageOffset t a"] by simp
  then show ?thesis by (simp add: eq_diff_eq)
qed

lemma pageOffset_take_bit: "pageOffset t a = take_bit (em_bits t) a"
  by (simp add: pageOffset_def take_bit_eq_mask)

lemma take_bit_add_word: "take_bit n (a + b) = take_bit n (take_bit n a + take_bit n (b :: 'w::len word))"
  by transfer (simp add: take_bit_add min_def)

lemma pageOffset_add_aligned:
  assumes "pageOffset t v = 0"
  shows "pageOffset t (v + of_nat k) = of_nat (k mod 2 ^ em_bits t)"
proof -
  have "pageOffset t (v + of_nat k) = take_bit (em_bits t) (take_bit (em_bits t) v + take_bit (em_bits t) (of_nat k))"
    unfolding pageOffset_take_bit by (rule take_bit_add_word)
  also have "\<dots> = take_bit (em_bits t) (of_nat k)" using assms by (simp add: pageOffset_take_bit)
  also have "\<dots> = of_nat (k mod 2 ^ em_bits t)" by (simp add: take_bit_of_nat flip: take_bit_eq_mod)
  finally show ?thesis .
qed

lemma pageAlign_add_aligned:
  assumes "pageOffset t v = 0"
  shows "pageAlign t (v + of_nat k) = v + of_nat (k div 2 ^ em_bits t) * 2 ^ em_bits t"
proof -
  have "k = k div 2 ^ em_bits t * 2 ^ em_bits t + k mod 2 ^ em_bits t"
    by (rule div_mult_mod_eq [symmetric])
  then have "(of_nat k :: Addr_t) = of_nat (k div 2 ^ em_bits t) * 2 ^ em_bits t + of_nat (k mod 2 ^ em_bits t)"
    by (metis of_nat_add of_nat_mult of_nat_numeral of_nat_power)
  then have "(of_nat k :: Addr_t) - of_nat (k mod 2 ^ em_bits t) = of_nat (k div 2 ^ em_bits t) * 2 ^ em_bits t"
    by simp
  then show ?thesis
    unfolding pageAlign_offset pageOffset_add_aligned [OF assms] by (simp add: add_diff_eq [symmetric])
qed

lemma pageAlign_cong: "em_bits t' = em_bits t \<Longrightarrow> pageAlign t' = pageAlign t"
  by (simp add: fun_eq_iff pageAlign_def)

lemma pageOffset_cong: "em_bits t' = em_bits t \<Longrightarrow> pageOffset t' = pageOffset t"
  by (simp add: fun_eq_iff pageOffset_def)

lemma translate_cong:
  assumes "em_bits t' = em_bits t" and "um_find (em_pTable t') (pageAlign t a) = um_find (em_pTable t) (pageAlign t a)"
  shows "translate t' a = translate t a"
  unfolding translate_def em_lookup_def pageAlign_cong [OF assms(1)] pageOffset_cong [OF assms(1)] assms(2) ..

lemma of_nat_split_page:
  "(of_nat k :: Addr_t) = of_nat (k div 2 ^ b) * 2 ^ b + of_nat (k mod 2 ^ b)"
proof -
  have "of_nat k = (of_nat (k div 2 ^ b * 2 ^ b + k mod 2 ^ b) :: Addr_t)"
    by (simp only: div_mult_mod_eq)
  then show ?thesis by simp
qed

text \<open>The pages of a region, and what a table that maps them translates.\<close>

definition region :: "nat \<Rightarrow> Addr_t \<Rightarrow> int \<Rightarrow> Addr_t set" where
  "region bits v sz = (\<lambda>i. v + of_nat i * 2 ^ bits) ` {..<npages bits sz}"

lemma em_map_run:
  assumes "pageOffset t v = 0" and "npages (em_bits t) sz * 2 ^ em_bits t \<le> 2 ^ 64"
    and "is_flag_set flags Clobber \<or> (\<forall>x\<in>region (em_bits t) v sz. um_find (em_pTable t) x = None)"
  obtains t' where "em_map v p sz flags t = Inr t'" "em_bits t' = em_bits t"
    "\<And>i. i < npages (em_bits t) sz \<Longrightarrow> um_find (em_pTable t') (v + of_nat i * 2 ^ em_bits t) =
       Some \<lparr>en_paddr = p + of_nat i * 2 ^ em_bits t, en_flags = flags\<rparr>"
    "\<And>x. x \<notin> region (em_bits t) v sz \<Longrightarrow> um_find (em_pTable t') x = um_find (em_pTable t) x"
proof -
  have "is_flag_set flags Clobber \<or>
      (\<forall>i<npages (em_bits t) sz. um_find (em_pTable t) (v + of_nat i * 2 ^ em_bits t) = None)"
    using assms(3) by (auto simp: region_def)
  from map_pages_run [OF assms(2) this, of p]
  obtain t' where t': "fold_res (\<lambda>i. map_page flags (v + of_nat i * 2 ^ em_bits t) (p + of_nat i * 2 ^ em_bits t))
        [0..<npages (em_bits t) sz] t = Inr t'" "em_bits t' = em_bits t"
      "\<forall>i<npages (em_bits t) sz. um_find (em_pTable t') (v + of_nat i * 2 ^ em_bits t) =
         Some \<lparr>en_paddr = p + of_nat i * 2 ^ em_bits t, en_flags = flags\<rparr>"
      "\<forall>x. x \<notin> region (em_bits t) v sz \<longrightarrow> um_find (em_pTable t') x = um_find (em_pTable t) x"
    unfolding region_def by blast
  show ?thesis
  proof (rule that)
    show "em_map v p sz flags t = Inr t'"
      using t'(1) assms(1) by (simp add: em_map_def map_loop_fold assertE_def)
  qed (use t' in auto)
qed

text \<open>C26: Mapping a page-aligned region that is not mapped yet (or may be clobbered) succeeds; afterwards
  every byte of the region's pages translates to the byte at the same distance from the physical start, and
  every address outside those pages translates as before.\<close>

theorem map_then_translate:
  assumes "pageOffset t v = 0" and "npages (em_bits t) sz * 2 ^ em_bits t \<le> 2 ^ 64"
    and "is_flag_set flags Clobber \<or> (\<forall>x\<in>region (em_bits t) v sz. um_find (em_pTable t) x = None)"
  shows "\<exists>t'. em_map v p sz flags t = Inr t' \<and>
    (\<forall>k<npages (em_bits t) sz * 2 ^ em_bits t. translate t' (v + of_nat k) = Some (p + of_nat k)) \<and>
    (\<forall>a. pageAlign t a \<notin> region (em_bits t) v sz \<longrightarrow> translate t' a = translate t a)"
proof -
  from em_map_run [OF assms, of p] obtain t' where t': "em_map v p sz flags t = Inr t'" "em_bits t' = em_bits t"
    "\<And>i. i < npages (em_bits t) sz \<Longrightarrow> um_find (em_pTable t') (v + of_nat i * 2 ^ em_bits t) =
       Some \<lparr>en_paddr = p + of_nat i * 2 ^ em_bits t, en_flags = flags\<rparr>"
    "\<And>x. x \<notin> region (em_bits t) v sz \<Longrightarrow> um_find (em_pTable t') x = um_find (em_pTable t) x" by blast
  note cong = pageAlign_cong [OF t'(2)] pageOffset_cong [OF t'(2)]
  have "translate t' (v + of_nat k) = Some (p + of_nat k)" if "k < npages (em_bits t) sz * 2 ^ em_bits t" for k
  proof -
    have "k div 2 ^ em_bits t < npages (em_bits t) sz" using that by (simp add: less_mult_imp_div_less)
    then have "em_lookup t' (v + of_nat k) =
        Some \<lparr>en_paddr = p + of_nat (k div 2 ^ em_bits t) * 2 ^ em_bits t, en_flags = flags\<rparr>"
      using t'(3) by (simp add: em_lookup_def cong pageAlign_add_aligned [OF assms(1)])
    then have "translate t' (v + of_nat k) =
        Some (of_nat (k mod 2 ^ em_bits t) + (p + of_nat (k div 2 ^ em_bits t) * 2 ^ em_bits t))"
      by (simp add: translate_def cong pageOffset_add_aligned [OF assms(1)])
    also have "\<dots> = Some (p + of_nat k)"
      unfolding of_nat_split_page [of k "em_bits t"] by (simp add: ac_simps)
    finally show ?thesis .
  qed
  moreover have "translate t' a = translate t a" if "pageAlign t a \<notin> region (em_bits t) v sz" for a
    using t'(2) t'(4) [OF that] by (rule translate_cong)
  ultimately show ?thesis using t'(1) by blast
qed

text \<open>A page table with 4 KiB pages, as the emulated x86 process has, and its first mapping.\<close>

definition empty_4k :: EmulationPageTable where
  "empty_4k = \<lparr>em_pTable = [], em_bits = 12\<rparr>"

theorem map_then_translate_witness:
  "\<exists>t'. em_map 0x10000000000 0x200000000 8192 0 empty_4k = Inr t' \<and>
     translate t' (0x10000000000 + of_nat 5000) = Some (0x200000000 + of_nat 5000)"
proof -
  have n: "npages (em_bits empty_4k) 8192 = 2" by code_simp
  have b: "em_bits empty_4k = 12" by (simp add: empty_4k_def)
  have "pageOffset empty_4k 0x10000000000 = 0" by code_simp
  moreover have "npages (em_bits empty_4k) 8192 * 2 ^ em_bits empty_4k \<le> 2 ^ 64" by (simp add: n, simp add: b)
  moreover have "\<forall>x\<in>region (em_bits empty_4k) 0x10000000000 8192. um_find (em_pTable empty_4k) x = None"
    by (simp add: empty_4k_def um_simps)
  moreover have "5000 < npages (em_bits empty_4k) 8192 * 2 ^ em_bits empty_4k" by (simp add: n, simp add: b)
  ultimately show ?thesis using map_then_translate [of empty_4k "0x10000000000" 8192 0 "0x200000000"] by blast
qed

section \<open>Unmapping what was mapped\<close>

lemma unmap_loop_fold: "unmap_loop bits v sz t =
    fold_res (\<lambda>i. unmap_page (v + of_nat i * 2 ^ bits)) [0..<npages bits sz] t"
proof (induction bits v sz t rule: unmap_loop.induct)
  case (1 bits v sz t)
  show ?case
  proof (cases "sz > 0")
    case False
    then show ?thesis by (subst unmap_loop.simps) (simp add: npages_nonpos)
  next
    case True
    let ?f = "\<lambda>v i. unmap_page (v + of_nat i * 2 ^ bits)"
    have "fold_res (?f v) (map Suc xs) u = fold_res (?f (v + 2 ^ bits)) xs u" for xs u
      by (induction xs arbitrary: u) (auto simp: algebra_simps intro!: arg_cong2 [where f = bindE])
    then have shift: "fold_res (?f v) (map Suc xs) = fold_res (?f (v + 2 ^ bits)) xs" for xs
      by blast
    have "[0..<npages bits sz] = 0 # map Suc [0..<npages bits (sz - 2 ^ bits)]"
      using True by (simp add: npages_pos map_Suc_upt upt_conv_Cons del: upt_Suc)
    moreover have "unmap_loop bits (v + 2 ^ bits) (sz - 2 ^ bits) =
        fold_res (?f (v + 2 ^ bits)) [0..<npages bits (sz - 2 ^ bits)]"
      using 1 [OF True] by blast
    ultimately show ?thesis
      using True by (subst unmap_loop.simps) (simp add: shift)
  qed
qed

lemma unmap_pages_run:
  assumes "n * 2 ^ bits \<le> 2 ^ 64" and "\<forall>i<n. um_find (em_pTable t) (v + of_nat i * 2 ^ bits) \<noteq> None"
  shows "\<exists>t'. fold_res (\<lambda>i. unmap_page (v + of_nat i * 2 ^ bits)) [0..<n] t = Inr t' \<and> em_bits t' = em_bits t \<and>
    (\<forall>x. um_find (em_pTable t') x =
      (if x \<in> (\<lambda>i. v + of_nat i * 2 ^ bits) ` {..<n} then None else um_find (em_pTable t) x))"
  using assms
proof (induction n)
  case 0
  then show ?case by simp
next
  case (Suc n)
  let ?v = "\<lambda>i. v + of_nat i * 2 ^ bits :: Addr_t"
  have "n * 2 ^ bits \<le> 2 ^ 64" using Suc.prems(1) by simp
  then obtain u where u: "fold_res (\<lambda>i. unmap_page (?v i)) [0..<n] t = Inr u" "em_bits u = em_bits t"
      "\<forall>x. um_find (em_pTable u) x = (if x \<in> ?v ` {..<n} then None else um_find (em_pTable t) x)"
    using Suc.IH Suc.prems(2) by fastforce
  have "?v i \<noteq> ?v n" if "i < n" for i
    using page_distinct [of i "Suc n" n bits v] that Suc.prems(1) by auto
  then have "?v n \<notin> ?v ` {..<n}" by force
  then have "um_find (em_pTable u) (?v n) \<noteq> None" using u(3) Suc.prems(2) by simp
  then have "unmap_page (?v n) u = Inr (u\<lparr>em_pTable := um_erase (?v n) (em_pTable u)\<rparr>)"
    by (auto simp: unmap_page_def assertE_def um_has_def)
  with u(1) have "fold_res (\<lambda>i. unmap_page (?v i)) [0..<Suc n] t = Inr (u\<lparr>em_pTable := um_erase (?v n) (em_pTable u)\<rparr>)"
    by (simp add: fold_res_append)
  then show ?case using u(2,3)
    by (intro exI [of _ "u\<lparr>em_pTable := um_erase (?v n) (em_pTable u)\<rparr>"]) (simp add: um_simps lessThan_Suc)
qed

text \<open>C27: Mapping a page-aligned region that was not mapped and unmapping it again both succeed and leave
  every address translated as it was before.\<close>

theorem map_unmap_roundtrip:
  assumes "pageOffset t v = 0" and "npages (em_bits t) sz * 2 ^ em_bits t \<le> 2 ^ 64"
    and "\<forall>x\<in>region (em_bits t) v sz. um_find (em_pTable t) x = None"
  shows "\<exists>t' t''. em_map v p sz flags t = Inr t' \<and> em_unmap v sz t' = Inr t'' \<and> translate t'' = translate t"
proof -
  from em_map_run [OF assms(1,2), of flags p] assms(3) obtain t' where t': "em_map v p sz flags t = Inr t'" "em_bits t' = em_bits t"
    "\<And>i. i < npages (em_bits t) sz \<Longrightarrow> um_find (em_pTable t') (v + of_nat i * 2 ^ em_bits t) =
       Some \<lparr>en_paddr = p + of_nat i * 2 ^ em_bits t, en_flags = flags\<rparr>"
    "\<And>x. x \<notin> region (em_bits t) v sz \<Longrightarrow> um_find (em_pTable t') x = um_find (em_pTable t) x" by blast
  from unmap_pages_run [OF assms(2), of t' v] t'(3) obtain t'' where t'':
    "fold_res (\<lambda>i. unmap_page (v + of_nat i * 2 ^ em_bits t)) [0..<npages (em_bits t) sz] t' = Inr t''" "em_bits t'' = em_bits t'"
    "\<forall>x. um_find (em_pTable t'') x = (if x \<in> region (em_bits t) v sz then None else um_find (em_pTable t') x)"
    unfolding region_def by auto
  have bits: "em_bits t'' = em_bits t" using t'(2) t''(2) by simp
  have "um_find (em_pTable t'') = um_find (em_pTable t)" using t''(3) t'(4) assms(3) by (auto simp: fun_eq_iff)
  then have "translate t'' = translate t" using translate_cong [OF bits] by (intro ext) simp
  moreover have "em_unmap v sz t' = Inr t''"
    using t''(1) assms(1) by (simp add: em_unmap_def unmap_loop_fold t'(2) pageOffset_cong [OF t'(2)] assertE_def)
  ultimately show ?thesis using t'(1) by blast
qed

theorem map_unmap_roundtrip_witness:
  "\<exists>t' t''. em_map 0x10000000000 0x200000000 8192 0 empty_4k = Inr t' \<and>
     em_unmap 0x10000000000 8192 t' = Inr t'' \<and> translate t'' = translate empty_4k"
proof -
  have n: "npages (em_bits empty_4k) 8192 = 2" by code_simp
  have b: "em_bits empty_4k = 12" by (simp add: empty_4k_def)
  have "pageOffset empty_4k 0x10000000000 = 0" by code_simp
  moreover have "npages (em_bits empty_4k) 8192 * 2 ^ em_bits empty_4k \<le> 2 ^ 64" by (simp add: n, simp add: b)
  moreover have "\<forall>x\<in>region (em_bits empty_4k) 0x10000000000 8192. um_find (em_pTable empty_4k) x = None"
    by (simp add: empty_4k_def um_simps)
  ultimately show ?thesis by (rule map_unmap_roundtrip)
qed

section \<open>Translation keeps cache lines\<close>

definition entries_aligned :: "EmulationPageTable \<Rightarrow> bool" where
  "entries_aligned t = (\<forall>e\<in>set (map snd (em_pTable t)). pageOffset t (en_paddr e) = 0)"

lemma pageAlign_cacheline: "6 \<le> em_bits t \<Longrightarrow> pageAlign t (cacheline_align a) = pageAlign t a"
  by (rule bit_word_eqI) (auto simp: pageAlign_def cacheline_align_and CACHELINE_MASK_mask bit_simps)

lemma pageOffset_cacheline: "pageOffset t (cacheline_align a) = cacheline_align (pageOffset t a)"
  by (simp add: pageOffset_def cacheline_align_and ac_simps)

lemma cacheline_align_page_sum:
  assumes "pageOffset t p = 0" and "6 \<le> em_bits t"
  shows "cacheline_align (pageOffset t a + p) = cacheline_align (pageOffset t a) + p"
proof -
  have p: "\<not> bit p n" if "n < em_bits t" for n
  proof -
    have "bit (pageOffset t p) n = bit p n" using that by (auto simp: pageOffset_def bit_simps dest: bit_imp_le_length)
    with assms(1) show ?thesis by simp
  qed
  have "pageOffset t a AND p = 0" by (rule bit_word_eqI) (auto simp: pageOffset_def bit_simps p)
  then have 1: "pageOffset t a + p = pageOffset t a OR p" using word_plus_and_or [of "pageOffset t a" p] by simp
  have "cacheline_align (pageOffset t a) AND p = 0"
    by (rule bit_word_eqI) (auto simp: pageOffset_def cacheline_align_and bit_simps p)
  then have 2: "cacheline_align (pageOffset t a) + p = cacheline_align (pageOffset t a) OR p"
    using word_plus_and_or [of "cacheline_align (pageOffset t a)" p] by simp
  have low: "6 \<le> n" if "bit p n" for n using p [of n] that assms(2) by (cases "6 \<le> n") auto
  show ?thesis unfolding 1 2
    by (rule bit_word_eqI) (auto simp: cacheline_align_and CACHELINE_MASK_mask bit_simps not_less dest: low)
qed

text \<open>With page-aligned frames and pages of at least a cache line, aligning an address to its cache
  line and translating commute: a predicted line translates to the physical line of its bytes.\<close>

theorem translate_cacheline_align:
  assumes "entries_aligned t" and "6 \<le> em_bits t"
  shows "translate t (cacheline_align a) = map_option cacheline_align (translate t a)"
proof (cases "um_find (em_pTable t) (pageAlign t a)")
  case None
  then show ?thesis using assms(2) by (simp add: translate_def em_lookup_def pageAlign_cacheline)
next
  case (Some e)
  then have "pageOffset t (en_paddr e) = 0"
    using assms(1) map_of_SomeD [of "em_pTable t" "pageAlign t a" e] by (force simp: entries_aligned_def um_find_def)
  with Some show ?thesis using assms(2)
    by (simp add: translate_def em_lookup_def pageAlign_cacheline pageOffset_cacheline cacheline_align_page_sum)
qed

theorem translate_cacheline_align_witness:
  "translate \<lparr>em_pTable = [(0x1000, \<lparr>en_paddr = 0x7000, en_flags = 0\<rparr>)], em_bits = 12\<rparr> (cacheline_align 0x1234) =
   Some (cacheline_align 0x7234)"
  using translate_cacheline_align [of "\<lparr>em_pTable = [(0x1000, \<lparr>en_paddr = 0x7000, en_flags = 0\<rparr>)], em_bits = 12\<rparr>" "0x1234"]
  by (simp add: entries_aligned_def pageOffset_def pageAlign_def translate_def em_lookup_def um_find_def mask_eq_exp_minus_1)

end
