(* ===== verification/Meta_Cache.thy ===== *)
theory Meta_Cache
  imports Completed_Write Page_Table "HOL-Library.Multiset"
begin

text \<open>
  The metadata caches of \<open>gem5/src/mem/dram_ctrl.hh\<close>: the set-associative counter cache and the fully
  associative cache of integrity-tree nodes, with their queues of miss and eviction packets.

  Sizes that come from a generated configuration header or from simulator parameters are members of
  \<open>MetaCfg\<close>.  So is \<open>cfg_shl1 n\<close>, the value of the C++ expression \<open>1 << n\<close> on an \<open>int\<close>, which the
  language leaves undefined for the two lowest tree levels (shifts by 36 and 33): every result below holds
  whatever value the compiler gives it.

  An unordered map is iterated in list order here; since no two entries of a cache ever have the same
  age, the victim does not depend on that order.
\<close>

section \<open>Configuration, entries and state\<close>

record MetaCfg =
  cfg_COUNTER_CACHE_SIZE :: "32 word"
  cfg_VERIFICATION_CACHE_SIZE :: nat
  cfg_burstSize :: "32 word"
  cfg_shl1 :: "nat \<Rightarrow> Addr_t"

abbreviation (input) COUNTER_ADDR_DIFF :: Addr_t where "COUNTER_ADDR_DIFF \<equiv> 0x200000001"
abbreviation (input) VERIFICATION_ADDR_DIFF :: Addr_t where "VERIFICATION_ADDR_DIFF \<equiv> 0x240000001"
abbreviation (input) VERIFICATION_TREE_HEIGHT :: nat where "VERIFICATION_TREE_HEIGHT \<equiv> 12"
abbreviation (input) NUM_WAY :: nat where "NUM_WAY \<equiv> 16"
abbreviation (input) COUNTER_CACHE_LINE_SIZE :: Addr_t where "COUNTER_CACHE_LINE_SIZE \<equiv> 512"
abbreviation (input) VERIFICATION_CACHE_LINE_SIZE :: Addr_t where "VERIFICATION_CACHE_LINE_SIZE \<equiv> 64"
abbreviation (input) PHYSICAL :: "64 word" where "PHYSICAL \<equiv> 0x200"

record MetaEntry =
  me_cnt :: "32 word"
  me_dirty :: bool

type_synonym cache_set = "(Addr_t, MetaEntry) umap"

record MetaQueueEntry =
  mq_pkt :: Packet
  mq_pkt_count :: "32 word"

record MetaState =
  mc_CounterCache :: "(32 word, cache_set) umap"
  mc_VerificationCache :: cache_set
  mc_CounterCacheMissQueue :: "MetaQueueEntry list"
  mc_CounterCacheEvictionQueue :: "MetaQueueEntry list"
  mc_VerificationCacheMissQueue :: "MetaQueueEntry list"
  mc_VerificationCacheEvictionQueue :: "MetaQueueEntry list"
  mc_CounterWriteQueue :: "MetaQueueEntry list"
  mc_EvictionCnt :: "64 word"
  mc_totalCounterCacheRead :: nat
  mc_totalCounterCacheReadHit :: nat
  mc_totalCounterCacheWrite :: nat

definition MetaState_init :: MetaState where
  "MetaState_init = \<lparr>mc_CounterCache = [], mc_VerificationCache = [], mc_CounterCacheMissQueue = [],
     mc_CounterCacheEvictionQueue = [], mc_VerificationCacheMissQueue = [], mc_VerificationCacheEvictionQueue = [],
     mc_CounterWriteQueue = [], mc_EvictionCnt = 0, mc_totalCounterCacheRead = 0,
     mc_totalCounterCacheReadHit = 0, mc_totalCounterCacheWrite = 0\<rparr>"

section \<open>Packets\<close>

definition divCeil :: "32 word \<Rightarrow> 32 word \<Rightarrow> (32 word) res" where
  "divCeil a b = (if b = 0 then Inl (Undefined ''division by zero'') else Inr ((a + b - 1) div b))"

text \<open>A packet for eight bytes at \<open>a\<close>, with the number of bursts it takes.\<close>

definition meta_pkt :: "MetaCfg \<Rightarrow> Addr_t \<Rightarrow> Command \<Rightarrow> DataChunk list \<Rightarrow> MetaQueueEntry res" where
  "meta_pkt cfg a c val =
     bindE (dataDynamic val (mk_Packet (mk_Request_phys a 8 PHYSICAL) c)) (\<lambda>p.
     bindE (divCeil (8 + ucast (a AND ucast (cfg_burstSize cfg - 1))) (cfg_burstSize cfg)) (\<lambda>n.
     Inr \<lparr>mq_pkt = p, mq_pkt_count = n\<rparr>))"

definition mark_counter :: "MetaQueueEntry \<Rightarrow> MetaQueueEntry" where
  "mark_counter q = q\<lparr>mq_pkt := (mq_pkt q)\<lparr>pk_isCounterPacket := True\<rparr>\<rparr>"

definition mark_verification :: "MetaQueueEntry \<Rightarrow> MetaQueueEntry" where
  "mark_verification q = q\<lparr>mq_pkt := (mq_pkt q)\<lparr>pk_isVerificationPacket := True\<rparr>\<rparr>"

definition createCounterPkt :: "MetaCfg \<Rightarrow> Addr_t \<Rightarrow> MetaQueueEntry res" where
  "createCounterPkt cfg a =
     bindE (meta_pkt cfg (a div 8 + COUNTER_ADDR_DIFF) WriteReq [1]) (\<lambda>q. Inr (mark_counter q))"

definition createVerificationPkt :: "MetaCfg \<Rightarrow> Addr_t \<Rightarrow> MetaQueueEntry res" where
  "createVerificationPkt cfg a =
     bindE (meta_pkt cfg (a div 8 + VERIFICATION_ADDR_DIFF) WriteReq [1]) (\<lambda>q. Inr (mark_verification q))"

text \<open>The read a miss sends to memory.\<close>

definition counter_miss_pkt :: "MetaCfg \<Rightarrow> Addr_t \<Rightarrow> MetaQueueEntry res" where
  "counter_miss_pkt cfg a =
     bindE (meta_pkt cfg (a div 8 + COUNTER_ADDR_DIFF) ReadReq [0, 0]) (\<lambda>q. Inr (mark_counter q))"

definition verification_miss_pkt :: "MetaCfg \<Rightarrow> Addr_t \<Rightarrow> MetaQueueEntry res" where
  "verification_miss_pkt cfg MTAddr =
     bindE (meta_pkt cfg MTAddr ReadReq [0, 0]) (\<lambda>q. Inr (mark_verification q))"

definition getDataAddr :: "Packet \<Rightarrow> Addr_t res" where
  "getDataAddr p = (if pk_isCounterPacket p then bindE (getAddr p) (\<lambda>a. Inr ((a - COUNTER_ADDR_DIFF) * 8)) else getAddr p)"

definition isCounterAtomicPkt :: "Packet \<Rightarrow> bool" where
  "isCounterAtomicPkt p = isWrite p"

section \<open>Ages\<close>

text \<open>One pass over a cache: every entry ages by one; the oldest is the candidate for eviction.\<close>

primrec incr_loop :: "cache_set \<Rightarrow> 32 word \<Rightarrow> Addr_t \<Rightarrow> cache_set \<times> Addr_t" where
  "incr_loop [] max_cnt LRU = ([], LRU)"
| "incr_loop (x # m) max_cnt LRU =
     (let e = (snd x)\<lparr>me_cnt := me_cnt (snd x) + 1\<rparr>;
          r = (if me_cnt e > max_cnt then incr_loop m (me_cnt e) (fst x) else incr_loop m max_cnt LRU) in
      ((fst x, e) # fst r, snd r))"

definition incr_cnts :: "cache_set \<Rightarrow> cache_set \<times> Addr_t" where
  "incr_cnts m = incr_loop m 0 (- 1)"

text \<open>Insertion of a missing line; above the capacity the candidate is evicted, and reported when dirty.\<close>

definition insert_evict :: "nat \<Rightarrow> Addr_t \<Rightarrow> bool \<Rightarrow> Addr_t \<Rightarrow> cache_set \<Rightarrow> (cache_set \<times> Addr_t option) res" where
  "insert_evict cap a d LRU m =
     (let m1 = um_put a \<lparr>me_cnt = 0, me_dirty = d\<rparr> m in
      if length m1 > cap
      then (case um_find m1 LRU of
              None \<Rightarrow> Inl (Undefined ''null entry'')
            | Some v \<Rightarrow> (let m2 = um_erase LRU m1 in
                bindE (assertE (length m2 = cap) ''size'') (\<lambda>_.
                Inr (m2, if me_dirty v then Some LRU else None))))
      else Inr (m1, None))"

text \<open>A hit: the line becomes the youngest, a write also makes it dirty.\<close>

definition reset_entry :: "bool \<Rightarrow> Addr_t \<Rightarrow> cache_set \<Rightarrow> cache_set res" where
  "reset_entry wr a m = (case um_find m a of
     None \<Rightarrow> Inl (Undefined ''null entry'')
   | Some e \<Rightarrow> Inr (um_put a \<lparr>me_cnt = 0, me_dirty = (wr \<or> me_dirty e)\<rparr> m))"

section \<open>The counter cache\<close>

definition num_sets :: "MetaCfg \<Rightarrow> 32 word" where
  "num_sets cfg = cfg_COUNTER_CACHE_SIZE cfg div 16"

definition getIndex :: "MetaCfg \<Rightarrow> Addr_t \<Rightarrow> (32 word) res" where
  "getIndex cfg a =
     (if num_sets cfg = 0 then Inl (Undefined ''division by zero'')
      else let l = a div COUNTER_CACHE_LINE_SIZE;
               n = ucast (num_sets cfg);
               index = ucast (l - (l div n) * n) in
           bindE (assertE (index < num_sets cfg) ''index < num_sets'') (\<lambda>_. Inr index))"

definition counter_set :: "32 word \<Rightarrow> MetaState \<Rightarrow> cache_set" where
  "counter_set index s = (case um_find (mc_CounterCache s) index of None \<Rightarrow> [] | Some m \<Rightarrow> m)"

definition put_counter_set :: "32 word \<Rightarrow> cache_set \<Rightarrow> MetaState \<Rightarrow> MetaState" where
  "put_counter_set index m s = s\<lparr>mc_CounterCache := um_put index m (mc_CounterCache s)\<rparr>"

definition isCounterCacheHit :: "MetaCfg \<Rightarrow> Addr_t \<Rightarrow> MetaState \<Rightarrow> bool res" where
  "isCounterCacheHit cfg a s = bindE (getIndex cfg a) (\<lambda>index. Inr (um_has (counter_set index s) a))"

text \<open>\<open>CounterCache[index]\<close> inserts an empty set where there is none.\<close>

definition incrCacheCnt :: "MetaCfg \<Rightarrow> Addr_t \<Rightarrow> MetaState \<Rightarrow> (MetaState \<times> Addr_t) res" where
  "incrCacheCnt cfg a s =
     bindE (getIndex cfg a) (\<lambda>index.
     let (m, LRU) = incr_cnts (counter_set index s) in
     Inr (put_counter_set index m s, LRU))"

definition counter_evict :: "MetaCfg \<Rightarrow> Addr_t option \<Rightarrow> MetaState \<Rightarrow> MetaState res" where
  "counter_evict cfg v s = (case v of
     None \<Rightarrow> Inr s
   | Some a \<Rightarrow> bindE (createCounterPkt cfg a) (\<lambda>q.
       Inr (s\<lparr>mc_EvictionCnt := mc_EvictionCnt s + 1,
              mc_CounterCacheEvictionQueue := mc_CounterCacheEvictionQueue s @
                [q\<lparr>mq_pkt := (mq_pkt q)\<lparr>pk_isCounterCacheEviction := True\<rparr>\<rparr>]\<rparr>)))"

definition counter_line :: "Addr_t \<Rightarrow> Addr_t" where
  "counter_line a = a div COUNTER_CACHE_LINE_SIZE * COUNTER_CACHE_LINE_SIZE"

definition counter_miss :: "MetaCfg \<Rightarrow> 32 word \<Rightarrow> Addr_t \<Rightarrow> bool \<Rightarrow> Addr_t \<Rightarrow> MetaState \<Rightarrow> MetaState res" where
  "counter_miss cfg index a d LRU s =
     bindE (insert_evict NUM_WAY a d LRU (counter_set index s)) (\<lambda>(m, v).
     counter_evict cfg v (put_counter_set index m s))"

definition readCounterCache :: "MetaCfg \<Rightarrow> Addr_t \<Rightarrow> MetaState \<Rightarrow> (bool \<times> MetaState) res" where
  "readCounterCache cfg paddr s =
     (let s1 = s\<lparr>mc_totalCounterCacheRead := mc_totalCounterCacheRead s + 1\<rparr>;
          a = counter_line paddr in
      bindE (getIndex cfg a) (\<lambda>index.
      bindE (isCounterCacheHit cfg a s1) (\<lambda>isHit.
      bindE (incrCacheCnt cfg a s1) (\<lambda>(s2, LRU).
      if \<not> isHit
      then bindE (counter_miss_pkt cfg a) (\<lambda>q.
           bindE (counter_miss cfg index a False LRU
                    (s2\<lparr>mc_CounterCacheMissQueue := mc_CounterCacheMissQueue s2 @ [q]\<rparr>)) (\<lambda>s3.
           Inr (isHit, s3)))
      else bindE (reset_entry False a (counter_set index s2)) (\<lambda>m.
           Inr (isHit, put_counter_set index m
                  (s2\<lparr>mc_totalCounterCacheReadHit := mc_totalCounterCacheReadHit s2 + 1\<rparr>)))))))"

text \<open>At the end of a write an atomic counter is marked clean again, through \<open>operator[]\<close>.\<close>

definition counter_clean :: "32 word \<Rightarrow> Addr_t \<Rightarrow> MetaState \<Rightarrow> MetaState res" where
  "counter_clean index a s = (case um_find (counter_set index s) a of
     None \<Rightarrow> Inl (Undefined ''null entry'')
   | Some e \<Rightarrow> Inr (put_counter_set index (um_put a (e\<lparr>me_dirty := False\<rparr>) (counter_set index s)) s))"

definition writeCounterCache :: "MetaCfg \<Rightarrow> Packet \<Rightarrow> bool \<Rightarrow> MetaState \<Rightarrow> (bool \<times> MetaState) res" where
  "writeCounterCache cfg pkt noUpdate s =
     (let s1 = s\<lparr>mc_totalCounterCacheRead := mc_totalCounterCacheRead s + 1,
                mc_totalCounterCacheWrite := mc_totalCounterCacheWrite s + 1\<rparr> in
      bindE (getAddr pkt) (\<lambda>paddr.
      let a = counter_line paddr in
      bindE (getIndex cfg a) (\<lambda>index.
      bindE (isCounterCacheHit cfg a s1) (\<lambda>isHit.
      bindE (if noUpdate then Inr (s1, 0) else incrCacheCnt cfg a s1) (\<lambda>(s2, LRU).
      bindE (if \<not> isHit
             then bindE (counter_miss_pkt cfg a) (\<lambda>q.
                  let s3 = s2\<lparr>mc_CounterCacheMissQueue := mc_CounterCacheMissQueue s2 @ [q]\<rparr> in
                  if noUpdate then Inr s3 else counter_miss cfg index a True LRU s3)
             else bindE (reset_entry True a (counter_set index s2)) (\<lambda>m.
                  Inr (put_counter_set index m
                    (s2\<lparr>mc_totalCounterCacheReadHit := mc_totalCounterCacheReadHit s2 + 1\<rparr>)))) (\<lambda>s4.
      bindE (if isCounterAtomicPkt pkt then counter_clean index a s4 else Inr s4) (\<lambda>s5.
      Inr (isHit, s5))))))))"

section \<open>The cache of integrity-tree nodes\<close>

text \<open>\<open>1 << n\<close> on an \<open>int\<close>, converted to an address.\<close>

definition dataToMTOffset :: "MetaCfg \<Rightarrow> Addr_t \<Rightarrow> nat \<Rightarrow> Addr_t" where
  "dataToMTOffset cfg dataAddr levelFromBottom =
     drop_bit (levelFromBottom * 3) dataAddr + cfg_shl1 cfg ((VERIFICATION_TREE_HEIGHT - levelFromBottom) * 3)"

definition dataToMTAddr :: "MetaCfg \<Rightarrow> Addr_t \<Rightarrow> nat \<Rightarrow> Addr_t res" where
  "dataToMTAddr cfg dataAddr levelFromBottom =
     (let rtn = dataToMTOffset cfg dataAddr levelFromBottom div 8 + VERIFICATION_ADDR_DIFF in
      bindE (assertE (rtn \<ge> VERIFICATION_ADDR_DIFF) ''rtn >= VERIFICATION_ADDR_DIFF'') (\<lambda>_. Inr rtn))"

definition isVerificationCacheHit :: "Addr_t \<Rightarrow> MetaState \<Rightarrow> bool" where
  "isVerificationCacheHit a s = um_has (mc_VerificationCache s) a"

definition incrVeriCacheCnt :: "MetaState \<Rightarrow> MetaState \<times> Addr_t" where
  "incrVeriCacheCnt s =
     (let (m, LRU) = incr_cnts (mc_VerificationCache s) in (s\<lparr>mc_VerificationCache := m\<rparr>, LRU))"

definition verification_evict :: "MetaCfg \<Rightarrow> Addr_t option \<Rightarrow> MetaState \<Rightarrow> MetaState res" where
  "verification_evict cfg v s = (case v of
     None \<Rightarrow> Inr s
   | Some a \<Rightarrow> bindE (createVerificationPkt cfg a) (\<lambda>q.
       Inr (s\<lparr>mc_VerificationCacheEvictionQueue := mc_VerificationCacheEvictionQueue s @
                [q\<lparr>mq_pkt := (mq_pkt q)\<lparr>pk_isVerificationCacheEviction := True\<rparr>\<rparr>]\<rparr>)))"

text \<open>Reads and writes of a node differ in the dirty mark only.\<close>

definition verification_access :: "MetaCfg \<Rightarrow> bool \<Rightarrow> Addr_t \<Rightarrow> nat \<Rightarrow> MetaState \<Rightarrow> (bool \<times> MetaState) res" where
  "verification_access cfg wr paddr nodeLevel s =
     (let a = paddr div VERIFICATION_CACHE_LINE_SIZE * VERIFICATION_CACHE_LINE_SIZE;
          MToffset = dataToMTOffset cfg a nodeLevel in
      bindE (dataToMTAddr cfg a nodeLevel) (\<lambda>MTAddr.
      let isHit = isVerificationCacheHit MToffset s;
          (s1, LRU) = incrVeriCacheCnt s in
      if \<not> isHit
      then bindE (verification_miss_pkt cfg MTAddr) (\<lambda>q.
           bindE (insert_evict (cfg_VERIFICATION_CACHE_SIZE cfg) MToffset wr LRU (mc_VerificationCache s1)) (\<lambda>(m, v).
           bindE (verification_evict cfg v
                    (s1\<lparr>mc_VerificationCacheMissQueue := mc_VerificationCacheMissQueue s1 @ [q],
                        mc_VerificationCache := m\<rparr>)) (\<lambda>s2.
           Inr (isHit, s2))))
      else bindE (reset_entry wr MToffset (mc_VerificationCache s1)) (\<lambda>m.
           Inr (isHit, s1\<lparr>mc_VerificationCache := m\<rparr>))))"

definition writeVerificationCache :: "MetaCfg \<Rightarrow> Packet \<Rightarrow> nat \<Rightarrow> MetaState \<Rightarrow> (bool \<times> MetaState) res" where
  "writeVerificationCache cfg pkt nodeLevel s =
     bindE (getAddr pkt) (\<lambda>a. verification_access cfg True a nodeLevel s)"

definition readVerificationCache_level :: "MetaCfg \<Rightarrow> Addr_t \<Rightarrow> nat \<Rightarrow> MetaState \<Rightarrow> (bool \<times> MetaState) res" where
  "readVerificationCache_level cfg paddr nodeLevel s = verification_access cfg False paddr nodeLevel s"

text \<open>The walk from a leaf towards the root stops at the first cached node; it counts the misses.\<close>

primrec verification_walk :: "MetaCfg \<Rightarrow> Addr_t \<Rightarrow> nat list \<Rightarrow> 64 word \<Rightarrow> MetaState \<Rightarrow> (64 word \<times> MetaState) res" where
  "verification_walk cfg paddr [] n s = Inr (n, s)"
| "verification_walk cfg paddr (l # ls) n s =
     bindE (readVerificationCache_level cfg paddr l s) (\<lambda>(isHit, s').
     if \<not> isHit then verification_walk cfg paddr ls (n + 1) s' else Inr (n, s'))"

text \<open>The overload for a predicted write adds the misses to a member that is read nowhere.\<close>

definition readVerificationCache_entry :: "MetaCfg \<Rightarrow> CompletedWriteEntry \<Rightarrow> MetaState \<Rightarrow> MetaState res" where
  "readVerificationCache_entry cfg e s =
     bindE (cw_get_addr e) (\<lambda>a.
     bindE (verification_walk cfg a [0..<VERIFICATION_TREE_HEIGHT] 0 s) (\<lambda>(n, s'). Inr s'))"

definition readVerificationCache_pkt :: "MetaCfg \<Rightarrow> Packet \<Rightarrow> MetaState \<Rightarrow> (Packet \<times> MetaState) res" where
  "readVerificationCache_pkt cfg pkt s =
     bindE (getPaddr (pk_req pkt)) (\<lambda>paddr.
     bindE (panic_if (paddr = - 1) ''Cannot translate address'') (\<lambda>_.
     bindE (verification_walk cfg paddr [0..<VERIFICATION_TREE_HEIGHT] (pk_verificationCacheMisses pkt) s) (\<lambda>(n, s').
     Inr (pkt\<lparr>pk_verificationCacheMisses := n\<rparr>, s'))))"

definition readCounterCache_pkt :: "MetaCfg \<Rightarrow> Packet \<Rightarrow> MetaState \<Rightarrow> (bool \<times> MetaState) res" where
  "readCounterCache_pkt cfg pkt s = bindE (getPaddr (pk_req pkt)) (\<lambda>a. readCounterCache cfg a s)"

section \<open>Write-back of a flushed line\<close>

text \<open>The loop over one set: dirty entries of the flushed line are queued and cleaned.\<close>

definition flush_entry :: "MetaCfg \<Rightarrow> Addr_t \<Rightarrow> Addr_t \<times> MetaEntry \<Rightarrow> cache_set \<times> MetaQueueEntry list \<Rightarrow>
    (cache_set \<times> MetaQueueEntry list) res" where
  "flush_entry cfg flush_addr x r =
     (if me_dirty (snd x) \<and> fst x div COUNTER_CACHE_LINE_SIZE = flush_addr div COUNTER_CACHE_LINE_SIZE
      then bindE (createCounterPkt cfg (fst x)) (\<lambda>q.
           Inr (fst r @ [(fst x, (snd x)\<lparr>me_dirty := False\<rparr>)], snd r @ [q]))
      else Inr (fst r @ [x], snd r))"

definition flush_set :: "MetaCfg \<Rightarrow> Addr_t \<Rightarrow> 32 word \<times> cache_set \<Rightarrow> (32 word, cache_set) umap \<times> MetaQueueEntry list \<Rightarrow>
    ((32 word, cache_set) umap \<times> MetaQueueEntry list) res" where
  "flush_set cfg flush_addr x r =
     bindE (fold_res (flush_entry cfg flush_addr) (snd x) ([], snd r)) (\<lambda>(m, q). Inr (fst r @ [(fst x, m)], q))"

definition CounterCacheWriteback :: "MetaCfg \<Rightarrow> EmulationPageTable \<Rightarrow> Packet \<Rightarrow> MetaState \<Rightarrow> MetaState res" where
  "CounterCacheWriteback cfg pt pkt s =
     (let flush_vaddr = (if hasVaddr (pk_req pkt) then rq_vaddr (pk_req pkt) else - 1);
          flush_addr = (if hasPaddr (pk_req pkt) then rq_paddr (pk_req pkt) else - 1) in
      bindE (assertE (flush_vaddr \<noteq> - 1) ''false'') (\<lambda>_.
      bindE (if flush_addr = - 1
             then (case translate pt flush_vaddr of None \<Rightarrow> Inl (Assert_Fail ''translate'') | Some a \<Rightarrow> Inr a)
             else Inr flush_addr) (\<lambda>flush_addr.
      bindE (fold_res (flush_set cfg flush_addr) (mc_CounterCache s) ([], mc_CounterWriteQueue s)) (\<lambda>(cc, q).
      Inr (s\<lparr>mc_CounterCache := cc, mc_CounterWriteQueue := q\<rparr>)))))"

section \<open>Least recently used: the abstract policy\<close>

text \<open>A cache seen from outside: its lines, most recently used first.\<close>

definition lru_step :: "nat \<Rightarrow> 'a \<Rightarrow> 'a list \<Rightarrow> 'a list" where
  "lru_step cap a r = take cap (a # removeAll a r)"

text \<open>
  What a user of a cache with this policy relies on.  \<open>inv k s\<close> says that the state is well-formed and
  that \<open>k\<close> more accesses do not overflow an age.
\<close>

locale lru_cache =
  fixes access :: "'a \<Rightarrow> 's \<Rightarrow> 's res"
    and recent :: "'s \<Rightarrow> 'a list"
    and cap :: nat
    and inv :: "nat \<Rightarrow> 's \<Rightarrow> bool"
  assumes access_step: "inv (Suc k) s \<Longrightarrow> \<exists>t. access a s = Inr t \<and> inv k t \<and> recent t = lru_step cap a (recent s)"
    and inv_recent: "inv k s \<Longrightarrow> distinct (recent s) \<and> length (recent s) \<le> cap \<and> 0 < cap"
begin

lemma accesses_run: "inv (length xs + k) s \<Longrightarrow>
    \<exists>t. fold_res access xs s = Inr t \<and> inv k t \<and> recent t = fold (lru_step cap) xs (recent s)"
proof (induction xs arbitrary: s)
  case (Cons a xs)
  then obtain u where u: "access a s = Inr u" "inv (length xs + k) u" "recent u = lru_step cap a (recent s)"
    using access_step [of "length xs + k" s a] by auto
  with Cons.IH [OF u(2)] show ?case by simp
qed simp

lemma hit_after_access: "inv (Suc k) s \<Longrightarrow> access a s = Inr t \<Longrightarrow> a \<in> set (recent t)"
  using access_step [of k s a] inv_recent [of "Suc k" s] by (cases cap) (auto simp: lru_step_def)

text \<open>A line stays cached while fewer than \<open>cap\<close> different lines are accessed after it.\<close>

lemma takeWhile_step:
  assumes "b \<noteq> a" and "a \<in> set r" and "length (takeWhile ((\<noteq>) a) (b # removeAll b r)) < cap"
  shows "a \<in> set (lru_step cap b r)"
    and "takeWhile ((\<noteq>) a) (lru_step cap b r) = b # removeAll b (takeWhile ((\<noteq>) a) r)"
proof -
  let ?l = "b # removeAll b r"
  obtain ys zs where r: "r = ys @ a # zs" "a \<notin> set ys" using split_list_first [OF assms(2)] by blast
  have l: "?l = (b # removeAll b ys) @ a # removeAll b zs" using assms(1) by (simp add: r(1))
  have nin: "a \<notin> set (b # removeAll b ys)" using assms(1) r(2) by auto
  have tw: "takeWhile ((\<noteq>) a) ((b # removeAll b ys) @ a # us) = b # removeAll b ys" for us
    using nin by (subst takeWhile_append2) auto
  have tr: "takeWhile ((\<noteq>) a) r = ys" using r by (subst r(1), subst takeWhile_append2) auto
  have len: "length (b # removeAll b ys) < cap" using assms(3) unfolding l tw .
  then obtain n where n: "cap - length (b # removeAll b ys) = Suc n" by (metis Suc_pred zero_less_diff)
  have "lru_step cap b r = (b # removeAll b ys) @ a # take n (removeAll b zs)"
    unfolding lru_step_def l take_append n using len by simp
  then show "a \<in> set (lru_step cap b r)"
      "takeWhile ((\<noteq>) a) (lru_step cap b r) = b # removeAll b (takeWhile ((\<noteq>) a) r)"
    using tw by (simp_all add: tr)
qed

lemma survives_fold:
  assumes "distinct r" and "a \<in> set r" and "set (takeWhile ((\<noteq>) a) r) \<subseteq> A" and "finite A" and "a \<notin> A"
    and "set bs \<subseteq> A" and "card A < cap"
  shows "a \<in> set (fold (lru_step cap) bs r)"
  using assms(1-3,6)
proof (induction bs arbitrary: r)
  case (Cons b bs)
  have b: "b \<noteq> a" "b \<in> A" using Cons.prems(4) assms(5) by auto
  have "takeWhile ((\<noteq>) a) (b # removeAll b r) = b # removeAll b (takeWhile ((\<noteq>) a) r)" (is "_ = ?t")
  proof -
    obtain ys zs where r: "r = ys @ a # zs" "a \<notin> set ys" using split_list_first [OF Cons.prems(2)] by blast
    have "takeWhile ((\<noteq>) a) (b # removeAll b r) = b # takeWhile ((\<noteq>) a) (removeAll b ys @ a # removeAll b zs)"
      using b(1) by (simp add: r(1))
    also have "\<dots> = b # removeAll b ys" using r(2) by (subst takeWhile_append2) auto
    also have "ys = takeWhile ((\<noteq>) a) r" using r by (subst r(1), subst takeWhile_append2) auto
    finally show ?thesis .
  qed
  moreover have "distinct ?t" using Cons.prems(1) by (simp add: distinct_removeAll)
  moreover have "set ?t \<subseteq> A" using b(2) Cons.prems(3) by auto
  ultimately have "length (takeWhile ((\<noteq>) a) (b # removeAll b r)) \<le> card A"
    using card_mono [OF assms(4)] distinct_card by metis
  then have "length (takeWhile ((\<noteq>) a) (b # removeAll b r)) < cap" using assms(7) by simp
  note step = takeWhile_step [OF b(1) Cons.prems(2) this]
  have "distinct (lru_step cap b r)" using Cons.prems(1) by (simp add: lru_step_def distinct_removeAll)
  moreover have "set (takeWhile ((\<noteq>) a) (lru_step cap b r)) \<subseteq> A"
    unfolding step(2) using b(2) Cons.prems(3) by auto
  ultimately show ?case using Cons.IH [of "lru_step cap b r"] step(1) Cons.prems(4) by simp
qed simp

lemma survives:
  assumes "inv (Suc (length bs + k)) s" and "a \<notin> set bs" and "card (set bs) < cap"
  shows "\<exists>t. fold_res access (a # bs) s = Inr t \<and> a \<in> set (recent t)"
proof -
  have pos: "0 < cap" "distinct (recent s)" using inv_recent [OF assms(1)] by auto
  from accesses_run [of "a # bs" k s] assms(1) obtain t where t: "fold_res access (a # bs) s = Inr t"
    "recent t = fold (lru_step cap) bs (lru_step cap a (recent s))" by auto
  have r: "lru_step cap a (recent s) = a # take (cap - 1) (removeAll a (recent s))"
    using pos(1) by (cases cap) (auto simp: lru_step_def)
  have d: "distinct (lru_step cap a (recent s))" using pos(2) by (simp add: lru_step_def distinct_removeAll)
  have "a \<in> set (fold (lru_step cap) bs (lru_step cap a (recent s)))"
    by (rule survives_fold [OF d, where A = "set bs"]) (use assms in \<open>auto simp: r\<close>)
  with t show ?thesis by simp
qed

lemma survives_any:
  assumes "inv (Suc (length bs)) s" and "card (set bs) < cap"
  shows "\<exists>t. fold_res access (a # bs) s = Inr t \<and> a \<in> set (recent t)"
proof (cases "a \<in> set bs")
  case False
  then show ?thesis using survives [of bs 0 s a] assms by simp
next
  case True
  then obtain xs ys where bs: "bs = xs @ a # ys" "a \<notin> set ys" using split_list_last by fast

  have "inv (length (a # xs) + Suc (length ys)) s" using assms(1) by (simp add: bs(1))
  from accesses_run [OF this] obtain u where u: "fold_res access (a # xs) s = Inr u" "inv (Suc (length ys)) u" by blast
  have "card (set ys) \<le> card (set bs)" by (rule card_mono) (auto simp: bs(1))
  then have "\<exists>t. fold_res access (a # ys) u = Inr t \<and> a \<in> set (recent t)"
    using survives [of ys 0 u a] u(2) bs(2) assms(2) by simp
  moreover have "fold_res access (a # bs) s = fold_res access (a # ys) u"
    using u(1) unfolding bs(1) append_Cons [symmetric] fold_res_append by simp
  ultimately show ?thesis by simp
qed

end

section \<open>One set of a cache follows the policy\<close>

abbreviation age :: "Addr_t \<times> MetaEntry \<Rightarrow> 32 word" where
  "age x \<equiv> me_cnt (snd x)"

definition older :: "Addr_t \<times> MetaEntry \<Rightarrow> Addr_t \<times> MetaEntry" where
  "older x = (fst x, (snd x)\<lparr>me_cnt := age x + 1\<rparr>)"

definition set_ok :: "nat \<Rightarrow> cache_set \<Rightarrow> bool" where
  "set_ok k m = (um_wf m \<and> distinct (map age m) \<and> (\<forall>x\<in>set m. unat (age x) + k < 2 ^ 32) \<and> k < 2 ^ 32)"

definition by_age :: "cache_set \<Rightarrow> cache_set" where
  "by_age m = sort_key age m"

definition recency :: "cache_set \<Rightarrow> Addr_t list" where
  "recency m = map fst (by_age m)"

lemma older_simps [simp]: "fst (older x) = fst x" "me_dirty (snd (older x)) = me_dirty (snd x)"
  by (simp_all add: older_def)

lemma by_age_simps [simp]: "set (by_age m) = set m" "length (by_age m) = length m" "mset (by_age m) = mset m"
    "sorted (map age (by_age m))"
  by (simp_all add: by_age_def)

lemma recency_set [simp]: "set (recency m) = fst ` set m" "length (recency m) = length m"
  by (simp_all add: recency_def)

lemma distinct_recency: "um_wf m \<Longrightarrow> distinct (recency m)"
  unfolding recency_def um_wf_def by (metis by_age_simps(3) mset_eq_imp_distinct_iff mset_map)

lemma distinct_by_age: "distinct (map age m) \<Longrightarrow> distinct (map age (by_age m))"
  by (metis by_age_simps(3) mset_eq_imp_distinct_iff mset_map)

lemma um_wf_by_age: "um_wf m \<Longrightarrow> um_wf (by_age m)"
  using distinct_recency [of m] by (simp add: um_wf_def recency_def)

lemma by_age_eqI:
  assumes "mset xs = mset m" and "distinct (map age m)" and "sorted (map age xs)"
  shows "by_age m = xs"
proof -
  have "inj_on age (set m)" using assms(2) by (simp add: distinct_map)
  then show ?thesis unfolding by_age_def using sort_key_inj_key_eq [of m xs age] assms(1,3) by simp
qed

lemma um_has_recency: "um_has m a \<longleftrightarrow> a \<in> set (recency m)"
  using um_find_None [of m a] by (simp add: um_has_def)

lemma unat_older: "unat (age x) + Suc k < 2 ^ 32 \<Longrightarrow> unat (age (older x)) = Suc (unat (age x))"
proof -
  assume "unat (age x) + Suc k < 2 ^ 32"
  then show ?thesis by (simp add: older_def unat_word_ariths(1))
qed

lemma fst_incr_loop: "fst (incr_loop m mx l) = map older m"
  by (induction m arbitrary: mx l) (auto simp: Let_def older_def)

lemma snd_incr_loop:
  "((\<forall>x\<in>set m. age (older x) \<le> mx) \<and> snd (incr_loop m mx l) = l) \<or>
   (\<exists>x\<in>set m. mx < age (older x) \<and> snd (incr_loop m mx l) = fst x \<and> (\<forall>y\<in>set m. age (older y) \<le> age (older x)))"
proof (induction m arbitrary: mx l)
  case (Cons z m)
  show ?case
  proof (cases "mx < age (older z)")
    case True
    with Cons.IH [of "age (older z)" "fst z"] show ?thesis
      by (auto simp: Let_def older_def intro: order.strict_trans less_imp_le)
  next
    case False
    with Cons.IH [of mx l] show ?thesis
      by (auto simp: Let_def older_def not_less intro: order_trans less_imp_le)
  qed
qed simp

lemma age_older_less:
  assumes "set_ok (Suc k) m" and "x \<in> set m" and "y \<in> set m"
  shows "age (older x) < age (older y) \<longleftrightarrow> age x < age y"
  using assms unat_older [of x k] unat_older [of y k] by (simp add: word_less_nat_alt set_ok_def)

lemma age_older_pos: "set_ok (Suc k) m \<Longrightarrow> x \<in> set m \<Longrightarrow> 0 < age (older x)"
  using unat_older [of x k] by (simp add: word_less_nat_alt set_ok_def)

lemma set_ok_older:
  assumes "set_ok (Suc k) m"
  shows "set_ok k (map older m)" and "by_age (map older m) = map older (by_age m)"
proof -
  have le: "age (older x) \<le> age (older y) \<longleftrightarrow> age x \<le> age y" if "x \<in> set m" "y \<in> set m" for x y
    using age_older_less [OF assms that(2) that(1)] by (simp add: not_less [symmetric])
  have inj: "age (older x) = age (older y) \<longleftrightarrow> age x = age y" if "x \<in> set m" "y \<in> set m" for x y
    using le [OF that] le [OF that(2) that(1)] by (auto simp: order_eq_iff)
  have fsts: "map fst (map older m) = map fst m" by simp
  have d: "distinct (map age m)" "distinct m" using assms by (auto simp: set_ok_def distinct_map)
  have i: "inj_on (\<lambda>x. age (older x)) (set m)"
    using d(1) inj by (auto simp: inj_on_def distinct_map)
  have dist: "distinct (map age (map older m))"
    using i d(2) by (simp add: distinct_map comp_def)
  show "set_ok k (map older m)"
    unfolding set_ok_def um_wf_def fsts
    using assms dist unat_older by (auto simp: set_ok_def um_wf_def)
  show "by_age (map older m) = map older (by_age m)"
  proof (rule by_age_eqI [OF _ dist])
    have "sorted_wrt (\<lambda>x y. age x \<le> age y) (by_age m)" using by_age_simps(4) [of m] by (simp add: sorted_wrt_map)
    then have "sorted_wrt (\<lambda>x y. age (older x) \<le> age (older y)) (by_age m)"
      by (rule sorted_wrt_mono_rel [rotated]) (use le in auto)
    then show "sorted (map age (map older (by_age m)))" by (simp add: sorted_wrt_map)
  qed simp
qed

lemma incr_cnts_ok:
  assumes "set_ok (Suc k) m"
  shows "incr_cnts m = (map older m, snd (incr_cnts m))" and "m \<noteq> [] \<Longrightarrow> snd (incr_cnts m) = last (recency m)"
proof -
  show "incr_cnts m = (map older m, snd (incr_cnts m))"
    unfolding incr_cnts_def using fst_incr_loop [of m 0 "- 1"] by (metis prod.collapse)
  assume ne: "m \<noteq> []"
  then have nes: "by_age m \<noteq> []" by (metis by_age_simps(2) length_0_conv)
  let ?z = "last (by_age m)"
  have z: "?z \<in> set m" using last_in_set [OF nes] by simp
  have "\<not> (\<forall>x\<in>set m. age (older x) \<le> 0)" using age_older_pos [OF assms] z by fastforce
  with snd_incr_loop [of m 0 "- 1"] obtain x where x: "x \<in> set m" "snd (incr_cnts m) = fst x"
      "\<forall>y\<in>set m. age (older y) \<le> age (older x)" by (auto simp: incr_cnts_def)
  have "age ?z \<le> age x" using x(3) z age_older_less [OF assms x(1) z] by (simp add: not_less [symmetric])
  moreover have "age x \<le> age ?z"
  proof -
    obtain i where i: "i < length (by_age m)" "by_age m ! i = x" using x(1) by (metis by_age_simps(1) in_set_conv_nth)
    then have "map age (by_age m) ! i \<le> map age (by_age m) ! (length m - 1)"
      by (intro sorted_nth_mono) auto
    with i nes show ?thesis by (simp add: last_conv_nth)
  qed
  ultimately have "x = ?z" using assms x(1) z by (auto simp: set_ok_def distinct_map dest: inj_onD)
  with x(2) nes show "snd (incr_cnts m) = last (recency m)" by (simp add: recency_def last_map)
qed

definition set_access :: "nat \<Rightarrow> bool \<Rightarrow> Addr_t \<Rightarrow> cache_set \<Rightarrow> (cache_set \<times> Addr_t option) res" where
  "set_access cap wr a m =
     (let (m1, LRU) = incr_cnts m in
      if um_has m a then bindE (reset_entry wr a m1) (\<lambda>m2. Inr (m2, None)) else insert_evict cap a wr LRU m1)"

lemma mset_um_put_present: "um_wf m \<Longrightarrow> um_find m a = Some e \<Longrightarrow>
    mset (um_put a v m) = mset ((a, v) # filter (\<lambda>x. fst x \<noteq> a) m)"
proof (induction m)
  case (Cons x m)
  show ?case
  proof (cases "fst x = a")
    case True
    have "filter (\<lambda>x. fst x \<noteq> a) m = m"
      using Cons.prems(1) True by (intro filter_True) (auto simp: um_wf_def image_iff)
    with True show ?thesis by (cases x) (auto simp: um_put_def)
  next
    case False
    with Cons show ?thesis by (cases x) (auto simp: um_put_def um_wf_def um_find_def)
  qed
qed simp

lemma um_erase_filter: "um_erase a m = filter (\<lambda>x. fst x \<noteq> a) m"
  by (induction m) (auto simp: um_erase_def)

lemma front_ok:
  assumes ok: "set_ok (Suc k) m" and ms: "mset m' = mset ((a, \<lparr>me_cnt = 0, me_dirty = d\<rparr>) # filter P (map older m))"
    and fresh: "a \<notin> fst ` set (filter P (map older m))"
  shows "set_ok k m'" and "by_age m' = (a, \<lparr>me_cnt = 0, me_dirty = d\<rparr>) # filter P (map older (by_age m))"
proof -
  let ?e = "(a, \<lparr>me_cnt = 0, me_dirty = d\<rparr>)" and ?o = "filter P (map older m)"
  have old: "set_ok k (map older m)" by (rule set_ok_older(1) [OF ok])
  have set': "set m' = set (?e # ?o)" using ms by (rule mset_eq_setD)
  have "distinct (map age ?o)" using old by (simp add: set_ok_def distinct_map_filter)
  moreover have "0 \<notin> age ` set ?o"
  proof
    assume "0 \<in> age ` set ?o"
    then obtain x where x: "x \<in> set m" "age (older x) = 0" by auto
    with age_older_pos [OF ok x(1)] show False by simp
  qed
  ultimately have "distinct (map age (?e # ?o))" by auto
  moreover have "mset (map age m') = mset (map age (?e # ?o))" using ms by simp
  ultimately have dist: "distinct (map age m')" by (metis mset_eq_imp_distinct_iff)
  have "distinct (map fst ?o)" using old by (simp add: set_ok_def um_wf_def distinct_map_filter)
  with fresh have "distinct (map fst (?e # ?o))" by auto
  moreover have "mset (map fst m') = mset (map fst (?e # ?o))" using ms by simp
  ultimately have "um_wf m'" unfolding um_wf_def by (metis mset_eq_imp_distinct_iff)
  moreover have "unat (age x) + k < 2 ^ 32" if "x \<in> set m'" for x
  proof -
    from that set' have "x = ?e \<or> x \<in> set (map older m)" by auto
    with old show ?thesis unfolding set_ok_def by fastforce
  qed
  ultimately show "set_ok k m'" using dist old unfolding set_ok_def by blast
  show "by_age m' = ?e # filter P (map older (by_age m))"
  proof (rule by_age_eqI [OF _ dist])
    show "mset (?e # filter P (map older (by_age m))) = mset m'" using ms by simp
    have "sorted (map age (by_age (map older m)))" by simp
    then have "sorted (map age (filter P (map older (by_age m))))"
      unfolding set_ok_older(2) [OF ok] by (rule sorted_filter)
    then show "sorted (map age (?e # filter P (map older (by_age m))))" by simp
  qed
qed

lemma recency_front:
  assumes "by_age m' = (a, e) # filter (\<lambda>x. fst x \<noteq> b) (map older (by_age m))"
  shows "recency m' = a # removeAll b (recency m)"
proof -
  have "map fst (filter (\<lambda>x. fst x \<noteq> b) (map older xs)) = removeAll b (map fst xs)" for xs
    by (induction xs) auto
  then show ?thesis using assms by (simp add: recency_def)
qed

lemma removeAll_last: "distinct xs \<Longrightarrow> xs \<noteq> [] \<Longrightarrow> removeAll (last xs) xs = butlast xs"
proof (induction xs rule: rev_induct)
  case (snoc x xs)
  then show ?case by (simp add: removeAll_id)
qed simp

lemma um_find_older: "um_find (map older m) a = map_option (\<lambda>e. e\<lparr>me_cnt := me_cnt e + 1\<rparr>) (um_find m a)"
  by (induction m) (auto simp: um_find_def older_def)

text \<open>The oldest line, and whether it has to be written back.\<close>

definition victim :: "nat \<Rightarrow> Addr_t \<Rightarrow> cache_set \<Rightarrow> Addr_t option" where
  "victim cap a m =
     (if a \<notin> set (recency m) \<and> length m = cap \<and> (\<exists>e. um_find m (last (recency m)) = Some e \<and> me_dirty e)
      then Some (last (recency m)) else None)"

lemma set_access_hit:
  assumes "set_ok (Suc k) m" and "um_find m a = Some e"
  shows "\<exists>m'. set_access cap wr a m = Inr (m', None) \<and> set_ok k m' \<and> length m' = length m \<and>
    recency m' = a # removeAll a (recency m)"
proof -
  let ?d = "wr \<or> me_dirty e"
  let ?m' = "um_put a \<lparr>me_cnt = 0, me_dirty = ?d\<rparr> (map older m)"
  have f: "um_find (map older m) a = Some (e\<lparr>me_cnt := me_cnt e + 1\<rparr>)" using assms(2) by (simp add: um_find_older)
  have run: "set_access cap wr a m = Inr (?m', None)"
    unfolding set_access_def using f assms(2)
    by (subst incr_cnts_ok(1) [OF assms(1)]) (simp add: reset_entry_def um_has_def)
  have "um_wf (map older m)" using set_ok_older(1) [OF assms(1)] by (simp add: set_ok_def)
  note front = front_ok [OF assms(1) mset_um_put_present [OF this f, of "\<lparr>me_cnt = 0, me_dirty = ?d\<rparr>"]]
  have fr: "set_ok k ?m'" "by_age ?m' = (a, \<lparr>me_cnt = 0, me_dirty = ?d\<rparr>) # filter (\<lambda>x. fst x \<noteq> a) (map older (by_age m))"
    using front by auto
  have "length (um_put a v m) = length m" if "um_find m a \<noteq> None" for m and v :: MetaEntry
    using that by (induction m) (auto simp: um_put_def um_find_def split: if_splits)
  then have "length ?m' = length m" using f by simp
  with run fr recency_front [OF fr(2)] show ?thesis by blast
qed

lemma set_access_miss:
  assumes ok: "set_ok (Suc k) m" and n: "um_find m a = None" and len: "length m \<le> cap" and pos: "0 < cap"
  shows "\<exists>m'. set_access cap wr a m = Inr (m', victim cap a m) \<and> set_ok k m' \<and> length m' \<le> cap \<and>
    recency m' = lru_step cap a (recency m)"
proof -
  let ?e = "\<lparr>me_cnt = 0, me_dirty = wr\<rparr>" and ?l = "last (recency m)"
  let ?m1 = "map older m @ [(a, ?e)]"
  have f: "um_find (map older m) a = None" using n by (simp add: um_find_older)
  have nin: "a \<notin> set (recency m)" using n um_find_None [of m a] by simp
  have put: "um_put a ?e (map older m) = ?m1" by (rule um_put_fresh [OF f])
  have acc: "set_access cap wr a m = insert_evict cap a wr (snd (incr_cnts m)) (map older m)"
    unfolding set_access_def using n by (subst incr_cnts_ok(1) [OF ok]) (simp add: um_has_def)
  show ?thesis
  proof (cases "length m < cap")
    case True
    have "set_access cap wr a m = Inr (?m1, victim cap a m)"
      using True unfolding acc insert_evict_def put by (simp add: victim_def)
    moreover
    have flt: "filter (\<lambda>x. fst x \<noteq> a) (map older m) = map older m"
      using nin by (intro filter_True) (auto simp: image_iff)
    have "mset ?m1 = mset ((a, ?e) # filter (\<lambda>x. fst x \<noteq> a) (map older m))"
      "a \<notin> fst ` set (filter (\<lambda>x. fst x \<noteq> a) (map older m))" by (simp add: flt) auto
    note fr = front_ok [OF ok this]
    moreover have "a # removeAll a (recency m) = lru_step cap a (recency m)"
      using True nin by (simp add: lru_step_def)
    ultimately show ?thesis using True recency_front [OF fr(2)] by (intro exI [of _ ?m1]) auto
  next
    case False
    with len have full: "length m = cap" by simp
    have "length (recency m) \<noteq> 0" using full pos by simp
    then have ne: "m \<noteq> []" "recency m \<noteq> []" by (force simp: recency_def by_age_def)+
    have lru: "snd (incr_cnts m) = ?l" by (rule incr_cnts_ok(2) [OF ok ne(1)])
    have lin: "?l \<in> set (recency m)" using ne(2) by (rule last_in_set)
    with nin have la: "?l \<noteq> a" by auto
    from lin obtain v where v: "um_find m ?l = Some v" using um_find_None [of m ?l] by (cases "um_find m ?l") auto
    let ?m2 = "um_erase ?l ?m1"
    have m2: "?m2 = filter (\<lambda>x. fst x \<noteq> ?l) (map older m) @ [(a, ?e)]"
      using la by (simp add: um_erase_filter)
    have v1: "um_find ?m1 ?l = Some (v\<lparr>me_cnt := me_cnt v + 1\<rparr>)"
      using v la by (simp add: um_find_def map_add_def um_find_older [unfolded um_find_def])
    have ms: "mset ?m2 = mset ((a, ?e) # filter (\<lambda>x. fst x \<noteq> ?l) (map older m))"
      "a \<notin> fst ` set (filter (\<lambda>x. fst x \<noteq> ?l) (map older m))"
    proof -
      show "mset ?m2 = mset ((a, ?e) # filter (\<lambda>x. fst x \<noteq> ?l) (map older m))" unfolding m2 by simp
      have "fst ` set (filter (\<lambda>x. fst x \<noteq> ?l) (map older m)) \<subseteq> fst ` set (map older m)" by auto
      also have "\<dots> = set (recency m)" by (simp add: image_image)
      finally show "a \<notin> fst ` set (filter (\<lambda>x. fst x \<noteq> ?l) (map older m))" using nin by blast
    qed
    note fr = front_ok [OF ok ms]
    have d: "distinct (recency m)" using ok by (simp add: set_ok_def distinct_recency)
    have rec: "recency ?m2 = a # butlast (recency m)"
      using recency_front [OF fr(2)] removeAll_last [OF d ne(2)] by simp
    then have l2: "length ?m2 = cap" using full pos recency_set(2) [of ?m2] by simp
    have "set_access cap wr a m = Inr (?m2, victim cap a m)"
      unfolding acc lru insert_evict_def put using full v1 l2 v nin by (simp add: victim_def)
    moreover have "recency ?m2 = lru_step cap a (recency m)"
      using full pos nin rec by (cases cap) (simp_all add: lru_step_def butlast_conv_take)
    ultimately show ?thesis using fr(1) l2 by (intro exI [of _ ?m2]) simp
  qed
qed

lemma victim_hit: "a \<in> set (recency m) \<Longrightarrow> victim cap a m = None"
  by (simp add: victim_def)

lemma set_access_ok:
  assumes "set_ok (Suc k) m" and "length m \<le> cap" and "0 < cap"
  shows "\<exists>m'. set_access cap wr a m = Inr (m', victim cap a m) \<and> set_ok k m' \<and> length m' \<le> cap \<and>
    recency m' = lru_step cap a (recency m)"
proof (cases "um_find m a")
  case None
  then show ?thesis using set_access_miss [OF assms(1) _ assms(2,3)] by blast
next
  case (Some e)
  from set_access_hit [OF assms(1) Some, of cap wr] obtain m' where
    m': "set_access cap wr a m = Inr (m', None)" "set_ok k m'" "length m' = length m"
      "recency m' = a # removeAll a (recency m)" by blast
  have "a \<in> set (recency m)" using Some um_find_None [of m a] by auto
  then have "victim cap a m = None" by (rule victim_hit)
  moreover have "length (recency m') = length m" using m'(3) by simp
  then have "lru_step cap a (recency m) = recency m'" using m'(4) assms(2) by (simp add: lru_step_def)
  ultimately show ?thesis using m' assms(2) by auto
qed

interpretation meta_set: lru_cache "\<lambda>a m. bindE (set_access cap wr a m) (\<lambda>r. Inr (fst r))" recency cap
    "\<lambda>k m. set_ok k m \<and> length m \<le> cap \<and> 0 < cap" for cap wr
proof (standard, goal_cases)
  case (1 k m a)
  then show ?case using set_access_ok [of k m cap wr a] by auto
next
  case (2 k m)
  then show ?case by (simp add: set_ok_def distinct_recency)
qed

section \<open>The counter cache follows the policy\<close>

definition cfg_ok :: "MetaCfg \<Rightarrow> bool" where
  "cfg_ok cfg = (num_sets cfg \<noteq> 0 \<and> cfg_burstSize cfg \<noteq> 0 \<and> 0 < cfg_VERIFICATION_CACHE_SIZE cfg)"

definition set_index :: "MetaCfg \<Rightarrow> Addr_t \<Rightarrow> 32 word" where
  "set_index cfg a = ucast (a div 512 mod ucast (num_sets cfg))"

definition counter_ok :: "MetaCfg \<Rightarrow> nat \<Rightarrow> MetaState \<Rightarrow> bool" where
  "counter_ok cfg k s = (\<forall>i. set_ok k (counter_set i s) \<and> length (counter_set i s) \<le> 16 \<and>
     (\<forall>a\<in>set (recency (counter_set i s)). counter_line a = a \<and> set_index cfg a = i))"

lemma getIndex_ok: "cfg_ok cfg \<Longrightarrow> getIndex cfg a = Inr (set_index cfg a)"
proof -
  assume ok: "cfg_ok cfg"
  let ?n = "ucast (num_sets cfg) :: Addr_t" and ?l = "a div 512"
  have n32: "unat (num_sets cfg) < 2 ^ LENGTH(32)" by (rule unsigned_less)
  then have "unat (num_sets cfg) < 2 ^ 64" by simp
  then have un: "unat ?n = unat (num_sets cfg)"
    by (simp add: unsigned_ucast_eq take_bit_word_eq_self take_bit_nat_eq_self)
  moreover have "unat (num_sets cfg) \<noteq> 0" using ok by (simp add: cfg_ok_def unat_eq_0)
  ultimately have n0: "?n \<noteq> 0" by (metis unat_0)
  have md: "?l - ?l div ?n * ?n = ?l mod ?n" by (simp add: minus_div_mult_eq_mod)
  have "?l mod ?n < ?n" using n0 by (simp add: word_mod_less_divisor word_gt_0)
  then have lt: "unat (?l mod ?n) < unat (num_sets cfg)" by (simp add: word_less_nat_alt un)
  from n32 have "unat (set_index cfg a) = unat (?l mod ?n)"
    unfolding set_index_def using lt by (simp add: unsigned_ucast_eq unsigned_take_bit_eq take_bit_nat_eq_self)
  then have "set_index cfg a < num_sets cfg" using lt by (simp add: word_less_nat_alt)
  with ok show ?thesis by (simp add: getIndex_def cfg_ok_def Let_def md set_index_def)
qed

lemma counter_line_idem [simp]: "counter_line (counter_line a) = counter_line a"
proof -
  have "counter_line a = push_bit 9 (drop_bit 9 a)" for a :: Addr_t
    by (simp add: counter_line_def push_bit_eq_mult drop_bit_eq_div)
  then show ?thesis
    by (simp add: bit_eq_iff bit_simps)
qed

lemma mk_Packet_cmd [simp]: "pk_cmd (mk_Packet r c) = c"
  by (simp add: mk_Packet_def)

lemma meta_pkt_ok: "cfg_ok cfg \<Longrightarrow> \<exists>q. meta_pkt cfg a c val = Inr q \<and> pk_addr (mq_pkt q) = a \<and> pk_cmd (mq_pkt q) = c"
  by (simp add: meta_pkt_def mk_Packet_phys divCeil_def cfg_ok_def)

lemma counter_miss_pkt_ok: "cfg_ok cfg \<Longrightarrow> \<exists>q. counter_miss_pkt cfg a = Inr q \<and>
    pk_addr (mq_pkt q) = a div 8 + COUNTER_ADDR_DIFF \<and> isRead (mq_pkt q)"
  using meta_pkt_ok [of cfg "a div 8 + COUNTER_ADDR_DIFF" ReadReq "[0, 0]"]
  by (auto simp: counter_miss_pkt_def mark_counter_def isRead_def testCmdAttrib_def)

lemma createCounterPkt_ok: "cfg_ok cfg \<Longrightarrow> \<exists>q. createCounterPkt cfg a = Inr q \<and>
    pk_addr (mq_pkt q) = a div 8 + COUNTER_ADDR_DIFF"
  using meta_pkt_ok [of cfg "a div 8 + COUNTER_ADDR_DIFF" WriteReq "[1]"]
  by (auto simp: createCounterPkt_def mark_counter_def)

lemma counter_set_put [simp]: "counter_set i (put_counter_set j m s) = (if i = j then m else counter_set i s)"
  by (simp add: counter_set_def put_counter_set_def um_find_put)

lemma put_counter_set_simps [simp]:
  "mc_CounterCacheMissQueue (put_counter_set i m s) = mc_CounterCacheMissQueue s"
  "mc_CounterCacheEvictionQueue (put_counter_set i m s) = mc_CounterCacheEvictionQueue s"
  "mc_VerificationCache (put_counter_set i m s) = mc_VerificationCache s"
  "mc_totalCounterCacheRead (put_counter_set i m s) = mc_totalCounterCacheRead s"
  "mc_totalCounterCacheReadHit (put_counter_set i m s) = mc_totalCounterCacheReadHit s"
  by (simp_all add: put_counter_set_def)

lemma counter_set_cong [simp]:
  "counter_set i (s\<lparr>mc_CounterCacheMissQueue := q\<rparr>) = counter_set i s"
  "counter_set i (s\<lparr>mc_totalCounterCacheRead := n\<rparr>) = counter_set i s"
  "counter_set i (s\<lparr>mc_totalCounterCacheReadHit := n\<rparr>) = counter_set i s"
  "counter_set i (s\<lparr>mc_totalCounterCacheWrite := n\<rparr>) = counter_set i s"
  "counter_set i (s\<lparr>mc_EvictionCnt := c, mc_CounterCacheEvictionQueue := q\<rparr>) = counter_set i s"
  by (simp_all add: counter_set_def)

text \<open>The addresses of the packets in a queue.\<close>

definition queue_addrs :: "MetaQueueEntry list \<Rightarrow> Addr_t list" where
  "queue_addrs q = map (\<lambda>x. pk_addr (mq_pkt x)) q"

lemma queue_addrs_simps [simp]: "queue_addrs [] = []" "queue_addrs (q @ r) = queue_addrs q @ queue_addrs r"
    "queue_addrs (x # q) = pk_addr (mq_pkt x) # queue_addrs q" "queue_addrs q = [] \<longleftrightarrow> q = []"
  by (simp_all add: queue_addrs_def)

lemma counter_evict_ok: "cfg_ok cfg \<Longrightarrow> \<exists>t. counter_evict cfg v s = Inr t \<and>
    (\<forall>i. counter_set i t = counter_set i s) \<and>
    mc_CounterCacheMissQueue t = mc_CounterCacheMissQueue s \<and>
    queue_addrs (mc_CounterCacheEvictionQueue t) =
      queue_addrs (mc_CounterCacheEvictionQueue s) @ (case v of None \<Rightarrow> [] | Some a \<Rightarrow> [a div 8 + COUNTER_ADDR_DIFF])"
  using createCounterPkt_ok [of cfg "the v"] by (cases v) (auto simp: counter_evict_def)

text \<open>An access to the counter cache changes its set as one step of the policy.\<close>

lemma set_access_split:
  assumes "set_ok (Suc k) m"
  shows "set_access cap wr a m = (if um_has m a then bindE (reset_entry wr a (map older m)) (\<lambda>m2. Inr (m2, None))
     else insert_evict cap a wr (snd (incr_cnts m)) (map older m))"
  unfolding set_access_def by (subst incr_cnts_ok(1) [OF assms]) simp

lemma set_ok_mono: "set_ok (Suc k) m \<Longrightarrow> set_ok k m"
  by (auto simp: set_ok_def)

lemma counter_ok_put:
  assumes "counter_ok cfg (Suc k) s" and "set_ok k m" and "length m \<le> 16"
    and "recency m = lru_step 16 a (recency (counter_set i s))" and "counter_line a = a" and "set_index cfg a = i"
    and "\<forall>j. counter_set j t = (if j = i then m else counter_set j s)"
  shows "counter_ok cfg k t"
proof -
  have sub: "set (recency m) \<subseteq> insert a (set (recency (counter_set i s)))"
    unfolding assms(4) lru_step_def by (auto dest: in_set_takeD)
  have "set_ok k (counter_set j s) \<and> length (counter_set j s) \<le> 16 \<and>
      (\<forall>a\<in>set (recency (counter_set j s)). counter_line a = a \<and> set_index cfg a = j)" for j
    using assms(1) set_ok_mono unfolding counter_ok_def by blast
  note old = this
  have "\<forall>b\<in>set (recency m). counter_line b = b \<and> set_index cfg b = i"
    using old [of i] sub assms(5,6) by blast
  with old assms(2,3,7) show ?thesis unfolding counter_ok_def by (simp del: recency_set)
qed

section \<open>Dirty marks\<close>

definition clean_set :: "cache_set \<Rightarrow> bool" where
  "clean_set m = (\<forall>x\<in>set m. \<not> me_dirty (snd x))"

lemma um_put_map: "um_wf m \<Longrightarrow> um_find m a = Some e \<Longrightarrow> um_put a v m = map (\<lambda>x. if fst x = a then (a, v) else x) m"
proof (induction m)
  case (Cons x m)
  show ?case
  proof (cases "fst x = a")
    case True
    have "map (\<lambda>x. if fst x = a then (a, v) else x) m = m"
      using Cons.prems(1) True by (intro map_idI) (auto simp: um_wf_def image_iff)
    with True show ?thesis by (cases x) (auto simp: um_put_def)
  next
    case False
    with Cons show ?thesis by (cases x) (auto simp: um_put_def um_wf_def um_find_def)
  qed
qed simp

lemma put_same_age:
  assumes "set_ok k m" and "um_find m a = Some e"
  shows "set_ok k (um_put a (e\<lparr>me_dirty := d\<rparr>) m)" and "recency (um_put a (e\<lparr>me_dirty := d\<rparr>) m) = recency m"
    and "length (um_put a (e\<lparr>me_dirty := d\<rparr>) m) = length m"
proof -
  let ?g = "\<lambda>x. if fst x = a then (a, e\<lparr>me_dirty := d\<rparr>) else x"
  have wf: "um_wf m" using assms(1) by (simp add: set_ok_def)
  note put = um_put_map [OF wf assms(2)]
  have g: "age (?g x) = age x \<and> fst (?g x) = fst x" if "x \<in> set m" for x
    using that assms(2) um_find_iff [OF wf, of "fst x" "snd x"] by auto
  have ages: "map age (map ?g xs) = map age xs" and fsts: "map fst (map ?g xs) = map fst xs" if "set xs \<subseteq> set m" for xs
    using g that by (induction xs) auto
  have "\<forall>x\<in>set (map ?g m). unat (age x) + k < 2 ^ 32"
  proof
    fix y assume "y \<in> set (map ?g m)"
    then obtain x where x: "x \<in> set m" "y = ?g x" unfolding set_map by blast
    with g [OF x(1)] have "x \<in> set m" "age y = age x" by simp_all
    then show "unat (age y) + k < 2 ^ 32" using assms(1) by (simp add: set_ok_def)
  qed
  then have "set_ok k (map ?g m)"
    using assms(1) ages [of m] fsts [of m] unfolding set_ok_def um_wf_def by (simp del: map_map)
  then show ok: "set_ok k (um_put a (e\<lparr>me_dirty := d\<rparr>) m)" by (simp add: put)
  have "by_age (map ?g m) = map ?g (by_age m)"
    by (rule by_age_eqI) (use assms(1) ages [of m] ages [of "by_age m"] in \<open>auto simp: set_ok_def simp del: map_map\<close>)
  then show "recency (um_put a (e\<lparr>me_dirty := d\<rparr>) m) = recency m"
    using fsts [of "by_age m"] by (simp add: put recency_def del: map_map)
  show "length (um_put a (e\<lparr>me_dirty := d\<rparr>) m) = length m" by (simp add: put)
qed

lemma set_um_put: "set (um_put a v m) \<subseteq> insert (a, v) (set m)"
  by (induction m) (auto simp: um_put_def split: if_splits)

lemma set_access_clean:
  assumes "set_ok (Suc k) m" and "clean_set m" and "set_access cap wr a m = Inr (m', v)"
  shows "\<forall>x\<in>set m'. fst x = a \<or> \<not> me_dirty (snd x)" and "\<not> wr \<Longrightarrow> clean_set m'"
proof -
  have old: "clean_set (map older m)" using assms(2) by (auto simp: clean_set_def)
  have "\<exists>d. set m' \<subseteq> insert (a, \<lparr>me_cnt = 0, me_dirty = d\<rparr>) (set (map older m)) \<and> (d \<longrightarrow> wr)"
  proof (cases "um_has m a")
    case True
    then obtain e where e: "um_find (map older m) a = Some e" "m' = um_put a \<lparr>me_cnt = 0, me_dirty = wr \<or> me_dirty e\<rparr> (map older m)"
      using assms(3) by (auto simp: set_access_split [OF assms(1)] reset_entry_def bindE_eq_Inr split: option.splits)
    have "(a, e) \<in> set (map older m)" by (rule map_of_SomeD) (use e(1) in \<open>simp add: um_find_def\<close>)
    then have "\<not> me_dirty e" using old unfolding clean_set_def by (metis snd_conv)
    then show ?thesis using set_um_put [of a _ "map older m"] e(2) by (intro exI [of _ wr]) auto
  next
    case False
    then have "m' = um_put a \<lparr>me_cnt = 0, me_dirty = wr\<rparr> (map older m) \<or>
        (\<exists>l. m' = um_erase l (um_put a \<lparr>me_cnt = 0, me_dirty = wr\<rparr> (map older m)))"
      using assms(3) by (auto simp: set_access_split [OF assms(1)] insert_evict_def Let_def bindE_eq_Inr split: if_splits option.splits)
    then show ?thesis using set_um_put [of a "\<lparr>me_cnt = 0, me_dirty = wr\<rparr>" "map older m"]
      by (intro exI [of _ wr]) (auto simp: um_erase_filter)
  qed
  then obtain d where d: "set m' \<subseteq> insert (a, \<lparr>me_cnt = 0, me_dirty = d\<rparr>) (set (map older m))" "d \<longrightarrow> wr" by blast
  then show "\<forall>x\<in>set m'. fst x = a \<or> \<not> me_dirty (snd x)" using old unfolding clean_set_def by fastforce
  show "clean_set m'" if "\<not> wr" using d old that unfolding clean_set_def by fastforce
qed

lemma victim_clean: "clean_set m \<Longrightarrow> um_wf m \<Longrightarrow> victim cap a m = None"
  by (auto simp: victim_def clean_set_def um_find_iff)

lemma counter_clean_ok:
  assumes "counter_ok cfg k s" and "a \<in> set (recency (counter_set i s))"
  shows "\<exists>t. counter_clean i a s = Inr t \<and> counter_ok cfg k t \<and> (\<forall>j. recency (counter_set j t) = recency (counter_set j s)) \<and>
    mc_CounterCacheEvictionQueue t = mc_CounterCacheEvictionQueue s \<and> mc_CounterCacheMissQueue t = mc_CounterCacheMissQueue s \<and>
    (\<forall>j. j \<noteq> i \<longrightarrow> counter_set j t = counter_set j s) \<and>
    ((\<forall>x\<in>set (counter_set i s). fst x = a \<or> \<not> me_dirty (snd x)) \<longrightarrow> clean_set (counter_set i t))"
proof -
  let ?m = "counter_set i s"
  obtain e where e: "um_find ?m a = Some e" using assms(2) um_find_None [of ?m a] by auto
  have sok: "set_ok k ?m" using assms(1) by (simp add: counter_ok_def)
  let ?m' = "um_put a (e\<lparr>me_dirty := False\<rparr>) ?m"
  note p = put_same_age [OF sok e, of False]
  have run: "counter_clean i a s = Inr (put_counter_set i ?m' s)" by (simp add: counter_clean_def e)
  have "counter_ok cfg k (put_counter_set i ?m' s)"
    using assms(1) p unfolding counter_ok_def by (simp del: recency_set)
  moreover have "clean_set ?m'" if "\<forall>x\<in>set ?m. fst x = a \<or> \<not> me_dirty (snd x)"
    using that um_put_map [of ?m a e] sok e by (auto simp: clean_set_def set_ok_def)
  ultimately show ?thesis using run p(2) by auto
qed

section \<open>Accesses to the counter cache\<close>

text \<open>The part that reads and writes share: \<open>hs\<close> is the state in which a hit stores its set.\<close>

definition counter_core :: "MetaCfg \<Rightarrow> bool \<Rightarrow> Addr_t \<Rightarrow> 32 word \<Rightarrow> MetaState \<Rightarrow> MetaState \<Rightarrow> MetaState res" where
  "counter_core cfg wr a i hs s =
     (if um_has (counter_set i s) a
      then bindE (reset_entry wr a (map older (counter_set i s))) (\<lambda>m. Inr (put_counter_set i m hs))
      else bindE (counter_miss_pkt cfg a) (\<lambda>q. counter_miss cfg i a wr (snd (incr_cnts (counter_set i s)))
             ((put_counter_set i (map older (counter_set i s)) s)\<lparr>mc_CounterCacheMissQueue := mc_CounterCacheMissQueue s @ [q]\<rparr>)))"

text \<open>What one access does to the whole counter cache; \<open>wr\<close> tells a write from a read.\<close>

definition counter_step :: "MetaCfg \<Rightarrow> nat \<Rightarrow> Addr_t \<Rightarrow> MetaState \<Rightarrow> bool \<Rightarrow> MetaState \<Rightarrow> bool" where
  "counter_step cfg k p s isHit t =
     (let a = counter_line p; i = set_index cfg a; m = counter_set i s in
      isHit = (a \<in> set (recency m)) \<and> counter_ok cfg k t \<and>
      (\<forall>j. recency (counter_set j t) = (if j = i then lru_step 16 a (recency m) else recency (counter_set j s))) \<and>
      queue_addrs (mc_CounterCacheEvictionQueue t) = queue_addrs (mc_CounterCacheEvictionQueue s) @
        (case victim 16 a m of None \<Rightarrow> [] | Some v \<Rightarrow> [v div 8 + COUNTER_ADDR_DIFF]) \<and>
      queue_addrs (mc_CounterCacheMissQueue t) = queue_addrs (mc_CounterCacheMissQueue s) @
        (if isHit then [] else [a div 8 + COUNTER_ADDR_DIFF]))"

lemma counter_ok_read [simp]: "counter_ok cfg k (s\<lparr>mc_totalCounterCacheRead := n\<rparr>) = counter_ok cfg k s"
  by (simp add: counter_ok_def)

lemma counter_ok_write [simp]: "counter_ok cfg k (s\<lparr>mc_totalCounterCacheRead := n, mc_totalCounterCacheWrite := w\<rparr>) = counter_ok cfg k s"
  by (simp add: counter_ok_def)

lemma counter_core_ok:
  assumes cfg: "cfg_ok cfg" and ok: "counter_ok cfg (Suc k) s" and a: "a = counter_line p" and i: "i = set_index cfg a"
    and upd: "\<And>j. j \<noteq> i \<Longrightarrow> counter_set j hs = counter_set j s"
      "mc_CounterCacheEvictionQueue hs = mc_CounterCacheEvictionQueue s"
      "mc_CounterCacheMissQueue hs = mc_CounterCacheMissQueue s"
  shows "\<exists>t. counter_core cfg wr a i hs s = Inr t \<and> counter_step cfg k p s (um_has (counter_set i s) a) t \<and>
    (\<forall>j. j \<noteq> i \<longrightarrow> counter_set j t = counter_set j s) \<and>
    set_access 16 wr a (counter_set i s) = Inr (counter_set i t, victim 16 a (counter_set i s))"
proof -
  let ?m = "counter_set i s"
  have al: "counter_line a = a" by (simp add: a)
  have sok: "set_ok (Suc k) ?m" "length ?m \<le> 16" using ok by (auto simp: counter_ok_def)
  from set_access_ok [OF sok, of wr a] obtain m' where m': "set_access 16 wr a ?m = Inr (m', victim 16 a ?m)"
    "set_ok k m'" "length m' \<le> 16" "recency m' = lru_step 16 a (recency ?m)" by auto
  note put = counter_ok_put [OF ok m'(2,3,4) al i [symmetric]]
  note fold_defs = counter_step_def Let_def a [symmetric] i [symmetric] um_has_recency
  show ?thesis
  proof (cases "um_has ?m a")
    case True
    then have in_m: "a \<in> set (recency ?m)" by (simp only: um_has_recency)
    have "reset_entry wr a (map older ?m) = Inr m'"
      using m'(1) True by (auto simp: set_access_split [OF sok(1)] bindE_eq_Inr)
    then have "counter_core cfg wr a i hs s = Inr (put_counter_set i m' hs)" using True by (simp add: counter_core_def)
    moreover have "counter_ok cfg k (put_counter_set i m' hs)" by (rule put) (simp add: upd)
    then have "counter_step cfg k p s (um_has ?m a) (put_counter_set i m' hs)"
      unfolding fold_defs using m'(4) in_m victim_hit [OF in_m, of 16] by (simp add: upd del: recency_set)
    ultimately show ?thesis using m'(1) by (auto simp: upd)
  next
    case False
    then have nin: "a \<notin> set (recency ?m)" by (simp only: um_has_recency not_False_eq_True)
    have ie: "insert_evict 16 a wr (snd (incr_cnts ?m)) (map older ?m) = Inr (m', victim 16 a ?m)"
      using m'(1) False by (simp add: set_access_split [OF sok(1)])
    obtain q where q: "counter_miss_pkt cfg a = Inr q" "pk_addr (mq_pkt q) = a div 8 + COUNTER_ADDR_DIFF"
      using counter_miss_pkt_ok [OF cfg, of a] by blast
    let ?s2 = "put_counter_set i m' ((put_counter_set i (map older ?m) s)\<lparr>mc_CounterCacheMissQueue := mc_CounterCacheMissQueue s @ [q]\<rparr>)"
    from counter_evict_ok [OF cfg, of "victim 16 a ?m" ?s2] obtain t where t: "counter_evict cfg (victim 16 a ?m) ?s2 = Inr t"
      "\<forall>j. counter_set j t = counter_set j ?s2" "mc_CounterCacheMissQueue t = mc_CounterCacheMissQueue ?s2"
      "queue_addrs (mc_CounterCacheEvictionQueue t) = queue_addrs (mc_CounterCacheEvictionQueue ?s2) @
        (case victim 16 a ?m of None \<Rightarrow> [] | Some v \<Rightarrow> [v div 8 + COUNTER_ADDR_DIFF])" by blast
    have "counter_core cfg wr a i hs s = Inr t" using False q(1) ie t(1) by (simp add: counter_core_def counter_miss_def)
    moreover have "counter_ok cfg k t" by (rule put) (use t(2) in auto)
    then have "counter_step cfg k p s (um_has ?m a) t"
      unfolding fold_defs using t m'(4) nin q(2) by (simp del: recency_set)
    ultimately show ?thesis using t(2) m'(1) by auto
  qed
qed

lemma readCounterCache_core:
  assumes cfg: "cfg_ok cfg" and ok: "counter_ok cfg (Suc k) s"
    and s1: "s1 = s\<lparr>mc_totalCounterCacheRead := mc_totalCounterCacheRead s + 1\<rparr>"
    and a: "a = counter_line p" and i: "i = set_index cfg a"
  shows "readCounterCache cfg p s = bindE (counter_core cfg False a i
      ((put_counter_set i (map older (counter_set i s1)) s1)\<lparr>mc_totalCounterCacheReadHit := mc_totalCounterCacheReadHit s1 + 1\<rparr>) s1)
      (\<lambda>t. Inr (um_has (counter_set i s1) a, t))"
proof -
  let ?m = "counter_set i s1"
  have "set_ok (Suc k) ?m" using ok by (simp add: counter_ok_def s1)
  then obtain L where L: "incr_cnts ?m = (map older ?m, L)" using incr_cnts_ok(1) by blast
  show ?thesis
    unfolding readCounterCache_def counter_core_def Let_def s1 [symmetric] a [symmetric]
    by (simp add: getIndex_ok [OF cfg] isCounterCacheHit_def incrCacheCnt_def i [symmetric] L bindE_assoc)
qed

definition no_dirty :: "MetaState \<Rightarrow> bool" where
  "no_dirty s = (\<forall>i. clean_set (counter_set i s))"

lemma counter_step_cong:
  assumes "\<forall>j. counter_set j s' = counter_set j s" and "mc_CounterCacheEvictionQueue s' = mc_CounterCacheEvictionQueue s"
    and "mc_CounterCacheMissQueue s' = mc_CounterCacheMissQueue s"
  shows "counter_step cfg k p s' h t = counter_step cfg k p s h t"
  unfolding counter_step_def Let_def using assms by simp

lemma readCounterCache_step:
  assumes cfg: "cfg_ok cfg" and ok: "counter_ok cfg (Suc k) s"
  shows "\<exists>isHit t. readCounterCache cfg p s = Inr (isHit, t) \<and> counter_step cfg k p s isHit t \<and> (no_dirty s \<longrightarrow> no_dirty t)"
proof -
  define a where "a = counter_line p"
  define i where "i = set_index cfg a"
  define s1 where "s1 = s\<lparr>mc_totalCounterCacheRead := mc_totalCounterCacheRead s + 1\<rparr>"
  let ?hs = "(put_counter_set i (map older (counter_set i s1)) s1)\<lparr>mc_totalCounterCacheReadHit := mc_totalCounterCacheReadHit s1 + 1\<rparr>"
  have ok1: "counter_ok cfg (Suc k) s1" using ok by (simp add: s1_def)
  have hs: "\<And>j. j \<noteq> i \<Longrightarrow> counter_set j ?hs = counter_set j s1"
    "mc_CounterCacheEvictionQueue ?hs = mc_CounterCacheEvictionQueue s1"
    "mc_CounterCacheMissQueue ?hs = mc_CounterCacheMissQueue s1" by simp_all
  from counter_core_ok [OF cfg ok1 a_def i_def hs, of False] obtain t where
    t: "counter_core cfg False a i ?hs s1 = Inr t" "counter_step cfg k p s1 (um_has (counter_set i s1) a) t"
      "\<forall>j. j \<noteq> i \<longrightarrow> counter_set j t = counter_set j s1"
      "set_access 16 False a (counter_set i s1) = Inr (counter_set i t, victim 16 a (counter_set i s1))" by blast
  have "counter_step cfg k p s1 (um_has (counter_set i s1) a) t = counter_step cfg k p s (um_has (counter_set i s1) a) t"
    by (rule counter_step_cong) (simp_all add: s1_def)
  moreover have "no_dirty t" if "no_dirty s"
  proof -
    have "clean_set (counter_set i s1)" "set_ok (Suc k) (counter_set i s1)"
      using that ok1 by (simp_all add: no_dirty_def s1_def counter_ok_def)
    with set_access_clean(2) [OF _ _ t(4)] have "clean_set (counter_set i t)" by blast
    moreover have "clean_set (counter_set j s1)" for j using that by (simp add: no_dirty_def s1_def)
    ultimately show ?thesis using t(3) unfolding no_dirty_def by metis
  qed
  ultimately show ?thesis
    using readCounterCache_core [OF cfg ok s1_def a_def i_def] t(1,2) by auto
qed

lemma counter_step_hit: "counter_step cfg k p s h t \<Longrightarrow>
    counter_line p \<in> set (recency (counter_set (set_index cfg (counter_line p)) t))"
  unfolding counter_step_def Let_def by (simp add: lru_step_def del: recency_set)

lemma writeCounterCache_step:
  assumes cfg: "cfg_ok cfg" and ok: "counter_ok cfg (Suc k) s" and pkt: "getAddr pkt = Inr p" "isWrite pkt"
  shows "\<exists>isHit t. writeCounterCache cfg pkt False s = Inr (isHit, t) \<and> counter_step cfg k p s isHit t \<and> (no_dirty s \<longrightarrow> no_dirty t)"
proof -
  define a where "a = counter_line p"
  define i where "i = set_index cfg a"
  define s1 where "s1 = s\<lparr>mc_totalCounterCacheRead := mc_totalCounterCacheRead s + 1, mc_totalCounterCacheWrite := mc_totalCounterCacheWrite s + 1\<rparr>"
  let ?m = "counter_set i s1"
  let ?hs = "(put_counter_set i (map older ?m) s1)\<lparr>mc_totalCounterCacheReadHit := mc_totalCounterCacheReadHit s1 + 1\<rparr>"
  have ok1: "counter_ok cfg (Suc k) s1" using ok by (simp add: s1_def)
  then have sok: "set_ok (Suc k) ?m" by (simp add: counter_ok_def)
  then obtain L where L: "incr_cnts ?m = (map older ?m, L)" using incr_cnts_ok(1) by blast
  have hs: "\<And>j. j \<noteq> i \<Longrightarrow> counter_set j ?hs = counter_set j s1"
    "mc_CounterCacheEvictionQueue ?hs = mc_CounterCacheEvictionQueue s1"
    "mc_CounterCacheMissQueue ?hs = mc_CounterCacheMissQueue s1" by simp_all
  from counter_core_ok [OF cfg ok1 a_def i_def hs, of True] obtain u where
    u: "counter_core cfg True a i ?hs s1 = Inr u" "counter_step cfg k p s1 (um_has ?m a) u"
      "\<forall>j. j \<noteq> i \<longrightarrow> counter_set j u = counter_set j s1"
      "set_access 16 True a ?m = Inr (counter_set i u, victim 16 a ?m)" by blast
  have uok: "counter_ok cfg k u" using u(2) by (auto simp: counter_step_def Let_def)
  have "a \<in> set (recency (counter_set i u))" using counter_step_hit [OF u(2)] by (simp only: a_def i_def)
  from counter_clean_ok [OF uok this] obtain t where t: "counter_clean i a u = Inr t" "counter_ok cfg k t"
    "\<forall>j. recency (counter_set j t) = recency (counter_set j u)"
    "mc_CounterCacheEvictionQueue t = mc_CounterCacheEvictionQueue u" "mc_CounterCacheMissQueue t = mc_CounterCacheMissQueue u"
    "\<forall>j. j \<noteq> i \<longrightarrow> counter_set j t = counter_set j u"
    "(\<forall>x\<in>set (counter_set i u). fst x = a \<or> \<not> me_dirty (snd x)) \<longrightarrow> clean_set (counter_set i t)" by blast
  have "writeCounterCache cfg pkt False s = bindE (counter_core cfg True a i ?hs s1) (\<lambda>u. bindE (counter_clean i a u) (\<lambda>t. Inr (um_has ?m a, t)))"
    unfolding writeCounterCache_def counter_core_def Let_def s1_def [symmetric]
    by (simp add: pkt getIndex_ok [OF cfg] isCounterCacheHit_def isCounterAtomicPkt_def incrCacheCnt_def
        a_def [symmetric] i_def [symmetric] L bindE_assoc)
  then have "writeCounterCache cfg pkt False s = Inr (um_has ?m a, t)" using u(1) t(1) by simp
  moreover have "counter_step cfg k p s1 (um_has ?m a) t"
    using u(2) t(2-5) unfolding counter_step_def Let_def by simp
  then have "counter_step cfg k p s (um_has ?m a) t"
    by (subst counter_step_cong [of s1, symmetric]) (simp_all add: s1_def)
  moreover have "no_dirty t" if "no_dirty s"
  proof -
    have "clean_set ?m" using that by (simp add: no_dirty_def s1_def)
    then have "clean_set (counter_set i t)" using set_access_clean(1) [OF sok _ u(4)] t(7) by blast
    moreover have "clean_set (counter_set j s1)" for j using that by (simp add: no_dirty_def s1_def)
    ultimately show ?thesis using t(6) u(3) unfolding no_dirty_def by metis
  qed
  ultimately show ?thesis by blast
qed

section \<open>Runs of the counter cache\<close>

datatype CounterOp = Op_read Addr_t | Op_write Packet

fun counter_op :: "MetaCfg \<Rightarrow> CounterOp \<Rightarrow> MetaState \<Rightarrow> MetaState res" where
  "counter_op cfg (Op_read p) s = bindE (readCounterCache cfg p s) (\<lambda>(h, t). Inr t)"
| "counter_op cfg (Op_write pkt) s = bindE (writeCounterCache cfg pkt False s) (\<lambda>(h, t). Inr t)"

fun op_ok :: "CounterOp \<Rightarrow> bool" where
  "op_ok (Op_read p) = True"
| "op_ok (Op_write pkt) = (getAddr pkt = Inr (pk_addr pkt) \<and> isWrite pkt)"

fun op_line :: "CounterOp \<Rightarrow> Addr_t" where
  "op_line (Op_read p) = counter_line p"
| "op_line (Op_write pkt) = counter_line (pk_addr pkt)"

lemma counter_op_step:
  assumes "cfg_ok cfg" and "counter_ok cfg (Suc k) s" and "no_dirty s" and "op_ok op"
  shows "\<exists>t. counter_op cfg op s = Inr t \<and> counter_ok cfg k t \<and> no_dirty t \<and>
    (\<forall>j. recency (counter_set j t) =
      (if j = set_index cfg (op_line op) then lru_step 16 (op_line op) (recency (counter_set j s)) else recency (counter_set j s))) \<and>
    queue_addrs (mc_CounterCacheEvictionQueue t) = queue_addrs (mc_CounterCacheEvictionQueue s)"
proof -
  have "\<exists>h p t. counter_op cfg op s = Inr t \<and> counter_step cfg k p s h t \<and> no_dirty t \<and> op_line op = counter_line p"
  proof (cases op)
    case (Op_read p)
    with readCounterCache_step [OF assms(1,2), of p] assms(3) show ?thesis by (metis (no_types, lifting) bindE_simps(2) case_prod_conv counter_op.simps(1) op_line.simps(1))
  next
    case (Op_write pkt)
    with writeCounterCache_step [OF assms(1,2), of pkt "pk_addr pkt"] assms(3,4) show ?thesis
      by (metis (no_types, lifting) bindE_simps(2) case_prod_conv counter_op.simps(2) op_line.simps(2) op_ok.simps(2))
  qed
  then obtain h p t where t: "counter_op cfg op s = Inr t" "counter_step cfg k p s h t" "no_dirty t" "op_line op = counter_line p"
    by blast
  have "victim 16 (counter_line p) (counter_set (set_index cfg (counter_line p)) s) = None"
    using assms(2,3) by (intro victim_clean) (simp_all add: no_dirty_def counter_ok_def set_ok_def)
  with t show ?thesis by (auto simp: counter_step_def Let_def)
qed

lemma counter_run:
  assumes "cfg_ok cfg" and "counter_ok cfg (length ops) s" and "no_dirty s" and "list_all op_ok ops"
  shows "\<exists>t. fold_res (counter_op cfg) ops s = Inr t \<and> no_dirty t \<and>
    queue_addrs (mc_CounterCacheEvictionQueue t) = queue_addrs (mc_CounterCacheEvictionQueue s) \<and>
    (\<forall>i. recency (counter_set i t) =
       fold (lru_step 16) (filter (\<lambda>a. set_index cfg a = i) (map op_line ops)) (recency (counter_set i s)))"
  using assms(2-4)
proof (induction ops arbitrary: s)
  case (Cons op ops)
  then obtain u where u: "counter_op cfg op s = Inr u" "counter_ok cfg (length ops) u" "no_dirty u"
    "\<forall>j. recency (counter_set j u) = (if j = set_index cfg (op_line op) then lru_step 16 (op_line op) (recency (counter_set j s))
       else recency (counter_set j s))"
    "queue_addrs (mc_CounterCacheEvictionQueue u) = queue_addrs (mc_CounterCacheEvictionQueue s)"
    using counter_op_step [OF assms(1), of "length ops" s op] by auto
  from Cons.IH [OF u(2,3)] Cons.prems(3) obtain t where t: "fold_res (counter_op cfg) ops u = Inr t" "no_dirty t"
    "queue_addrs (mc_CounterCacheEvictionQueue t) = queue_addrs (mc_CounterCacheEvictionQueue u)"
    "\<forall>i. recency (counter_set i t) = fold (lru_step 16) (filter (\<lambda>a. set_index cfg a = i) (map op_line ops)) (recency (counter_set i u))"
    by (auto simp del: map_map)
  have "queue_addrs (mc_CounterCacheEvictionQueue t) = queue_addrs (mc_CounterCacheEvictionQueue s)"
    using t(3) u(5) by (rule trans)
  moreover have "fold_res (counter_op cfg) (op # ops) s = Inr t" using u(1) t(1) by simp
  ultimately show ?case using t(2,4) u(4) by (intro exI [of _ t]) simp
qed simp

lemma MetaState_init_simps [simp]: "counter_set i MetaState_init = []" "mc_CounterCacheEvictionQueue MetaState_init = []"
    "mc_VerificationCache MetaState_init = []"
  by (simp_all add: MetaState_init_def counter_set_def)

text \<open>C4: Started empty, the counter cache runs through every sequence of fewer than \<open>2 ^ 32\<close> well-formed reads
  and writes without an error; afterwards each set holds exactly the sixteen most recently used of its lines, in that
  order; no line is dirty, so no eviction is ever written back.  The lines compete within
  their set only: the cache is not fully associative, as a comment in the source has it.\<close>

theorem counter_cache_is_lru:
  assumes "cfg_ok cfg" and "length ops < 2 ^ 32" and "list_all op_ok ops"
  shows "\<exists>t. fold_res (counter_op cfg) ops MetaState_init = Inr t \<and> no_dirty t \<and> mc_CounterCacheEvictionQueue t = [] \<and>
    (\<forall>i. recency (counter_set i t) = fold (lru_step 16) (filter (\<lambda>a. set_index cfg a = i) (map op_line ops)) [])"
proof -
  have "counter_ok cfg (length ops) MetaState_init" "no_dirty MetaState_init"
    using assms(2) by (simp_all add: counter_ok_def set_ok_def no_dirty_def clean_set_def)
  from counter_run [OF assms(1) this assms(3)] show ?thesis by (auto simp: recency_def by_age_def)
qed

text \<open>A configuration with two sets, burst size 64, and 1 << n as x86 computes it.\<close>

definition example_cfg :: MetaCfg where
  "example_cfg = \<lparr>cfg_COUNTER_CACHE_SIZE = 32, cfg_VERIFICATION_CACHE_SIZE = 64, cfg_burstSize = 64,
     cfg_shl1 = (\<lambda>n. 2 ^ (n mod 32))\<rparr>"

lemma example_cfg_ok: "cfg_ok example_cfg"
  by (simp add: cfg_ok_def example_cfg_def num_sets_def)

theorem counter_cache_is_lru_witness:
  "\<exists>t. fold_res (counter_op example_cfg) [Op_read 0, Op_read 1024, Op_read 5] MetaState_init = Inr t \<and>
     recency (counter_set 0 t) = [0, 1024] \<and> mc_CounterCacheEvictionQueue t = []"
proof -
  have "set_index example_cfg 0 = 0" "set_index example_cfg 1024 = 0" "counter_line 0 = 0" "counter_line 1024 = 1024" "counter_line 5 = 0"
    by (simp_all add: set_index_def example_cfg_def num_sets_def counter_line_def)
  then show ?thesis
    using counter_cache_is_lru [OF example_cfg_ok, of "[Op_read 0, Op_read 1024, Op_read 5]"]
    by (auto simp: lru_step_def)
qed

end
