(* ===== verification/Tree_Cache.thy ===== *)
theory Tree_Cache
  imports Meta_Cache
begin

text \<open>
  The cache of integrity-tree nodes of \<open>gem5/src/mem/dram_ctrl.hh\<close>: every access is one step of the
  least-recently-used policy, and the walk from a leaf towards the root stops at the first cached node.
\<close>

section \<open>One access\<close>

abbreviation veri_cap :: "MetaCfg \<Rightarrow> nat" where
  "veri_cap cfg \<equiv> cfg_VERIFICATION_CACHE_SIZE cfg"

definition veri_ok :: "MetaCfg \<Rightarrow> nat \<Rightarrow> MetaState \<Rightarrow> bool" where
  "veri_ok cfg k s = (set_ok k (mc_VerificationCache s) \<and> length (mc_VerificationCache s) \<le> veri_cap cfg)"

definition node :: "MetaCfg \<Rightarrow> Addr_t \<Rightarrow> nat \<Rightarrow> Addr_t" where
  "node cfg paddr l = dataToMTOffset cfg (paddr div 64 * 64) l"

abbreviation cached :: "MetaState \<Rightarrow> Addr_t list" where
  "cached s \<equiv> recency (mc_VerificationCache s)"

lemma dataToMTAddr_ok: "dataToMTAddr cfg a l = Inr (dataToMTOffset cfg a l div 8 + VERIFICATION_ADDR_DIFF)"
proof -
  let ?x = "dataToMTOffset cfg a l"
  have "unat (?x div 8) < 2 ^ 61"
  proof -
    have "unat ?x < 2 ^ LENGTH(64)" by (rule unsigned_less)
    then show ?thesis by (simp add: unat_div)
  qed
  then have "unat (?x div 8) + unat (VERIFICATION_ADDR_DIFF :: Addr_t) < 2 ^ LENGTH(64)" by simp
  then have "VERIFICATION_ADDR_DIFF \<le> ?x div 8 + VERIFICATION_ADDR_DIFF"
    by (simp add: word_le_nat_alt unat_word_ariths(1))
  then show ?thesis by (simp add: dataToMTAddr_def Let_def)
qed

lemma verification_miss_pkt_ok: "cfg_ok cfg \<Longrightarrow> \<exists>q. verification_miss_pkt cfg a = Inr q \<and> pk_addr (mq_pkt q) = a"
  using meta_pkt_ok [of cfg a ReadReq "[0, 0]"] by (auto simp: verification_miss_pkt_def mark_verification_def)

lemma createVerificationPkt_ok: "cfg_ok cfg \<Longrightarrow> \<exists>q. createVerificationPkt cfg a = Inr q \<and>
    pk_addr (mq_pkt q) = a div 8 + VERIFICATION_ADDR_DIFF"
  using meta_pkt_ok [of cfg "a div 8 + VERIFICATION_ADDR_DIFF" WriteReq "[1]"]
  by (auto simp: createVerificationPkt_def mark_verification_def)

lemma verification_evict_ok: "cfg_ok cfg \<Longrightarrow> \<exists>t. verification_evict cfg v s = Inr t \<and>
    mc_VerificationCache t = mc_VerificationCache s \<and> mc_CounterCache t = mc_CounterCache s \<and>
    queue_addrs (mc_VerificationCacheEvictionQueue t) = queue_addrs (mc_VerificationCacheEvictionQueue s) @
      (case v of None \<Rightarrow> [] | Some a \<Rightarrow> [a div 8 + VERIFICATION_ADDR_DIFF])"
  using createVerificationPkt_ok [of cfg "the v"] by (cases v) (auto simp: verification_evict_def)

text \<open>An access to a node is one step of the policy; it leaves the counter cache alone and queues exactly a
  dirty victim for write-back.\<close>

lemma verification_access_step:
  assumes cfg: "cfg_ok cfg" and ok: "veri_ok cfg (Suc k) s"
  shows "\<exists>t. verification_access cfg wr p l s = Inr (node cfg p l \<in> set (cached s), t) \<and> veri_ok cfg k t \<and>
    cached t = lru_step (veri_cap cfg) (node cfg p l) (cached s) \<and> mc_CounterCache t = mc_CounterCache s \<and>
    queue_addrs (mc_VerificationCacheEvictionQueue t) = queue_addrs (mc_VerificationCacheEvictionQueue s) @
      (case victim (veri_cap cfg) (node cfg p l) (mc_VerificationCache s) of
         None \<Rightarrow> [] | Some a \<Rightarrow> [a div 8 + VERIFICATION_ADDR_DIFF])"
proof -
  let ?m = "mc_VerificationCache s" and ?n = "node cfg p l" and ?c = "veri_cap cfg"
  have sok: "set_ok (Suc k) ?m" "length ?m \<le> ?c" "0 < ?c" using ok cfg by (auto simp: veri_ok_def cfg_ok_def)
  from set_access_ok [OF sok, of wr ?n] obtain m' where m': "set_access ?c wr ?n ?m = Inr (m', victim ?c ?n ?m)"
    "set_ok k m'" "length m' \<le> ?c" "recency m' = lru_step ?c ?n (recency ?m)" by auto
  obtain L where L: "incr_cnts ?m = (map older ?m, L)" using incr_cnts_ok(1) [OF sok(1)] by blast
  note acc = set_access_split [OF sok(1), of ?c wr ?n, unfolded L]
  show ?thesis
  proof (cases "um_has ?m ?n")
    case True
    then have h: "?n \<in> set (recency ?m)" by (simp only: um_has_recency)
    have "reset_entry wr ?n (map older ?m) = Inr m'" using m'(1) True acc by (auto simp: bindE_eq_Inr)
    then have "verification_access cfg wr p l s = Inr (True, s\<lparr>mc_VerificationCache := m'\<rparr>)"
      using True by (simp add: verification_access_def dataToMTAddr_ok node_def isVerificationCacheHit_def
          incrVeriCacheCnt_def L)
    then show ?thesis using m' h victim_hit [OF h, of ?c] by (simp add: veri_ok_def del: recency_set)
  next
    case False
    then have h: "?n \<notin> set (recency ?m)" by (simp only: um_has_recency not_False_eq_True)
    have ie: "insert_evict ?c ?n wr L (map older ?m) = Inr (m', victim ?c ?n ?m)" using m'(1) False acc by simp
    obtain q where q: "verification_miss_pkt cfg (?n div 8 + VERIFICATION_ADDR_DIFF) = Inr q"
      using verification_miss_pkt_ok [OF cfg] by blast
    from verification_evict_ok [OF cfg, of "victim ?c ?n ?m" "s\<lparr>mc_VerificationCacheMissQueue := mc_VerificationCacheMissQueue s @ [q], mc_VerificationCache := m'\<rparr>"]
    obtain t where t: "verification_evict cfg (victim ?c ?n ?m) (s\<lparr>mc_VerificationCacheMissQueue := mc_VerificationCacheMissQueue s @ [q], mc_VerificationCache := m'\<rparr>) = Inr t"
      "mc_VerificationCache t = m'" "mc_CounterCache t = mc_CounterCache s"
      "queue_addrs (mc_VerificationCacheEvictionQueue t) = queue_addrs (mc_VerificationCacheEvictionQueue s) @
        (case victim ?c ?n ?m of None \<Rightarrow> [] | Some a \<Rightarrow> [a div 8 + VERIFICATION_ADDR_DIFF])" by auto
    have "verification_access cfg wr p l s = Inr (False, t)"
      using False ie q t(1) by (simp add: verification_access_def dataToMTAddr_ok node_def isVerificationCacheHit_def
          incrVeriCacheCnt_def L)
    then show ?thesis using m' h t by (simp add: veri_ok_def del: recency_set)
  qed
qed

section \<open>The walk towards the root\<close>

text \<open>The walk on the abstract cache: the number of misses and the cache it leaves.\<close>

fun walk_spec :: "nat \<Rightarrow> ('l \<Rightarrow> 'a) \<Rightarrow> 'l list \<Rightarrow> 'a list \<Rightarrow> nat \<times> 'a list" where
  "walk_spec cap f [] r = (0, r)"
| "walk_spec cap f (l # ls) r =
     (if f l \<in> set r then (0, lru_step cap (f l) r)
      else let (n, r') = walk_spec cap f ls (lru_step cap (f l) r) in (Suc n, r'))"

lemma walk_spec_le: "fst (walk_spec cap f ls r) \<le> length ls"
  by (induction ls arbitrary: r) (auto simp: split_def Let_def)

text \<open>The nodes a walk accesses.\<close>

lemma walk_spec_fold: "\<exists>j \<le> length ls. (ls \<noteq> [] \<longrightarrow> 0 < j) \<and>
    snd (walk_spec cap f ls r) = fold (lru_step cap) (map f (take j ls)) r"
proof (induction ls arbitrary: r)
  case (Cons l ls)
  show ?case
  proof (cases "f l \<in> set r")
    case True
    then show ?thesis by (intro exI [of _ 1]) simp
  next
    case False
    from Cons.IH [of "lru_step cap (f l) r"] obtain j where "j \<le> length ls"
      "snd (walk_spec cap f ls (lru_step cap (f l) r)) = fold (lru_step cap) (map f (take j ls)) (lru_step cap (f l) r)"
      by blast
    with False show ?thesis by (intro exI [of _ "Suc j"]) (simp add: split_def Let_def)
  qed
qed simp

lemma set_ok_add: "set_ok (k + j) m \<Longrightarrow> set_ok k m"
  by (auto simp: set_ok_def)

lemma veri_ok_add: "veri_ok cfg (k + j) s \<Longrightarrow> veri_ok cfg k s"
  using set_ok_add [of k j] by (auto simp: veri_ok_def)

lemma verification_walk_run:
  assumes cfg: "cfg_ok cfg" and "veri_ok cfg (length ls + k) s"
  shows "\<exists>t. verification_walk cfg p ls n s = Inr (n + of_nat (fst (walk_spec (veri_cap cfg) (node cfg p) ls (cached s))), t) \<and>
    veri_ok cfg k t \<and> cached t = snd (walk_spec (veri_cap cfg) (node cfg p) ls (cached s)) \<and>
    mc_CounterCache t = mc_CounterCache s"
  using assms(2)
proof (induction ls arbitrary: n s)
  case Nil
  then show ?case by simp
next
  case (Cons l ls)
  then have "veri_ok cfg (Suc (length ls + k)) s" by simp
  from verification_access_step [OF cfg this, of False p l] obtain u where
    u: "verification_access cfg False p l s = Inr (node cfg p l \<in> set (cached s), u)" "veri_ok cfg (length ls + k) u"
      "cached u = lru_step (veri_cap cfg) (node cfg p l) (cached s)" "mc_CounterCache u = mc_CounterCache s" by blast
  show ?case
  proof (cases "node cfg p l \<in> set (cached s)")
    case True
    have "veri_ok cfg k u" using u(2) veri_ok_add [of cfg k "length ls" u] by (simp add: add.commute)
    with True u show ?thesis by (simp add: readVerificationCache_level_def del: recency_set)
  next
    case False
    from Cons.IH [OF u(2), of "n + 1"] u(3) obtain t where
      t: "verification_walk cfg p ls (n + 1) u =
          Inr (n + 1 + of_nat (fst (walk_spec (veri_cap cfg) (node cfg p) ls (lru_step (veri_cap cfg) (node cfg p l) (cached s)))), t)"
        "veri_ok cfg k t" "cached t = snd (walk_spec (veri_cap cfg) (node cfg p) ls (lru_step (veri_cap cfg) (node cfg p l) (cached s)))"
        "mc_CounterCache t = mc_CounterCache u" by auto
    with False u show ?thesis
      by (simp add: readVerificationCache_level_def split_def Let_def add.assoc del: recency_set)
  qed
qed

text \<open>The first node of a walk is cached afterwards, if the cache has room for a whole path.\<close>

lemma walk_leaf_cached:
  assumes "cfg_ok cfg" and "veri_ok cfg (Suc (length ls)) s" and "length ls < veri_cap cfg"
  shows "f l \<in> set (snd (walk_spec (veri_cap cfg) f (l # ls) (cached s)))"
proof -
  from walk_spec_fold [of "l # ls" "veri_cap cfg" f "cached s"] obtain j where j: "j \<le> Suc (length ls)" "0 < j"
    "snd (walk_spec (veri_cap cfg) f (l # ls) (cached s)) = fold (lru_step (veri_cap cfg)) (map f (take j (l # ls))) (cached s)"
    by auto
  then obtain i where i: "j = Suc i" "i \<le> length ls" by (cases j) auto
  let ?bs = "map f (take i ls)"
  have len: "length ?bs = i" using i(2) by simp
  have "veri_ok cfg (Suc i + (length ls - i)) s" using assms(2) i(2) by simp
  then have "veri_ok cfg (Suc (length ?bs)) s" unfolding len by (rule veri_ok_add)
  then have inv: "set_ok (Suc (length ?bs)) (mc_VerificationCache s) \<and> length (mc_VerificationCache s) \<le> veri_cap cfg \<and> 0 < veri_cap cfg"
    using assms(1) by (simp add: veri_ok_def cfg_ok_def)
  have "card (set ?bs) \<le> length ?bs" by (rule card_length)
  then have "card (set ?bs) < veri_cap cfg" using len i(2) assms(3) by linarith
  from meta_set.survives_any [OF inv this, where wr = False and a = "f l"]
  obtain m where m: "fold_res (\<lambda>a m. bindE (set_access (veri_cap cfg) False a m) (\<lambda>r. Inr (fst r))) (f l # ?bs) (mc_VerificationCache s) = Inr m"
    "f l \<in> set (recency m)" by blast
  have "set_ok (length (f l # ?bs) + 0) (mc_VerificationCache s) \<and> length (mc_VerificationCache s) \<le> veri_cap cfg \<and> 0 < veri_cap cfg"
    using inv by simp
  from meta_set.accesses_run [OF this, where wr = False] m(1) have "recency m = fold (lru_step (veri_cap cfg)) (f l # ?bs) (cached s)" by auto
  with m(2) show ?thesis unfolding j(3) i(1) by (simp del: recency_set)
qed

section \<open>Properties\<close>

lemma readVerificationCache_pkt_run:
  assumes "cfg_ok cfg" and "veri_ok cfg (12 + k) s" and "getPaddr (pk_req pkt) = Inr p" and "p \<noteq> - 1"
  shows "\<exists>t. readVerificationCache_pkt cfg pkt s =
      Inr (pkt\<lparr>pk_verificationCacheMisses := pk_verificationCacheMisses pkt +
             of_nat (fst (walk_spec (veri_cap cfg) (node cfg p) [0..<12] (cached s)))\<rparr>, t) \<and>
    veri_ok cfg k t \<and> cached t = snd (walk_spec (veri_cap cfg) (node cfg p) [0..<12] (cached s)) \<and>
    mc_CounterCache t = mc_CounterCache s"
proof -
  have "veri_ok cfg (length [0..<12] + k) s" using assms(2) by simp
  from verification_walk_run [OF assms(1) this, of p "pk_verificationCacheMisses pkt"]
  show ?thesis using assms(3,4) by (auto simp: readVerificationCache_pkt_def simp del: upt_Suc)
qed

text \<open>C5: Reading the tree nodes of a packet's address adds to the packet the number of levels, at most twelve, that
  the walk passes before it meets a cached node, and leaves the cache as the least-recently-used policy
  prescribes for the nodes visited.\<close>

theorem tree_walk_refines_lru:
  assumes "cfg_ok cfg" and "veri_ok cfg (12 + k) s" and "getPaddr (pk_req pkt) = Inr p" and "p \<noteq> - 1"
  shows "\<exists>t n. readVerificationCache_pkt cfg pkt s =
      Inr (pkt\<lparr>pk_verificationCacheMisses := pk_verificationCacheMisses pkt + of_nat n\<rparr>, t) \<and> n \<le> 12 \<and>
    walk_spec (veri_cap cfg) (node cfg p) [0..<12] (cached s) = (n, cached t) \<and> mc_CounterCache t = mc_CounterCache s"
  using readVerificationCache_pkt_run [OF assms] walk_spec_le [of "veri_cap cfg" "node cfg p" "[0..<12]" "cached s"]
  by (auto simp: prod_eq_iff simp del: upt_Suc)

text \<open>C31: With room for a whole path, a second read of the same address finds its leaf cached: it adds no miss.\<close>

theorem tree_walk_again_hits:
  assumes "cfg_ok cfg" and "12 \<le> veri_cap cfg" and "veri_ok cfg 24 s" and "getPaddr (pk_req pkt) = Inr p" and "p \<noteq> - 1"
  shows "\<exists>pkt' t u. readVerificationCache_pkt cfg pkt s = Inr (pkt', t) \<and> readVerificationCache_pkt cfg pkt' t = Inr (pkt', u)"
proof -
  have "veri_ok cfg (12 + 12) s" using assms(3) by simp
  from readVerificationCache_pkt_run [OF assms(1) this assms(4,5)] obtain t where
    t: "readVerificationCache_pkt cfg pkt s = Inr (pkt\<lparr>pk_verificationCacheMisses := pk_verificationCacheMisses pkt +
          of_nat (fst (walk_spec (veri_cap cfg) (node cfg p) [0..<12] (cached s)))\<rparr>, t)"
      "veri_ok cfg 12 t" "cached t = snd (walk_spec (veri_cap cfg) (node cfg p) [0..<12] (cached s))" by blast
  let ?p = "pkt\<lparr>pk_verificationCacheMisses := pk_verificationCacheMisses pkt +
          of_nat (fst (walk_spec (veri_cap cfg) (node cfg p) [0..<12] (cached s)))\<rparr>"
  have path: "[0..<12] = 0 # [Suc 0..<12]" by (simp add: upt_conv_Cons)
  have "veri_ok cfg (Suc (length [Suc 0..<12]) + 12) s" using assms(3) by simp
  then have ok: "veri_ok cfg (Suc (length [Suc 0..<12])) s" by (rule veri_ok_add)
  have len: "length [Suc 0..<12] < veri_cap cfg" using assms(2) by simp
  have "node cfg p 0 \<in> set (cached t)"
    unfolding t(3) path by (rule walk_leaf_cached [OF assms(1) ok len])
  then have none: "fst (walk_spec (veri_cap cfg) (node cfg p) [0..<12] (cached t)) = 0"
    unfolding path by (simp del: recency_set)
  have "veri_ok cfg (12 + 0) t" "getPaddr (pk_req ?p) = Inr p" using t(2) assms(4) by simp_all
  from readVerificationCache_pkt_run [OF assms(1) this assms(5)] obtain u where
    "readVerificationCache_pkt cfg ?p t = Inr (?p\<lparr>pk_verificationCacheMisses := pk_verificationCacheMisses ?p + 0\<rparr>, u)"
    unfolding none by auto
  with t(1) show ?thesis by auto
qed

lemma init_veri_ok: "k < 2 ^ 32 \<Longrightarrow> veri_ok cfg k MetaState_init"
  by (simp add: veri_ok_def set_ok_def)

theorem tree_walk_refines_lru_witness:
  "\<exists>t. readVerificationCache_pkt example_cfg (example_pkt 0x1000 [7]) MetaState_init =
     Inr ((example_pkt 0x1000 [7])\<lparr>pk_verificationCacheMisses := 12\<rparr>, t)"
proof -
  have "getPaddr (pk_req (example_pkt 0x1000 [7])) = Inr 0x300001000"
    by (simp add: getPaddr_def example_pkt_def flags_isSet_def)
  then obtain t n where t: "readVerificationCache_pkt example_cfg (example_pkt 0x1000 [7]) MetaState_init =
      Inr ((example_pkt 0x1000 [7])\<lparr>pk_verificationCacheMisses := pk_verificationCacheMisses (example_pkt 0x1000 [7]) + of_nat n\<rparr>, t)"
    "walk_spec (veri_cap example_cfg) (node example_cfg 0x300001000) [0..<12] (cached MetaState_init) = (n, cached t)"
    using tree_walk_refines_lru [OF example_cfg_ok, of 0 MetaState_init "example_pkt 0x1000 [7]" "0x300001000"] init_veri_ok by auto
  have "walk_spec (veri_cap example_cfg) (node example_cfg 0x300001000) [0..<12] [] =
      (12, snd (walk_spec (veri_cap example_cfg) (node example_cfg 0x300001000) [0..<12] []))" by code_simp
  moreover have "cached MetaState_init = []" by (simp add: recency_def by_age_def)
  ultimately have "n = 12" using t(2) by (metis fst_conv)
  then show ?thesis using t(1) by (simp add: example_pkt_def)
qed

theorem tree_walk_again_hits_witness:
  "\<exists>pkt' t u. readVerificationCache_pkt example_cfg (example_pkt 0x1000 [7]) MetaState_init = Inr (pkt', t) \<and>
     readVerificationCache_pkt example_cfg pkt' t = Inr (pkt', u)"
proof (rule tree_walk_again_hits [OF example_cfg_ok])
  show "12 \<le> veri_cap example_cfg" by (simp add: example_cfg_def)
  show "veri_ok example_cfg 24 MetaState_init" by (simp add: init_veri_ok)
  show "getPaddr (pk_req (example_pkt 0x1000 [7])) = Inr 0x300001000"
    by (simp add: getPaddr_def example_pkt_def flags_isSet_def)
qed simp

end
