(* ===== verification/Globals.thy ===== *)
theory Globals
  imports Tree_Cache
begin

text \<open>
  The static members through which the parts of the predictor talk to each other:
  \<open>mem/predictor/SharedArea.{hh,cc}\<close>, the static members of \<open>PredictorBackend\<close>
  (\<open>mem/predictor_backend.{hh,cc}\<close>) and the two of \<open>DRAMCtrl\<close> that the predictor uses.  The limits
  are scaled by an environment variable when the backend is constructed; they are members here.
\<close>

record constChunkLocator =
  cc_constOffset :: size_t
  cc_timesFound :: size_t
  cc_lastData :: DataChunk

definition constChunkLocator_default :: constChunkLocator where
  "constChunkLocator_default = \<lparr>cc_constOffset = - 1, cc_timesFound = 0, cc_lastData = - 1\<rparr>"

record Globals =
  g_correctPredictions :: "(hash_t, size_t \<times> size_t) umap"
  g_genPCConf :: "(PC_t, Confidence) umap"
  g_constPredTracker :: "(hash_t, (size_t, constChunkLocator) umap) umap"
  g_confidenceTable :: "(hash_t, 16 word) umap"
  g_completedWrites :: "(Addr_t, CompletedWriteEntry list) umap"
  g_completedWritesManager :: "(Addr_t, Tick) umap"
  g_addrMatches :: "(PC_t, int) umap"
  g_capacityEvictionStatic :: "64 word"
  g_usePredictor :: bool
  g_predictorEnabled :: bool
  g_MAX_COMPLETED_QUEUE_LINE_SIZE :: nat
  g_RESULT_BUFFER_MAX_SIZE :: nat
  g_pendingPredictionQueue :: "CompletedWriteEntry list"
  g_clwbLatency :: "(Addr_t, Tick) umap"
  g_meta :: MetaState

definition Globals_init :: Globals where
  "Globals_init = \<lparr>g_correctPredictions = [], g_genPCConf = [], g_constPredTracker = [], g_confidenceTable = [],
     g_completedWrites = [], g_completedWritesManager = [], g_addrMatches = [], g_capacityEvictionStatic = 0,
     g_usePredictor = False, g_predictorEnabled = False, g_MAX_COMPLETED_QUEUE_LINE_SIZE = 4,
     g_RESULT_BUFFER_MAX_SIZE = 256, g_pendingPredictionQueue = [], g_clwbLatency = [], g_meta = MetaState_init\<rparr>"

abbreviation (input) PRED_CONFIDENCE_MAX :: nat where "PRED_CONFIDENCE_MAX \<equiv> 4"

section \<open>Confidence of a prediction\<close>

definition initConf :: "hash_t \<Rightarrow> Globals \<Rightarrow> Globals" where
  "initConf h g = (if um_has (g_confidenceTable g) h then g
     else g\<lparr>g_confidenceTable := um_put h (of_nat PRED_CONFIDENCE_MAX - 1) (g_confidenceTable g)\<rparr>)"

text \<open>A hash without an entry yields the conversion of the floating-point number -1 to an unsigned
  type, which is undefined.\<close>

definition getConfidenceForLoc :: "hash_t \<Rightarrow> Globals \<Rightarrow> size_t res" where
  "getConfidenceForLoc h g = (case um_find (g_confidenceTable g) h of
     Some c \<Rightarrow> Inr (ucast c) | None \<Rightarrow> Inl (Undefined ''conversion of -1.0''))"

text \<open>\<open>confidenceTable[h] = confidenceTable[h] == MAX ? MAX : confidenceTable[h] + 1\<close>.\<close>

definition reward_conf :: "hash_t \<Rightarrow> Globals \<Rightarrow> Globals" where
  "reward_conf h g =
     (let c = (case um_find (g_confidenceTable g) h of None \<Rightarrow> 0 | Some c \<Rightarrow> c) in
      g\<lparr>g_confidenceTable := um_put h (if c = of_nat PRED_CONFIDENCE_MAX then of_nat PRED_CONFIDENCE_MAX else c + 1)
          (g_confidenceTable g)\<rparr>)"

section \<open>Feedback to the front ends\<close>

definition count_prediction :: "bool \<Rightarrow> bool \<Rightarrow> size_t \<times> size_t \<Rightarrow> size_t \<times> size_t" where
  "count_prediction a d p = (fst p + (if a then 1 else 0), snd p + (if d then 1 else 0))"

definition broadcastPrediction :: "hash_t \<Rightarrow> bool \<Rightarrow> bool \<Rightarrow> Globals \<Rightarrow> Globals" where
  "broadcastPrediction h addrPredicted dataPredicted g =
     (if addrPredicted \<or> dataPredicted
      then g\<lparr>g_correctPredictions := um_put h
             (count_prediction addrPredicted dataPredicted
                (case um_find (g_correctPredictions g) h of None \<Rightarrow> (0, 0) | Some p \<Rightarrow> p))
             (g_correctPredictions g)\<rparr>
      else g)"

section \<open>The confidence table stays in its range\<close>

definition conf_table_ok :: "Globals \<Rightarrow> bool" where
  "conf_table_ok g = (um_wf (g_confidenceTable g) \<and>
     (\<forall>h c. um_find (g_confidenceTable g) h = Some c \<longrightarrow> c \<le> of_nat PRED_CONFIDENCE_MAX))"

lemma initConf_ok: "conf_table_ok g \<Longrightarrow> conf_table_ok (initConf h g)"
  by (auto simp: conf_table_ok_def initConf_def um_has_def um_simps um_wf_intros)

lemma initConf_find: "um_find (g_confidenceTable (initConf h g)) h' =
    (if h' = h \<and> um_find (g_confidenceTable g) h = None then Some 3 else um_find (g_confidenceTable g) h')"
  by (auto simp: initConf_def um_has_def um_simps)

lemma reward_conf_find: "um_find (g_confidenceTable (reward_conf h g)) h' =
    (if h' = h then Some (let c = (case um_find (g_confidenceTable g) h of None \<Rightarrow> 0 | Some c \<Rightarrow> c) in
       if c = 4 then 4 else c + 1) else um_find (g_confidenceTable g) h')"
  by (auto simp: reward_conf_def um_simps Let_def)

lemma inc_le_four: "(c :: 16 word) \<le> 4 \<Longrightarrow> c \<noteq> 4 \<Longrightarrow> c + 1 \<le> 4"
  by (simp add: word_le_nat_alt word_unat_eq_iff unat_word_ariths(1))

lemma reward_conf_ok:
  assumes "conf_table_ok g"
  shows "conf_table_ok (reward_conf h g)"
proof -
  have "um_wf (g_confidenceTable (reward_conf h g))"
    using assms by (simp add: conf_table_ok_def reward_conf_def Let_def um_wf_intros)
  moreover have "c \<le> 4" if "um_find (g_confidenceTable (reward_conf h g)) h' = Some c" for h' c
    using that assms inc_le_four
    by (auto simp: reward_conf_find conf_table_ok_def Let_def split: if_splits option.splits)
  ultimately show ?thesis by (simp add: conf_table_ok_def)
qed

definition conf_of :: "Globals \<Rightarrow> hash_t \<Rightarrow> 16 word" where
  "conf_of g h = (case um_find (g_confidenceTable g) h of None \<Rightarrow> 3 | Some c \<Rightarrow> c)"

lemma conf_of_initConf [simp]: "conf_of (initConf h g) = conf_of g"
  by (rule ext) (auto simp: conf_of_def initConf_find)

lemma conf_of_reward: "conf_of g h \<le> 4 \<Longrightarrow> um_find (g_confidenceTable g) h \<noteq> None \<Longrightarrow>
    conf_of (reward_conf h g) = (conf_of g)(h := (if conf_of g h = 4 then 4 else conf_of g h + 1))"
  by (rule ext) (auto simp: conf_of_def reward_conf_find Let_def)

lemma conf_table_conf_of: "conf_table_ok g \<Longrightarrow> conf_of g h \<le> 4"
  by (auto simp: conf_table_ok_def conf_of_def split: option.splits)

end
