(* ===== verification/Predictor_Table.thy ===== *)
theory Predictor_Table
  imports Globals Queues
begin

text \<open>
  \<open>mem/predictor/PredictorTable.{hh,cc}\<close>: entries that say which earlier stores generate the address
  and the data of a persistent store, kept under the hash of the path that leads to it.

  Values that the constructors read from the environment (rewards, thresholds, sizes, switches) are
  members of \<open>PTCfg\<close>; so is the start value of \<open>clock\<close>, a member that the code never initialises.  The
  index history buffer, the PC filter and the last found keys are never filled by the code and are left
  out, except that the (always empty) filter can be asked.  Distribution statistics are left out.
\<close>

section \<open>Entries\<close>

record PTCfg =
  pc_addrReward :: Age_t
  pc_dataReward :: Age_t
  pc_staleThreshold :: Age_t
  pc_maxSize :: nat
  pc_pathHistorySize :: nat
  pc_const0PredEnabled :: bool
  pc_disableConfidence :: bool
  pc_clock :: Tick

record PredictorTableEntry =
  pte_addrChunk :: ChunkInfo
  pte_dataChunks :: "ChunkInfo list"
  pte_pcSig :: "PC_t list"
  pte_used :: bool
  pte_insertionOrder :: Age_t
  pte_hasAge :: bool
  pte_addrReward :: Age_t
  pte_dataReward :: Age_t
  pte_originalCacheLine :: CacheLine
  pte_hasOrigCL :: bool
  pte_addrOnlyPrediction :: bool
  pte_hash :: hash_t
  pte_hasHash :: bool
  pte_addrConf :: Confidence
  pte_dataConf :: Confidence

text \<open>\<open>hasHash\<close> has no initialiser in the code; it is false here until \<open>set_hash\<close> is called.\<close>

definition mk_PTE :: "PTCfg \<Rightarrow> Tick \<Rightarrow> PredictorTableEntry" where
  "mk_PTE cfg curTick = \<lparr>pte_addrChunk = ChunkInfo_default, pte_dataChunks = replicate 16 ChunkInfo_default,
     pte_pcSig = [0, 0, 0], pte_used = False, pte_insertionOrder = 0, pte_hasAge = False,
     pte_addrReward = pc_addrReward cfg, pte_dataReward = pc_dataReward cfg,
     pte_originalCacheLine = CacheLine_default curTick, pte_hasOrigCL = False, pte_addrOnlyPrediction = False,
     pte_hash = 0, pte_hasHash = False, pte_addrConf = mk_Confidence 6 7 0, pte_dataConf = mk_Confidence 6 7 0\<rparr>"

definition pte_set_addr_chunk :: "ChunkInfo \<Rightarrow> PredictorTableEntry \<Rightarrow> PredictorTableEntry res" where
  "pte_set_addr_chunk c e =
     bindE (assertE (ci_chunkType c = CT_ADDR) ''set_addr_chunk'') (\<lambda>_. Inr (e\<lparr>pte_addrChunk := c\<rparr>))"

text \<open>The assignment operator copies neither the rewards nor the confidences nor the address-only mark.\<close>

definition pte_assign :: "PredictorTableEntry \<Rightarrow> PredictorTableEntry \<Rightarrow> PredictorTableEntry" where
  "pte_assign e src = e\<lparr>pte_addrChunk := pte_addrChunk src, pte_dataChunks := pte_dataChunks src,
     pte_pcSig := pte_pcSig src, pte_used := pte_used src, pte_insertionOrder := pte_insertionOrder src,
     pte_hasAge := pte_hasAge src, pte_originalCacheLine := pte_originalCacheLine src,
     pte_hasOrigCL := pte_hasOrigCL src, pte_hash := pte_hash src, pte_hasHash := pte_hasHash src\<rparr>"

definition pte_use :: "PredictorTableEntry \<Rightarrow> PredictorTableEntry res" where
  "pte_use e = bindE (panic_if (pte_used e) ''Entry already used'') (\<lambda>_. Inr (e\<lparr>pte_used := False\<rparr>))"

definition pte_set_order :: "Age_t \<Rightarrow> PredictorTableEntry \<Rightarrow> PredictorTableEntry" where
  "pte_set_order order e = e\<lparr>pte_hasAge := True, pte_insertionOrder := order\<rparr>"

definition pte_get_age :: "Age_t \<Rightarrow> PredictorTableEntry \<Rightarrow> Age_t res" where
  "pte_get_age currentOrder e =
     bindE (panic_if_not (pte_hasAge e) ''hasAge'') (\<lambda>_.
     bindE (panic_if (currentOrder < pte_insertionOrder e) ''Current order'') (\<lambda>_.
     Inr (currentOrder - pte_insertionOrder e)))"

definition pte_notify_confidence :: "bool \<Rightarrow> bool \<Rightarrow> PredictorTableEntry \<Rightarrow> PredictorTableEntry res" where
  "pte_notify_confidence addrPrediction dataPrediction e =
     bindE (if addrPrediction then conf_add 1 (pte_addrConf e) else conf_sub 1 (pte_addrConf e)) (\<lambda>a.
     bindE (if dataPrediction then conf_add 1 (pte_dataConf e) else conf_sub 1 (pte_dataConf e)) (\<lambda>d.
     Inr (e\<lparr>pte_addrConf := a, pte_dataConf := d\<rparr>)))"

definition pte_notify_correct_prediction :: "bool \<Rightarrow> bool \<Rightarrow> PredictorTableEntry \<Rightarrow> PredictorTableEntry" where
  "pte_notify_correct_prediction wasAddrPredicted wasDataPredicted e =
     (let e1 = (if wasAddrPredicted then e\<lparr>pte_insertionOrder := pte_insertionOrder e - pte_addrReward e\<rparr> else e) in
      if wasDataPredicted then e1\<lparr>pte_insertionOrder := pte_insertionOrder e1 - pte_dataReward e1\<rparr> else e1)"

definition pte_set_original_cacheline :: "CacheLine \<Rightarrow> PredictorTableEntry \<Rightarrow> PredictorTableEntry" where
  "pte_set_original_cacheline cl e = e\<lparr>pte_hasOrigCL := True, pte_originalCacheLine := cl\<rparr>"

definition pte_get_original_cacheline :: "PredictorTableEntry \<Rightarrow> CacheLine res" where
  "pte_get_original_cacheline e =
     bindE (panic_if_not (pte_hasOrigCL e) ''hasOrigCL'') (\<lambda>_. Inr (pte_originalCacheLine e))"

definition pte_set_addr_only_pred :: "PredictorTableEntry \<Rightarrow> PredictorTableEntry" where
  "pte_set_addr_only_pred e = e\<lparr>pte_addrOnlyPrediction := True\<rparr>"

definition pte_get_hash :: "PredictorTableEntry \<Rightarrow> hash_t res" where
  "pte_get_hash e = bindE (panic_if_not (pte_hasHash e) ''has_hash'') (\<lambda>_. Inr (pte_hash e))"

definition pte_set_hash :: "hash_t \<Rightarrow> PredictorTableEntry \<Rightarrow> PredictorTableEntry" where
  "pte_set_hash h e = e\<lparr>pte_hash := h, pte_hasHash := True\<rparr>"

text \<open>A line whose data are the (truncated) generating program counters.\<close>

definition gen_pc_chunk :: "ChunkInfo \<Rightarrow> ChunkInfo res" where
  "gen_pc_chunk src =
     bindE (is_valid src) (\<lambda>v.
     if v then bindE (get_generating_pc src) (\<lambda>pc. set_data (ucast pc) (set_chunk_type CT_DATA ChunkInfo_default))
     else Inr ChunkInfo_default)"

definition gen_pc_as_cl :: "Tick \<Rightarrow> PredictorTableEntry \<Rightarrow> CacheLine res" where
  "gen_pc_as_cl curTick e =
     bindE (map_res gen_pc_chunk (pte_dataChunks e)) (\<lambda>cs.
     bindE (get_generating_pc (pte_addrChunk e)) (\<lambda>pc.
     Inr (set_addr pc ((CacheLine_default curTick)\<lparr>cl_dataChunks := cs\<rparr>))))"

definition earliest_tick :: "pcQueueEntry_t list \<Rightarrow> Tick" where
  "earliest_tick q = fold (\<lambda>e t. if t > pqe_tick e then pqe_tick e else t) (take 3 q) (- 1)"

text \<open>The search range \<open>[begin, begin + 3)\<close> is out of bounds on a queue of fewer than three elements.\<close>

definition mark_chunk :: "pcQueueEntry_t list \<Rightarrow> ChunkInfo \<Rightarrow> ChunkInfo res" where
  "mark_chunk q c =
     bindE (is_valid c) (\<lambda>v.
     if \<not> v then Inr c
     else if length q < 3 then Inl (Undefined ''queue_n.begin() + 3'')
     else bindE (get_generating_pc c) (\<lambda>pc.
       bindE (get_gen_pc_in_tick c) (\<lambda>t.
       if t < earliest_tick q \<and> \<not> list_ex (\<lambda>e. pqe_pc e = pc) (take 3 q)
       then Inr (set_whb_search c) else Inr c)))"

definition mark_pred_for_whb_search :: "PCQueue \<Rightarrow> PredictorTableEntry \<Rightarrow> PredictorTableEntry res" where
  "mark_pred_for_whb_search pcQueue e =
     (let q = pq_queue_n pcQueue in
      bindE (map_res (mark_chunk q) (pte_dataChunks e)) (\<lambda>cs.
      bindE (is_valid (pte_addrChunk e)) (\<lambda>v.
      bindE (if v then bindE (get_gen_pc_in_tick (pte_addrChunk e)) (\<lambda>t. Inr (t < earliest_tick q)) else Inr False) (\<lambda>before.
      Inr (e\<lparr>pte_dataChunks := cs,
             pte_addrChunk := (if before then set_whb_search (pte_addrChunk e) else pte_addrChunk e)\<rparr>)))))"

section \<open>The table\<close>

record PredictorTable =
  prt_ds :: DataStore
  prt_size :: nat
  prt_MAX_SIZE :: nat
  prt_predictorTable :: "(hash_t, PredictorTableEntry) umap"
  prt_pcFilter :: "(PC_t, size_t) umap"
  prt_lastFoundHashes :: "hash_t list"
  prt_currentOrder :: Age_t
  prt_STALE_ENTRY_AGE_THRESHOLD :: Age_t
  prt_clock :: Tick
  prt_pathHistory :: "PC_t SimpleFixedSizeQueue"
  prt_const0PredEnabled :: bool
  prt_disableConfidence :: bool
  prt_entryReplacementCounter :: nat
  prt_droppedAdditions :: nat
  prt_capacityEvictions :: nat
  prt_staleEntryDeletionCounter :: nat
  prt_predictorTableTicks :: nat
  prt_correctPredictionCounter :: nat
  prt_notifications :: nat
  prt_const0PredUpdates :: nat
  prt_const0PredDeletions :: nat

definition mk_PredictorTable :: "PTCfg \<Rightarrow> string \<Rightarrow> PredictorTable" where
  "mk_PredictorTable cfg nm = \<lparr>prt_ds = mk_DataStore nm, prt_size = 0, prt_MAX_SIZE = pc_maxSize cfg,
     prt_predictorTable = [], prt_pcFilter = [], prt_lastFoundHashes = [], prt_currentOrder = 0,
     prt_STALE_ENTRY_AGE_THRESHOLD = pc_staleThreshold cfg, prt_clock = pc_clock cfg,
     prt_pathHistory = mk_SimpleFixedSizeQueue (pc_pathHistorySize cfg),
     prt_const0PredEnabled = pc_const0PredEnabled cfg, prt_disableConfidence = pc_disableConfidence cfg,
     prt_entryReplacementCounter = 0, prt_droppedAdditions = 0, prt_capacityEvictions = 0,
     prt_staleEntryDeletionCounter = 0, prt_predictorTableTicks = 0, prt_correctPredictionCounter = 0,
     prt_notifications = 0, prt_const0PredUpdates = 0, prt_const0PredDeletions = 0\<rparr>"

abbreviation (input) LOW_CONF_TRESH :: "32 word" where "LOW_CONF_TRESH \<equiv> 1"
abbreviation (input) CLOCK_PERIOD :: Tick where "CLOCK_PERIOD \<equiv> 2"

definition prt_contains :: "hash_t \<Rightarrow> PredictorTable \<Rightarrow> bool" where
  "prt_contains h t = um_has (prt_predictorTable t) h"

definition prt_get_size :: "PredictorTable \<Rightarrow> nat" where
  "prt_get_size t = length (prt_predictorTable t)"

definition prt_get :: "hash_t \<Rightarrow> PredictorTable \<Rightarrow> (PredictorTableEntry \<times> PredictorTable) res" where
  "prt_get h t = bindE (um_at (prt_predictorTable t) h) (\<lambda>e. Inr (e, t\<lparr>prt_ds := ds_get (prt_ds t)\<rparr>))"

definition prt_remove_elem :: "hash_t \<Rightarrow> PredictorTable \<Rightarrow> PredictorTable" where
  "prt_remove_elem h t =
     t\<lparr>prt_ds := ds_remove (prt_ds t), prt_predictorTable := um_erase h (prt_predictorTable t)\<rparr>"

definition isPCInPCFilter :: "PC_t \<Rightarrow> PredictorTable \<Rightarrow> bool" where
  "isPCInPCFilter pc t = um_has (prt_pcFilter t) pc"

text \<open>The path hash: the program counters of the history, shifted by their position and combined by
  exclusive or.  A shift by 64 or more is undefined.\<close>

definition path_hash_step :: "PC_t list \<Rightarrow> nat \<Rightarrow> hash_t \<Rightarrow> hash_t res" where
  "path_hash_step q i r =
     bindE (vec_at q i) (\<lambda>pc. if i < 64 then Inr (r XOR push_bit i pc) else Inl (Undefined ''shift''))"

definition get_path_hash :: "PredictorTable \<Rightarrow> hash_t res" where
  "get_path_hash t =
     bindE (sq_get_size (prt_pathHistory t)) (\<lambda>n.
     fold_res (path_hash_step (sq_queue (prt_pathHistory t))) [0..<n] 0)"

primrec has_hash_loop :: "hash_t \<Rightarrow> (hash_t, PredictorTableEntry) umap \<Rightarrow> bool res" where
  "has_hash_loop h [] = Inr False"
| "has_hash_loop h (x # m) =
     bindE (pte_get_hash (snd x)) (\<lambda>h'. if h' = h then Inr True else has_hash_loop h m)"

definition prt_has_hash :: "hash_t \<Rightarrow> PredictorTable \<Rightarrow> bool res" where
  "prt_has_hash h t = has_hash_loop h (prt_predictorTable t)"

text \<open>The loop does not stop at the first match; its result starts as a fresh entry and is assigned to.\<close>

definition get_with_hash_step :: "hash_t \<Rightarrow> hash_t \<times> PredictorTableEntry \<Rightarrow> PredictorTableEntry \<times> bool \<Rightarrow>
    (PredictorTableEntry \<times> bool) res" where
  "get_with_hash_step h x r =
     bindE (pte_get_hash (snd x)) (\<lambda>h'. Inr (if h' = h then (pte_assign (fst r) (snd x), True) else r))"

definition get_with_hash :: "PTCfg \<Rightarrow> Tick \<Rightarrow> hash_t \<Rightarrow> PredictorTable \<Rightarrow> PredictorTableEntry res" where
  "get_with_hash cfg curTick h t =
     bindE (fold_res (get_with_hash_step h) (prt_predictorTable t) (mk_PTE cfg curTick, False)) (\<lambda>(e, found).
     bindE (panic_if (\<not> found) ''Unable to find any match for hash'') (\<lambda>_. Inr e))"

section \<open>Eviction and aging\<close>

definition eviction_step :: "PredictorTable \<Rightarrow> hash_t \<times> PredictorTableEntry \<Rightarrow> hash_t \<Rightarrow> hash_t res" where
  "eviction_step t x r =
     (if \<not> prt_disableConfidence t
      then bindE (conf_get (pte_addrConf (snd x))) (\<lambda>c. Inr (if c \<le> LOW_CONF_TRESH then fst x else r))
      else bindE (pte_get_age (prt_currentOrder t) (snd x)) (\<lambda>a.
             Inr (if a > prt_STALE_ENTRY_AGE_THRESHOLD t then fst x else r)))"

definition getEvictionIndex :: "PredictorTable \<Rightarrow> hash_t res" where
  "getEvictionIndex t = fold_res (eviction_step t) (prt_predictorTable t) 0"

text \<open>Stale entries: old, and not of full confidence in the backend's table.\<close>

definition stale_step :: "PredictorTable \<Rightarrow> hash_t \<times> PredictorTableEntry \<Rightarrow> Globals \<times> hash_t list \<Rightarrow>
    (Globals \<times> hash_t list) res" where
  "stale_step t x r =
     (let g = initConf (fst x) (fst r) in
      bindE (pte_get_age (prt_currentOrder t) (snd x)) (\<lambda>a.
      bindE (um_at (g_confidenceTable g) (fst x)) (\<lambda>c.
      Inr (g, snd r @ (if a > prt_STALE_ENTRY_AGE_THRESHOLD t \<and> unat c < PRED_CONFIDENCE_MAX then [fst x] else [])))))"

definition remove_stale :: "hash_t \<Rightarrow> PredictorTable \<Rightarrow> PredictorTable" where
  "remove_stale h t =
     (let t1 = prt_remove_elem h t in
      t1\<lparr>prt_staleEntryDeletionCounter := prt_staleEntryDeletionCounter t1 + 1\<rparr>)"

definition cleanup_stale_entries :: "Globals \<times> PredictorTable \<Rightarrow> (Globals \<times> PredictorTable) res" where
  "cleanup_stale_entries s =
     bindE (fold_res (stale_step (snd s)) (prt_predictorTable (snd s)) (fst s, [])) (\<lambda>(g, deletionQ).
     Inr (g, fold remove_stale deletionQ (snd s)))"

definition prt_tick :: "Globals \<times> PredictorTable \<Rightarrow> (Globals \<times> PredictorTable) res" where
  "prt_tick s =
     bindE (if prt_clock (snd s) mod CLOCK_PERIOD = 0
            then bindE (cleanup_stale_entries s) (\<lambda>(g, t).
                   Inr (g, t\<lparr>prt_predictorTableTicks := prt_predictorTableTicks t + 1\<rparr>))
            else Inr s) (\<lambda>(g, t).
     Inr (g, t\<lparr>prt_clock := prt_clock t + 1\<rparr>))"

section \<open>Constant-zero chunks\<close>

definition both_data :: "ChunkInfo \<Rightarrow> ChunkInfo \<Rightarrow> bool res" where
  "both_data tgt src =
     bindE (is_valid tgt) (\<lambda>tv. bindE (is_valid src) (\<lambda>sv.
     if tv \<and> sv
     then bindE (panic_if (ci_chunkType tgt \<noteq> CT_DATA) ''target'') (\<lambda>_.
          bindE (panic_if (ci_chunkType src \<noteq> CT_DATA) ''source'') (\<lambda>_. Inr True))
     else Inr False))"

definition set_zero_chunk :: "ChunkInfo \<Rightarrow> ChunkInfo \<Rightarrow> (ChunkInfo \<times> nat) res" where
  "set_zero_chunk tgt src =
     bindE (both_data tgt src) (\<lambda>b.
     if b then bindE (get_data tgt) (\<lambda>x. bindE (get_data src) (\<lambda>y.
            Inr (if x = y \<and> x = 0 then (set_const_0_pred tgt, 1) else (tgt, 0))))
     else Inr (tgt, 0))"

definition unset_zero_chunk :: "ChunkInfo \<Rightarrow> ChunkInfo \<Rightarrow> (ChunkInfo \<times> nat) res" where
  "unset_zero_chunk tgt src =
     bindE (both_data tgt src) (\<lambda>b.
     if b then bindE (get_data tgt) (\<lambda>x. bindE (get_data src) (\<lambda>y.
            Inr (if x \<noteq> y \<and> is_const_0_pred tgt then (unset_const_0_pred tgt, 1) else (tgt, 0))))
     else Inr (tgt, 0))"

fun zip_chunks :: "(ChunkInfo \<Rightarrow> ChunkInfo \<Rightarrow> (ChunkInfo \<times> nat) res) \<Rightarrow> ChunkInfo list \<Rightarrow> ChunkInfo list \<Rightarrow>
    (ChunkInfo list \<times> nat) res" where
  "zip_chunks f (x # xs) (y # ys) =
     bindE (f x y) (\<lambda>(c, k). bindE (zip_chunks f xs ys) (\<lambda>(cs, n). Inr (c # cs, k + n)))"
| "zip_chunks f xs ys = Inr ([], 0)"

definition update_entry_for_0_pred :: "PredictorTableEntry \<Rightarrow> PredictorTable \<Rightarrow> PredictorTable res" where
  "update_entry_for_0_pred elem t =
     (if prt_const0PredEnabled t
      then bindE (pte_get_hash elem) (\<lambda>h.
           case um_find (prt_predictorTable t) h of
             None \<Rightarrow> Inl (Panic ''non existent pc signature'')
           | Some tgt \<Rightarrow>
               bindE (zip_chunks set_zero_chunk (pte_dataChunks tgt) (pte_dataChunks elem)) (\<lambda>(cs, n).
               bindE (zip_chunks unset_zero_chunk cs (pte_dataChunks elem)) (\<lambda>(cs', k).
               Inr (t\<lparr>prt_predictorTable := um_put h (tgt\<lparr>pte_dataChunks := cs'\<rparr>) (prt_predictorTable t),
                      prt_const0PredUpdates := prt_const0PredUpdates t + n,
                      prt_const0PredDeletions := prt_const0PredDeletions t + k\<rparr>))))
      else Inr t)"

section \<open>Insertion\<close>

text \<open>\<open>std::unordered_map::insert\<close> leaves an existing key alone.\<close>

definition prt_place :: "hash_t \<Rightarrow> PredictorTableEntry \<Rightarrow> PredictorTable \<Rightarrow> PredictorTable res" where
  "prt_place h elem t =
     (case um_find (prt_predictorTable t) h of
        Some old \<Rightarrow>
          bindE (conf_get (pte_addrConf old)) (\<lambda>a. bindE (conf_get (pte_dataConf old)) (\<lambda>d.
          if a \<le> LOW_CONF_TRESH \<or> d \<le> LOW_CONF_TRESH
          then Inr (t\<lparr>prt_entryReplacementCounter := prt_entryReplacementCounter t + 1,
                      prt_predictorTable := um_insert h elem (prt_predictorTable t)\<rparr>)
          else bindE (conf_sub 1 (pte_dataConf old)) (\<lambda>d'.
               update_entry_for_0_pred elem
                 (t\<lparr>prt_droppedAdditions := prt_droppedAdditions t + 1,
                    prt_predictorTable := um_put h (old\<lparr>pte_dataConf := d'\<rparr>) (prt_predictorTable t)\<rparr>))))
      | None \<Rightarrow>
          bindE (if prt_size t + 1 > prt_MAX_SIZE t
                 then bindE (getEvictionIndex t) (\<lambda>i.
                      Inr (if i \<noteq> 0
                           then t\<lparr>prt_capacityEvictions := prt_capacityEvictions t + 1,
                                  prt_predictorTable := um_erase i (prt_predictorTable t)\<rparr>
                           else t))
                 else Inr t) (\<lambda>t2.
          Inr (t2\<lparr>prt_predictorTable := um_insert h elem (prt_predictorTable t2)\<rparr>)))"

definition prt_add :: "PredictorTableEntry \<Rightarrow> Globals \<times> PredictorTable \<Rightarrow> (Globals \<times> PredictorTable) res" where
  "prt_add elem s =
     bindE (panic_if_not (pte_hasOrigCL elem) ''has_orig_cacheline'') (\<lambda>_.
     bindE (prt_tick (fst s, (snd s)\<lparr>prt_ds := ds_add (prt_ds (snd s))\<rparr>)) (\<lambda>(g, t).
     let elem1 = pte_set_order (prt_currentOrder t) elem;
         t1 = t\<lparr>prt_currentOrder := prt_currentOrder t + 1\<rparr> in
     bindE (pte_get_hash elem1) (\<lambda>h.
     bindE (prt_place h elem1 t1) (\<lambda>t2.
     bindE (panic_if_not (prt_size t2 \<le> prt_MAX_SIZE t2) ''size'') (\<lambda>_.
     Inr (g, t2))))))"

section \<open>Feedback\<close>

definition prt_notify_correct_prediction :: "hash_t \<Rightarrow> bool \<Rightarrow> bool \<Rightarrow> PredictorTable \<Rightarrow> PredictorTable res" where
  "prt_notify_correct_prediction h addrPrediction dataPrediction t =
     (let t1 = t\<lparr>prt_notifications := prt_notifications t + 1\<rparr> in
      case um_find (prt_predictorTable t1) h of
        None \<Rightarrow> Inr t1
      | Some e \<Rightarrow> bindE (pte_notify_confidence addrPrediction dataPrediction e) (\<lambda>e1.
          Inr (t1\<lparr>prt_predictorTable :=
                 um_put h (pte_notify_correct_prediction addrPrediction dataPrediction e1) (prt_predictorTable t1)\<rparr>)))"

text \<open>The two counts are narrowed to \<open>int\<close>.\<close>

definition to_int :: "size_t \<Rightarrow> int" where
  "to_int n = sint (ucast n :: 32 word)"

definition notify_round :: "hash_t \<Rightarrow> int \<Rightarrow> nat \<Rightarrow> PredictorTable \<Rightarrow> PredictorTable res" where
  "notify_round h correctDataPred i t =
     (let wasDataPredicted = (correctDataPred - int i \<ge> 0) in
      bindE (prt_notify_correct_prediction h True wasDataPredicted t) (\<lambda>t1.
      Inr (if wasDataPredicted then t1\<lparr>prt_correctPredictionCounter := prt_correctPredictionCounter t1 + 1\<rparr> else t1)))"

definition check_shared_area :: "Globals \<times> PredictorTable \<Rightarrow> (Globals \<times> PredictorTable) res" where
  "check_shared_area s =
     bindE (fold_res (\<lambda>x. fold_res (notify_round (fst x) (to_int (snd (snd x)))) [0..<nat (to_int (fst (snd x)))])
              (g_correctPredictions (fst s)) (snd s)) (\<lambda>t.
     Inr ((fst s)\<lparr>g_correctPredictions := []\<rparr>, t))"

text \<open>The data of the packet are fetched, padded when shorter than a chunk, and not used.\<close>

definition update_ihb :: "Packet \<Rightarrow> Globals \<times> PredictorTable \<Rightarrow> (bool \<times> Globals \<times> PredictorTable) res" where
  "update_ihb pkt s =
     bindE (check_shared_area s) (\<lambda>(g, t).
     bindE (panic_if (\<not> isWrite pkt) ''isWrite'') (\<lambda>_.
     bindE (getPC (pk_req pkt)) (\<lambda>pc.
     bindE (getSize pkt) (\<lambda>sz.
     bindE (if sz = 0 \<or> sz = 3 then Inr [] else getPtr pkt) (\<lambda>_.
     bindE (sq_push_back pc (prt_pathHistory t)) (\<lambda>ph.
     let t1 = t\<lparr>prt_pathHistory := ph, prt_lastFoundHashes := []\<rparr> in
     bindE (get_path_hash t1) (\<lambda>h.
     bindE (prt_has_hash h t1) (\<lambda>b.
     Inr (b, g, if b then t1\<lparr>prt_lastFoundHashes := [h]\<rparr> else t1)))))))))"

section \<open>The invariant of the table\<close>

definition pte_ok :: "Age_t \<Rightarrow> hash_t \<Rightarrow> PredictorTableEntry \<Rightarrow> bool" where
  "pte_ok now h e = (pte_hasHash e \<and> pte_hash e = h \<and> pte_hasAge e \<and> pte_insertionOrder e \<le> now \<and>
     conf_inv (pte_addrConf e) \<and> conf_inv (pte_dataConf e) \<and> pte_hasOrigCL e \<and>
     0 \<le> pte_addrReward e \<and> 0 \<le> pte_dataReward e \<and>
     length (pte_dataChunks e) = 16 \<and> list_all chunk_ok (pte_dataChunks e))"

definition prt_inv :: "PredictorTable \<Rightarrow> bool" where
  "prt_inv t = (um_wf (prt_predictorTable t) \<and> prt_size t = 0 \<and> 0 < prt_MAX_SIZE t \<and>
     sq_inv (prt_pathHistory t) \<and> sq_sz (prt_pathHistory t) \<le> 64 \<and>
     (\<forall>h e. um_find (prt_predictorTable t) h = Some e \<longrightarrow> pte_ok (prt_currentOrder t) h e))"

lemma prt_inv_entry: "prt_inv t \<Longrightarrow> x \<in> set (prt_predictorTable t) \<Longrightarrow> pte_ok (prt_currentOrder t) (fst x) (snd x)"
  by (cases x) (auto simp: prt_inv_def um_find_iff)

definition stale :: "Globals \<Rightarrow> PredictorTable \<Rightarrow> hash_t \<Rightarrow> PredictorTableEntry \<Rightarrow> bool" where
  "stale g t h e = (prt_currentOrder t - pte_insertionOrder e > prt_STALE_ENTRY_AGE_THRESHOLD t \<and>
     unat (conf_of g h) < PRED_CONFIDENCE_MAX)"

lemma stale_step_ok:
  assumes "pte_ok (prt_currentOrder t) (fst x) (snd x)"
  shows "stale_step t x (g, q) = Inr (initConf (fst x) g, q @ (if stale g t (fst x) (snd x) then [fst x] else []))"
proof -
  have "um_find (g_confidenceTable (initConf (fst x) g)) (fst x) = Some (conf_of g (fst x))"
    by (auto simp: initConf_find conf_of_def)
  with assms show ?thesis
    by (auto simp: stale_step_def pte_get_age_def pte_ok_def stale_def)
qed

lemma stale_loop:
  assumes "\<forall>x\<in>set m. pte_ok (prt_currentOrder t) (fst x) (snd x)" and "conf_table_ok g"
  shows "\<exists>g'. fold_res (stale_step t) m (g, q) = Inr (g', q @ map fst (filter (\<lambda>x. stale g t (fst x) (snd x)) m)) \<and>
    conf_table_ok g' \<and> conf_of g' = conf_of g \<and> g' = g\<lparr>g_confidenceTable := g_confidenceTable g'\<rparr>"
  using assms
proof (induction m arbitrary: g q)
  case (Cons x m)
  let ?g = "initConf (fst x) g"
  have eq: "stale ?g t = stale g t" by (simp add: fun_eq_iff stale_def)

  from Cons.IH [of ?g "q @ (if stale g t (fst x) (snd x) then [fst x] else [])"] Cons.prems obtain g' where
    g': "fold_res (stale_step t) m (?g, q @ (if stale g t (fst x) (snd x) then [fst x] else [])) =
       Inr (g', (q @ (if stale g t (fst x) (snd x) then [fst x] else [])) @ map fst (filter (\<lambda>x. stale g t (fst x) (snd x)) m))"
    "conf_table_ok g'" "conf_of g' = conf_of g" "g' = ?g\<lparr>g_confidenceTable := g_confidenceTable g'\<rparr>"
    by (auto simp: initConf_ok eq)
  from g'(4) have "g' = g\<lparr>g_confidenceTable := g_confidenceTable g'\<rparr>" by (simp add: initConf_def split: if_splits)
  with g' show ?case using stale_step_ok [of t x g q] Cons.prems(1) by auto
qed simp

lemma remove_stale_fold:
  "um_find (prt_predictorTable (fold remove_stale hs t)) k = (if k \<in> set hs then None else um_find (prt_predictorTable t) k)"
  "um_wf (prt_predictorTable t) \<Longrightarrow> um_wf (prt_predictorTable (fold remove_stale hs t))"
  by (induction hs arbitrary: t) (auto simp: remove_stale_def prt_remove_elem_def Let_def um_simps um_wf_intros)

lemma remove_stale_same [simp]:
  "prt_currentOrder (fold remove_stale hs t) = prt_currentOrder t"
  "prt_pathHistory (fold remove_stale hs t) = prt_pathHistory t"
  "prt_size (fold remove_stale hs t) = prt_size t"
  "prt_MAX_SIZE (fold remove_stale hs t) = prt_MAX_SIZE t"
  "prt_clock (fold remove_stale hs t) = prt_clock t"
  "prt_STALE_ENTRY_AGE_THRESHOLD (fold remove_stale hs t) = prt_STALE_ENTRY_AGE_THRESHOLD t"
  "prt_const0PredEnabled (fold remove_stale hs t) = prt_const0PredEnabled t"
  by (induction hs arbitrary: t) (auto simp: remove_stale_def prt_remove_elem_def Let_def)

definition expires :: "Globals \<Rightarrow> PredictorTable \<Rightarrow> hash_t \<Rightarrow> PredictorTableEntry \<Rightarrow> bool" where
  "expires g t h e = (prt_clock t mod CLOCK_PERIOD = 0 \<and> stale g t h e)"

definition survivors :: "Globals \<Rightarrow> PredictorTable \<Rightarrow> hash_t \<Rightarrow> PredictorTableEntry option" where
  "survivors g t h = (case um_find (prt_predictorTable t) h of
     None \<Rightarrow> None | Some e \<Rightarrow> if expires g t h e then None else Some e)"

lemma survivors_Some: "survivors g t h = Some e \<Longrightarrow> um_find (prt_predictorTable t) h = Some e"
  by (auto simp: survivors_def split: option.splits if_splits)

lemma cleanup_ok:
  assumes inv: "prt_inv t" and ct: "conf_table_ok g" and clk: "prt_clock t mod CLOCK_PERIOD = 0"
  shows "\<exists>g' hs. cleanup_stale_entries (g, t) = Inr (g', fold remove_stale hs t) \<and> conf_table_ok g' \<and> conf_of g' = conf_of g \<and>
    g' = g\<lparr>g_confidenceTable := g_confidenceTable g'\<rparr> \<and>
    (\<forall>k. um_find (prt_predictorTable (fold remove_stale hs t)) k = survivors g t k)"
proof -
  have wf: "um_wf (prt_predictorTable t)" using inv by (simp add: prt_inv_def)
  have "\<forall>x\<in>set (prt_predictorTable t). pte_ok (prt_currentOrder t) (fst x) (snd x)" using prt_inv_entry [OF inv] by blast
  from stale_loop [OF this ct, of "[]"] obtain g' where
    g': "fold_res (stale_step t) (prt_predictorTable t) (g, []) =
        Inr (g', map fst (filter (\<lambda>x. stale g t (fst x) (snd x)) (prt_predictorTable t)))"
      "conf_table_ok g'" "conf_of g' = conf_of g" "g' = g\<lparr>g_confidenceTable := g_confidenceTable g'\<rparr>" by auto
  let ?hs = "map fst (filter (\<lambda>x. stale g t (fst x) (snd x)) (prt_predictorTable t))"
  have "um_find (prt_predictorTable (fold remove_stale ?hs t)) k = survivors g t k" for k
  proof -
    have "k \<in> set ?hs \<longleftrightarrow> (\<exists>e. um_find (prt_predictorTable t) k = Some e \<and> stale g t k e)"
      unfolding um_find_iff [OF wf] by force
    then show ?thesis
      by (auto simp: remove_stale_fold survivors_def expires_def clk split: option.splits)
  qed
  with g' show ?thesis by (auto simp: cleanup_stale_entries_def)
qed

lemma prt_inv_mono:
  assumes "prt_inv t" and "um_wf (prt_predictorTable t')"
    and "\<forall>h e. um_find (prt_predictorTable t') h = Some e \<longrightarrow> um_find (prt_predictorTable t) h = Some e"
    and "prt_currentOrder t' = prt_currentOrder t" and "prt_size t' = prt_size t" and "prt_MAX_SIZE t' = prt_MAX_SIZE t"
    and "prt_pathHistory t' = prt_pathHistory t"
  shows "prt_inv t'"
  using assms unfolding prt_inv_def by auto

lemma prt_tick_ok:
  assumes inv: "prt_inv t" and ct: "conf_table_ok g"
  shows "\<exists>g' t'. prt_tick (g, t) = Inr (g', t') \<and> prt_inv t' \<and> conf_table_ok g' \<and> conf_of g' = conf_of g \<and>
    g' = g\<lparr>g_confidenceTable := g_confidenceTable g'\<rparr> \<and>
    (\<forall>k. um_find (prt_predictorTable t') k = survivors g t k) \<and> prt_currentOrder t' = prt_currentOrder t \<and>
    prt_pathHistory t' = prt_pathHistory t \<and> prt_const0PredEnabled t' = prt_const0PredEnabled t"
proof (cases "prt_clock t mod CLOCK_PERIOD = 0")
  case True
  from cleanup_ok [OF inv ct True] obtain g' hs where c: "cleanup_stale_entries (g, t) = Inr (g', fold remove_stale hs t)"
    "conf_table_ok g'" "conf_of g' = conf_of g" "g' = g\<lparr>g_confidenceTable := g_confidenceTable g'\<rparr>"
    "\<forall>k. um_find (prt_predictorTable (fold remove_stale hs t)) k = survivors g t k" by blast
  let ?t = "fold remove_stale hs t"
  let ?t' = "?t\<lparr>prt_predictorTableTicks := prt_predictorTableTicks ?t + 1, prt_clock := prt_clock ?t + 1\<rparr>"
  have "prt_tick (g, t) = Inr (g', ?t')" using True c(1) by (simp add: prt_tick_def)
  moreover have "prt_inv ?t'"
    by (rule prt_inv_mono [OF inv])
       (use c(5) survivors_Some inv in \<open>auto simp: remove_stale_fold(2) prt_inv_def\<close>)
  ultimately show ?thesis using c(2-5) by (intro exI [of _ g'] exI [of _ ?t']) simp
next
  case False
  then have "survivors g t k = um_find (prt_predictorTable t) k" for k
    by (auto simp: survivors_def expires_def split: option.splits)
  moreover have "prt_inv (t\<lparr>prt_clock := prt_clock t + 1\<rparr>)" using inv by (simp add: prt_inv_def)
  ultimately show ?thesis using False ct by (simp add: prt_tick_def)
qed

section \<open>Constant-zero chunks keep an entry well-formed\<close>

text \<open>Equal up to the mark of a constant zero.\<close>

definition chunk_like :: "ChunkInfo \<Rightarrow> ChunkInfo \<Rightarrow> bool" where
  "chunk_like c c' = (c' = c\<lparr>ci_flags := ci_flags c'\<rparr> \<and>
     unset_flag (ci_flags c') CONST_0_PREDICTION = unset_flag (ci_flags c) CONST_0_PREDICTION)"

lemma chunk_like_refl [simp]: "chunk_like c c"
  by (simp add: chunk_like_def)

lemma chunk_like_trans: "chunk_like c d \<Longrightarrow> chunk_like d e \<Longrightarrow> chunk_like c e"
  by (auto simp: chunk_like_def) (metis ChunkInfo.surjective ChunkInfo.update_convs(8))

lemma chunk_like_set: "chunk_like c (set_const_0_pred c)" "chunk_like c (unset_const_0_pred c)"
  by (auto simp: chunk_like_def set_const_0_pred_def unset_const_0_pred_def unset_flag_def set_flag_def
      intro!: bit_word_eqI simp: bit_simps)

lemma chunk_like_flag:
  assumes "chunk_like c c'" and "CONST_0_PREDICTION AND f = 0"
  shows "is_flag_set (ci_flags c') f = is_flag_set (ci_flags c) f"
  using assms is_flag_set_unset_disjoint [OF assms(2)] unfolding chunk_like_def by metis

lemma chunk_like_fields:
  assumes "chunk_like c c'"
  shows "ci_chunkType c' = ci_chunkType c" "ci_generatingPC c' = ci_generatingPC c" "ci_dataFieldOffset c' = ci_dataFieldOffset c"
    "ci_content c' = ci_content c"
proof -
  have "c' = c\<lparr>ci_flags := ci_flags c'\<rparr>" using assms by (simp add: chunk_like_def)
  then show "ci_chunkType c' = ci_chunkType c" "ci_generatingPC c' = ci_generatingPC c" "ci_dataFieldOffset c' = ci_dataFieldOffset c"
    "ci_content c' = ci_content c" by (metis ChunkInfo.select_convs ChunkInfo.surjective ChunkInfo.update_convs(8))+
qed

lemma zip_chunks_ok:
  assumes "\<And>x y. chunk_ok x \<Longrightarrow> chunk_ok y \<Longrightarrow> \<exists>c k. f x y = Inr (c, k) \<and> chunk_ok c \<and> chunk_like x c"
    and "length xs = length ys" and "list_all chunk_ok xs" and "list_all chunk_ok ys"
  shows "\<exists>cs n. zip_chunks f xs ys = Inr (cs, n) \<and> length cs = length xs \<and> list_all chunk_ok cs \<and> list_all2 chunk_like xs cs"
  using assms(2-4)
proof (induction xs ys rule: list_induct2)
  case (Cons x xs y ys)
  then obtain c k cs n where "f x y = Inr (c, k)" "chunk_ok c" "chunk_like x c" "zip_chunks f xs ys = Inr (cs, n)"
    "length cs = length xs" "list_all chunk_ok cs" "list_all2 chunk_like xs cs"
    using assms(1) [of x y] by auto
  then show ?case by simp
qed simp

lemma set_zero_chunk_ok: "chunk_ok x \<Longrightarrow> chunk_ok y \<Longrightarrow> \<exists>c k. set_zero_chunk x y = Inr (c, k) \<and> chunk_ok c \<and> chunk_like x c"
  using chunk_like_set(1) [of x]
  by (auto simp: set_zero_chunk_def both_data_def set_const_0_pred_def chunk_ok_def get_data_def is_valid_def is_flag_set_set)

lemma unset_zero_chunk_ok: "chunk_ok x \<Longrightarrow> chunk_ok y \<Longrightarrow> \<exists>c k. unset_zero_chunk x y = Inr (c, k) \<and> chunk_ok c \<and> chunk_like x c"
  using chunk_like_set(2) [of x]
  by (auto simp: unset_zero_chunk_def both_data_def unset_const_0_pred_def chunk_ok_def get_data_def is_valid_def is_flag_set_unset_disjoint)

lemma update_0_pred_ok:
  assumes "um_wf (prt_predictorTable t)" and "um_find (prt_predictorTable t) h = Some old" and "pte_ok now h old"
    and "pte_hasHash elem" and "pte_hash elem = h" and "length (pte_dataChunks elem) = 16" and "list_all chunk_ok (pte_dataChunks elem)"
  shows "\<exists>t' cs. update_entry_for_0_pred elem t = Inr t' \<and> length cs = 16 \<and> list_all chunk_ok cs \<and> list_all2 chunk_like (pte_dataChunks old) cs \<and>
    um_wf (prt_predictorTable t') \<and>
    (\<forall>k. um_find (prt_predictorTable t') k = (if k = h then Some (old\<lparr>pte_dataChunks := cs\<rparr>) else um_find (prt_predictorTable t) k)) \<and>
    prt_currentOrder t' = prt_currentOrder t \<and> prt_size t' = prt_size t \<and> prt_MAX_SIZE t' = prt_MAX_SIZE t \<and>
    prt_pathHistory t' = prt_pathHistory t"
proof (cases "prt_const0PredEnabled t")
  case False
  then have "update_entry_for_0_pred elem t = Inr t" by (simp add: update_entry_for_0_pred_def)
  then show ?thesis using assms by (intro exI [of _ t] exI [of _ "pte_dataChunks old"]) (auto simp: pte_ok_def list.rel_refl)
next
  case True
  have old: "length (pte_dataChunks old) = length (pte_dataChunks elem)" "list_all chunk_ok (pte_dataChunks old)"
    using assms(3,6) by (auto simp: pte_ok_def)
  obtain cs n where
    cs: "zip_chunks set_zero_chunk (pte_dataChunks old) (pte_dataChunks elem) = Inr (cs, n)" "length cs = length (pte_dataChunks elem)" "list_all chunk_ok cs"
      "list_all2 chunk_like (pte_dataChunks old) cs"
    using zip_chunks_ok [of set_zero_chunk, OF _ old assms(7)] set_zero_chunk_ok old(1) by metis
  obtain cs' k where
    cs': "zip_chunks unset_zero_chunk cs (pte_dataChunks elem) = Inr (cs', k)" "length cs' = 16" "list_all chunk_ok cs'" "list_all2 chunk_like cs cs'"
    using zip_chunks_ok [of unset_zero_chunk, OF _ cs(2,3) assms(7)] unset_zero_chunk_ok cs(2) assms(6) by metis
  have "list_all2 chunk_like (pte_dataChunks old) cs'"
    using list_all2_trans [of chunk_like chunk_like chunk_like, OF _ cs(4) cs'(4)] chunk_like_trans by blast
  then show ?thesis
    using True assms(1,2,4,5) cs(1) cs'(1-3)
    by (intro exI [of _ "t\<lparr>prt_predictorTable := um_put h (old\<lparr>pte_dataChunks := cs'\<rparr>) (prt_predictorTable t),
          prt_const0PredUpdates := prt_const0PredUpdates t + n, prt_const0PredDeletions := prt_const0PredDeletions t + k\<rparr>"]
          exI [of _ cs']) (simp add: update_entry_for_0_pred_def pte_get_hash_def um_simps um_wf_intros)
qed

section \<open>Insertion\<close>

definition elem_ok :: "PredictorTableEntry \<Rightarrow> bool" where
  "elem_ok e = (pte_hasHash e \<and> pte_hasOrigCL e \<and> conf_inv (pte_addrConf e) \<and> conf_inv (pte_dataConf e) \<and>
     0 \<le> pte_addrReward e \<and> 0 \<le> pte_dataReward e \<and> length (pte_dataChunks e) = 16 \<and> list_all chunk_ok (pte_dataChunks e))"

lemma elem_ok_order: "elem_ok e \<Longrightarrow> now \<le> later \<Longrightarrow> pte_ok later (pte_hash e) (pte_set_order now e)"
  by (simp add: elem_ok_def pte_ok_def pte_set_order_def)

lemma pte_ok_later: "pte_ok now h e \<Longrightarrow> now \<le> later \<Longrightarrow> pte_ok later h e"
  by (auto simp: pte_ok_def)

definition low_conf :: "PredictorTableEntry \<Rightarrow> bool" where
  "low_conf e = (cf_conf (pte_addrConf e) \<le> 1 \<or> cf_conf (pte_dataConf e) \<le> 1)"

lemma low_conf_iff:
  assumes "pte_ok now h e"
  shows "\<exists>a d. conf_get (pte_addrConf e) = Inr a \<and> conf_get (pte_dataConf e) = Inr d \<and>
    (a \<le> LOW_CONF_TRESH \<or> d \<le> LOW_CONF_TRESH \<longleftrightarrow> low_conf e)"
  using conf_get_val [of "pte_addrConf e"] conf_get_val [of "pte_dataConf e"] assms
  by (auto simp: pte_ok_def low_conf_def word_le_def)

text \<open>What insertion leaves under the key of the inserted entry when an entry is there already.\<close>

definition kept_entry :: "PredictorTableEntry \<Rightarrow> PredictorTableEntry \<Rightarrow> bool" where
  "kept_entry old e = (\<exists>cs d. e = old\<lparr>pte_dataChunks := cs, pte_dataConf := d\<rparr> \<and> conf_inv d \<and>
     length cs = 16 \<and> list_all chunk_ok cs \<and> list_all2 chunk_like (pte_dataChunks old) cs \<and>
     (if low_conf old then cs = pte_dataChunks old \<and> d = pte_dataConf old
      else cf_conf d = max (uint (cf_min (pte_dataConf old))) (cf_conf (pte_dataConf old) - 1)))"

lemma kept_entry_ok: "pte_ok now h old \<Longrightarrow> kept_entry old e \<Longrightarrow> pte_ok now h e"
  by (auto simp: kept_entry_def pte_ok_def)

lemma prt_inv_put:
  assumes "prt_inv t" and "\<forall>k. k \<noteq> h \<longrightarrow> um_find (prt_predictorTable t') k = um_find (prt_predictorTable t) k"
    and "um_find (prt_predictorTable t') h = Some e" and "pte_ok (prt_currentOrder t') h e" and "um_wf (prt_predictorTable t')"
    and "prt_currentOrder t \<le> prt_currentOrder t'" and "prt_size t' = prt_size t" and "prt_MAX_SIZE t' = prt_MAX_SIZE t"
    and "prt_pathHistory t' = prt_pathHistory t"
  shows "prt_inv t'"
  using assms pte_ok_later unfolding prt_inv_def by (metis option.inject)

lemma prt_place_ok:
  assumes el: "elem_ok elem" and inv: "prt_inv t" and h: "h = pte_hash elem"
    and elem1: "elem1 = pte_set_order (prt_currentOrder t) elem"
    and t1: "t1 = t\<lparr>prt_currentOrder := prt_currentOrder t + 1\<rparr>"
  shows "\<exists>t3. prt_place h elem1 t1 = Inr t3 \<and>
    (\<forall>k. k \<noteq> h \<longrightarrow> um_find (prt_predictorTable t3) k = um_find (prt_predictorTable t) k) \<and>
    (\<exists>e. um_find (prt_predictorTable t3) h = Some e \<and> (case um_find (prt_predictorTable t) h of
       None \<Rightarrow> e = elem1 | Some old \<Rightarrow> kept_entry old e)) \<and> um_wf (prt_predictorTable t3) \<and>
    prt_currentOrder t3 = prt_currentOrder t + 1 \<and> prt_size t3 = prt_size t \<and> prt_MAX_SIZE t3 = prt_MAX_SIZE t \<and>
    prt_pathHistory t3 = prt_pathHistory t"
proof (cases "um_find (prt_predictorTable t) h")
  case None
  then show ?thesis using inv by (simp add: prt_place_def t1 um_simps um_wf_intros prt_inv_def)
next
  case (Some old)
  have ok: "pte_ok (prt_currentOrder t) h old" using inv Some by (simp add: prt_inv_def)
  have wf: "um_wf (prt_predictorTable t)" using inv by (simp add: prt_inv_def)
  obtain a d where ad: "conf_get (pte_addrConf old) = Inr a" "conf_get (pte_dataConf old) = Inr d"
    "a \<le> LOW_CONF_TRESH \<or> d \<le> LOW_CONF_TRESH \<longleftrightarrow> low_conf old" using low_conf_iff [OF ok] by blast
  show ?thesis
  proof (cases "low_conf old")
    case True
    moreover have "kept_entry old old"
      using True ok unfolding kept_entry_def by (intro exI [of _ "pte_dataChunks old"] exI [of _ "pte_dataConf old"]) (simp add: pte_ok_def list.rel_refl)
    ultimately show ?thesis using Some ad wf by (simp add: prt_place_def t1 um_insert_present)
  next
    case False
    obtain d' where d': "conf_sub 1 (pte_dataConf old) = Inr d'" "conf_inv d'"
      "cf_conf d' = clamp (uint (cf_min (pte_dataConf old))) (uint (cf_max (pte_dataConf old))) (cf_conf (pte_dataConf old) - 1)"
      using ok conf_sub_ok [of "pte_dataConf old" 1] by (auto simp: pte_ok_def)
    let ?t = "t1\<lparr>prt_droppedAdditions := prt_droppedAdditions t1 + 1,
                prt_predictorTable := um_put h (old\<lparr>pte_dataConf := d'\<rparr>) (prt_predictorTable t1)\<rparr>"
    have f: "um_find (prt_predictorTable ?t) h = Some (old\<lparr>pte_dataConf := d'\<rparr>)" by (simp add: um_simps)
    have pre: "um_wf (prt_predictorTable ?t)" "pte_ok (prt_currentOrder t) h (old\<lparr>pte_dataConf := d'\<rparr>)"
      "pte_hasHash elem1" "pte_hash elem1 = h" "length (pte_dataChunks elem1) = 16" "list_all chunk_ok (pte_dataChunks elem1)"
      using wf ok d'(2) el by (simp_all add: t1 elem1 h um_wf_intros pte_ok_def elem_ok_def pte_set_order_def)
    obtain t3 cs where t3: "update_entry_for_0_pred elem1 ?t = Inr t3" "length cs = 16" "list_all chunk_ok cs" "list_all2 chunk_like (pte_dataChunks old) cs" "um_wf (prt_predictorTable t3)"
      "\<forall>k. um_find (prt_predictorTable t3) k = (if k = h then Some (old\<lparr>pte_dataConf := d', pte_dataChunks := cs\<rparr>) else um_find (prt_predictorTable ?t) k)"
      "prt_currentOrder t3 = prt_currentOrder ?t" "prt_size t3 = prt_size ?t" "prt_MAX_SIZE t3 = prt_MAX_SIZE ?t"
      "prt_pathHistory t3 = prt_pathHistory ?t"
      using update_0_pred_ok [OF pre(1) f pre(2-6)] by auto
    have "kept_entry old (old\<lparr>pte_dataConf := d', pte_dataChunks := cs\<rparr>)"
      unfolding kept_entry_def using False d'(2,3) t3(2-4) ok
      by (intro exI [of _ cs] exI [of _ d']) (auto simp: clamp_def pte_ok_def conf_inv_def)
    then show ?thesis using Some ad False d'(1) t3 by (simp add: prt_place_def t1 um_simps)
  qed
qed

lemma prt_add_run:
  assumes el: "elem_ok elem" and inv: "prt_inv t" and ct: "conf_table_ok g"
  shows "\<exists>g' t'. prt_add elem (g, t) = Inr (g', t') \<and> prt_inv t' \<and> conf_table_ok g' \<and>
    g' = g\<lparr>g_confidenceTable := g_confidenceTable g'\<rparr> \<and> prt_currentOrder t' = prt_currentOrder t + 1 \<and>
    (\<forall>k. k \<noteq> pte_hash elem \<longrightarrow> um_find (prt_predictorTable t') k = survivors g t k) \<and>
    (\<exists>e. um_find (prt_predictorTable t') (pte_hash elem) = Some e \<and> (case survivors g t (pte_hash elem) of
       None \<Rightarrow> e = pte_set_order (prt_currentOrder t) elem | Some old \<Rightarrow> kept_entry old e))"
proof -
  let ?t0 = "t\<lparr>prt_ds := ds_add (prt_ds t)\<rparr>"
  have "prt_inv ?t0" using inv by (simp add: prt_inv_def)
  from prt_tick_ok [OF this ct] obtain g' t1 where
    t1: "prt_tick (g, ?t0) = Inr (g', t1)" "prt_inv t1" "conf_table_ok g'"
      "g' = g\<lparr>g_confidenceTable := g_confidenceTable g'\<rparr>"
      "\<forall>k. um_find (prt_predictorTable t1) k = survivors g ?t0 k" "prt_currentOrder t1 = prt_currentOrder t" by auto
  have surv: "survivors g ?t0 k = survivors g t k" for k
    by (simp add: survivors_def expires_def stale_def cong: option.case_cong)
  let ?e = "pte_set_order (prt_currentOrder t1) elem"
  let ?t1 = "t1\<lparr>prt_currentOrder := prt_currentOrder t1 + 1\<rparr>"
  let ?h = "pte_hash elem"
  from prt_place_ok [OF el t1(2) refl refl refl] obtain t3 where
    t3: "prt_place ?h ?e ?t1 = Inr t3"
    "\<forall>k. k \<noteq> ?h \<longrightarrow> um_find (prt_predictorTable t3) k = um_find (prt_predictorTable t1) k"
    "\<exists>e. um_find (prt_predictorTable t3) ?h = Some e \<and> (case um_find (prt_predictorTable t1) ?h of
       None \<Rightarrow> e = ?e | Some old \<Rightarrow> kept_entry old e)"
    "um_wf (prt_predictorTable t3)" "prt_currentOrder t3 = prt_currentOrder t1 + 1" "prt_size t3 = prt_size t1"
    "prt_MAX_SIZE t3 = prt_MAX_SIZE t1" "prt_pathHistory t3 = prt_pathHistory t1" by blast
  from t3(3) obtain e where e: "um_find (prt_predictorTable t3) ?h = Some e"
    "case um_find (prt_predictorTable t1) ?h of None \<Rightarrow> e = ?e | Some old \<Rightarrow> kept_entry old e" by blast
  have "pte_ok (prt_currentOrder t3) ?h e"
  proof (cases "um_find (prt_predictorTable t1) ?h")
    case None
    then show ?thesis using e(2) elem_ok_order [OF el, of "prt_currentOrder t1" "prt_currentOrder t3"] t3(5) by simp
  next
    case (Some old)
    then have "pte_ok (prt_currentOrder t1) ?h old" "kept_entry old e" using t1(2) e(2) by (simp_all add: prt_inv_def)
    from pte_ok_later [OF kept_entry_ok [OF this]] t3(5) show ?thesis by simp
  qed
  then have "prt_inv t3" using prt_inv_put [OF t1(2) t3(2) e(1) _ t3(4)] t3(5-8) by simp
  moreover have "prt_add elem (g, t) = Inr (g', t3)"
  proof -
    have "pte_get_hash ?e = Inr ?h" "pte_hasOrigCL elem" using el by (simp_all add: elem_ok_def pte_get_hash_def pte_set_order_def)
    moreover have "prt_size t3 \<le> prt_MAX_SIZE t3"
      using t1(2) t3(6,7) by (simp_all add: prt_inv_def)
    ultimately show ?thesis using t1(1) t3(1) by (simp add: prt_add_def)
  qed
  ultimately show ?thesis using t1(3-5) t3(2,5) e surv by (intro exI [of _ g'] exI [of _ t3]) (auto simp: t1(6) cong: option.case_cong)
qed

definition example_ptcfg :: PTCfg where
  "example_ptcfg = \<lparr>pc_addrReward = 2, pc_dataReward = 3, pc_staleThreshold = 100, pc_maxSize = 2,
     pc_pathHistorySize = 4, pc_const0PredEnabled = True, pc_disableConfidence = False, pc_clock = 0\<rparr>"

definition example_elem :: "hash_t \<Rightarrow> PredictorTableEntry" where
  "example_elem h = pte_set_hash h (pte_set_original_cacheline (CacheLine_default 0) (mk_PTE example_ptcfg 0))"

lemma example_elem_ok: "elem_ok (example_elem h)" "pte_hash (example_elem h) = h"
  by (simp_all add: elem_ok_def example_elem_def pte_set_hash_def pte_set_original_cacheline_def mk_PTE_def
      example_ptcfg_def conf_inv_def mk_Confidence_def chunk_ok_def ChunkInfo_default_def is_flag_set_def list_all_length)

lemma mk_PredictorTable_inv:
  "0 < pc_maxSize cfg \<Longrightarrow> 0 < pc_pathHistorySize cfg \<Longrightarrow> pc_pathHistorySize cfg \<le> 64 \<Longrightarrow> prt_inv (mk_PredictorTable cfg nm)"
  by (simp add: prt_inv_def mk_PredictorTable_def mk_SimpleFixedSizeQueue_inv) (simp add: mk_SimpleFixedSizeQueue_def)

lemma Globals_init_conf_table [simp]: "conf_table_ok Globals_init"
  by (simp add: conf_table_ok_def Globals_init_def)

section \<open>Lookup by hash\<close>

lemma has_hash_loop_keys: "(\<forall>x\<in>set m. pte_hasHash (snd x) \<and> pte_hash (snd x) = fst x) \<Longrightarrow>
    has_hash_loop h m = Inr (h \<in> fst ` set m)"
  by (induction m) (auto simp: pte_get_hash_def)

lemma prt_inv_keys: "prt_inv t \<Longrightarrow> \<forall>x\<in>set (prt_predictorTable t). pte_hasHash (snd x) \<and> pte_hash (snd x) = fst x"
  using prt_inv_entry by (auto simp: pte_ok_def)

lemma prt_has_hash_find: "prt_inv t \<Longrightarrow> prt_has_hash h t = Inr (um_find (prt_predictorTable t) h \<noteq> None)"
  by (simp add: prt_has_hash_def has_hash_loop_keys [OF prt_inv_keys] um_find_None)

lemma get_with_hash_loop:
  assumes "\<forall>x\<in>set m. pte_hasHash (snd x) \<and> pte_hash (snd x) = fst x" and "distinct (map fst m)"
  shows "fold_res (get_with_hash_step h) m r =
    Inr (case map_of m h of None \<Rightarrow> r | Some e \<Rightarrow> (pte_assign (fst r) e, True))"
  using assms
proof (induction m arbitrary: r)
  case (Cons x m)
  then have "get_with_hash_step h x r = Inr (if fst x = h then (pte_assign (fst r) (snd x), True) else r)"
    by (simp add: get_with_hash_step_def pte_get_hash_def)
  moreover have "fst x = h \<Longrightarrow> map_of m h = None" using Cons.prems(2) by (auto simp: map_of_eq_None_iff)
  ultimately show ?case using Cons by simp
qed simp

lemma get_with_hash_run:
  assumes "prt_inv t"
  shows "get_with_hash cfg now h t = (case um_find (prt_predictorTable t) h of
     None \<Rightarrow> Inl (Panic ''Unable to find any match for hash'') | Some e \<Rightarrow> Inr (pte_assign (mk_PTE cfg now) e))"
proof -
  have "distinct (map fst (prt_predictorTable t))" using assms by (simp add: prt_inv_def um_wf_def)
  from get_with_hash_loop [OF prt_inv_keys [OF assms] this] show ?thesis
    by (auto simp: get_with_hash_def um_find_def split: option.splits)
qed

section \<open>Feedback\<close>

definition rewarded :: "nat \<Rightarrow> nat \<Rightarrow> PredictorTableEntry \<Rightarrow> PredictorTableEntry \<Rightarrow> bool" where
  "rewarded a d e e' = (\<exists>ac dc.
     let ok = min a (d + 1); lo = uint (cf_min (pte_dataConf e)); hi = uint (cf_max (pte_dataConf e)) in
     e' = e\<lparr>pte_addrConf := ac, pte_dataConf := dc,
            pte_insertionOrder := pte_insertionOrder e - int a * pte_addrReward e - int ok * pte_dataReward e\<rparr> \<and>
     conf_inv ac \<and> cf_min ac = cf_min (pte_addrConf e) \<and> cf_max ac = cf_max (pte_addrConf e) \<and>
     conf_inv dc \<and> cf_min dc = cf_min (pte_dataConf e) \<and> cf_max dc = cf_max (pte_dataConf e) \<and>
     cf_conf ac = min (uint (cf_max (pte_addrConf e))) (cf_conf (pte_addrConf e) + int a) \<and>
     cf_conf dc = max lo (min hi (cf_conf (pte_dataConf e) + int ok) - int (a - ok)))"

lemma notify_conf_ok:
  assumes "conf_inv (pte_addrConf e)" and "conf_inv (pte_dataConf e)"
  shows "\<exists>a d. pte_notify_confidence True w e = Inr (e\<lparr>pte_addrConf := a, pte_dataConf := d\<rparr>) \<and> conf_inv a \<and> conf_inv d \<and>
    cf_min a = cf_min (pte_addrConf e) \<and> cf_max a = cf_max (pte_addrConf e) \<and>
    cf_min d = cf_min (pte_dataConf e) \<and> cf_max d = cf_max (pte_dataConf e) \<and>
    cf_conf a = clamp (uint (cf_min (pte_addrConf e))) (uint (cf_max (pte_addrConf e))) (cf_conf (pte_addrConf e) + 1) \<and>
    cf_conf d = clamp (uint (cf_min (pte_dataConf e))) (uint (cf_max (pte_dataConf e))) (cf_conf (pte_dataConf e) + (if w then 1 else - 1))"
proof -
  obtain a where a: "conf_add 1 (pte_addrConf e) = Inr a" "conf_inv a \<and> cf_min a = cf_min (pte_addrConf e) \<and> cf_max a = cf_max (pte_addrConf e) \<and>
    cf_conf a = clamp (uint (cf_min (pte_addrConf e))) (uint (cf_max (pte_addrConf e))) (cf_conf (pte_addrConf e) + 1)"
    using conf_add_ok [OF assms(1), of 1] by blast
  obtain d where d: "(if w then conf_add 1 (pte_dataConf e) else conf_sub 1 (pte_dataConf e)) = Inr d"
    "conf_inv d \<and> cf_min d = cf_min (pte_dataConf e) \<and> cf_max d = cf_max (pte_dataConf e) \<and>
    cf_conf d = clamp (uint (cf_min (pte_dataConf e))) (uint (cf_max (pte_dataConf e))) (cf_conf (pte_dataConf e) + (if w then 1 else - 1))"
    using conf_add_ok [OF assms(2), of 1] conf_sub_ok [OF assms(2), of 1] by (cases w) auto
  show ?thesis using a d by (intro exI [of _ a] exI [of _ d]) (simp add: pte_notify_confidence_def)
qed

lemma clamp_up: "lo \<le> x \<Longrightarrow> x \<le> hi \<Longrightarrow> clamp lo hi (min hi (x + int i) + 1) = min hi (x + int (Suc i))"
  by (auto simp: clamp_def min_def max_def)

lemma clamp_up_down:
  fixes x hi lo :: int and d i :: nat
  assumes "lo \<le> x" and "x \<le> hi"
  shows "clamp lo hi (max lo (min hi (x + int (min i (d + 1))) - int (i - min i (d + 1))) + (if int d - int i \<ge> 0 then 1 else - 1))
    = max lo (min hi (x + int (min (Suc i) (d + 1))) - int (Suc i - min (Suc i) (d + 1)))"
  using assms by (auto simp: clamp_def min_def max_def of_nat_diff Suc_diff_le)

lemma rewarded_0: "pte_ok now h e \<Longrightarrow> rewarded 0 d e e"
  unfolding rewarded_def by (intro exI [of _ "pte_addrConf e"] exI [of _ "pte_dataConf e"]) (simp add: pte_ok_def conf_inv_def)

lemma rewarded_ok: "pte_ok now h e \<Longrightarrow> rewarded i d e e' \<Longrightarrow> pte_ok now h e'"
  by (auto simp: rewarded_def Let_def pte_ok_def) (smt (verit) mult_nonneg_nonneg of_nat_0_le_iff)

lemma rewarded_Suc:
  assumes ok: "pte_ok now h e" and r: "rewarded i d e e'" and w: "w = (int d - int i \<ge> 0)"
  shows "\<exists>e1. pte_notify_confidence True w e' = Inr e1 \<and> rewarded (Suc i) d e (pte_notify_correct_prediction True w e1)"
proof -
  have b: "uint (cf_min (pte_addrConf e)) \<le> cf_conf (pte_addrConf e)" "cf_conf (pte_addrConf e) \<le> uint (cf_max (pte_addrConf e))"
    "uint (cf_min (pte_dataConf e)) \<le> cf_conf (pte_dataConf e)" "cf_conf (pte_dataConf e) \<le> uint (cf_max (pte_dataConf e))"
    using ok by (simp_all add: pte_ok_def conf_inv_def)
  from r obtain ac dc where e': "e' = e\<lparr>pte_addrConf := ac, pte_dataConf := dc,
       pte_insertionOrder := pte_insertionOrder e - int i * pte_addrReward e - int (min i (d + 1)) * pte_dataReward e\<rparr>"
    and acdc: "conf_inv ac" "cf_min ac = cf_min (pte_addrConf e)" "cf_max ac = cf_max (pte_addrConf e)"
     "conf_inv dc" "cf_min dc = cf_min (pte_dataConf e)" "cf_max dc = cf_max (pte_dataConf e)"
     "cf_conf ac = min (uint (cf_max (pte_addrConf e))) (cf_conf (pte_addrConf e) + int i)"
     "cf_conf dc = max (uint (cf_min (pte_dataConf e))) (min (uint (cf_max (pte_dataConf e)))
        (cf_conf (pte_dataConf e) + int (min i (d + 1))) - int (i - min i (d + 1)))"
    unfolding rewarded_def Let_def by blast
  have "conf_inv (pte_addrConf e')" "conf_inv (pte_dataConf e')" using acdc by (simp_all add: e')
  from notify_conf_ok [OF this, of w] obtain a c where
    ac: "pte_notify_confidence True w e' = Inr (e'\<lparr>pte_addrConf := a, pte_dataConf := c\<rparr>)"
      "conf_inv a" "conf_inv c" "cf_min a = cf_min ac" "cf_max a = cf_max ac" "cf_min c = cf_min dc" "cf_max c = cf_max dc"
      "cf_conf a = clamp (uint (cf_min ac)) (uint (cf_max ac)) (cf_conf ac + 1)"
      "cf_conf c = clamp (uint (cf_min dc)) (uint (cf_max dc)) (cf_conf dc + (if w then 1 else - 1))"
    by (auto simp: e')
  have "cf_conf a = min (uint (cf_max (pte_addrConf e))) (cf_conf (pte_addrConf e) + int (Suc i))"
    by (simp only: ac(8) acdc(2,3,7) clamp_up [OF b(1,2)])
  moreover have "cf_conf c = max (uint (cf_min (pte_dataConf e))) (min (uint (cf_max (pte_dataConf e)))
        (cf_conf (pte_dataConf e) + int (min (Suc i) (d + 1))) - int (Suc i - min (Suc i) (d + 1)))"
    by (simp only: ac(9) acdc(5,6,8) w clamp_up_down [OF b(3,4)])
  moreover have "pte_notify_correct_prediction True w (e'\<lparr>pte_addrConf := a, pte_dataConf := c\<rparr>) =
      e\<lparr>pte_addrConf := a, pte_dataConf := c, pte_insertionOrder := pte_insertionOrder e - int (Suc i) * pte_addrReward e -
        int (min (Suc i) (d + 1)) * pte_dataReward e\<rparr>"
  proof -
    have "min (Suc i) (d + 1) = (if w then Suc (min i (d + 1)) else min i (d + 1))" by (auto simp: w)
    then show ?thesis by (cases w) (simp_all add: pte_notify_correct_prediction_def e' Let_def algebra_simps del: min_Suc_Suc)
  qed
  ultimately show ?thesis using ac(1-7) acdc(2,3,5,6) unfolding rewarded_def Let_def
    by (intro exI [of _ "e'\<lparr>pte_addrConf := a, pte_dataConf := c\<rparr>"] conjI ac(1) exI [of _ a] exI [of _ c]) simp_all
qed

lemma notify_round_ok:
  assumes f: "um_find (prt_predictorTable t) h = Some e'" and ok: "pte_ok (prt_currentOrder t) h e" and r: "rewarded i d e e'"
  shows "\<exists>t'. notify_round h (int d) i t = Inr t' \<and>
    (\<exists>e''. um_find (prt_predictorTable t') h = Some e'' \<and> rewarded (Suc i) d e e'') \<and>
    (\<forall>k. k \<noteq> h \<longrightarrow> um_find (prt_predictorTable t') k = um_find (prt_predictorTable t) k) \<and>
    (um_wf (prt_predictorTable t) \<longrightarrow> um_wf (prt_predictorTable t')) \<and>
    prt_currentOrder t' = prt_currentOrder t \<and> prt_size t' = prt_size t \<and> prt_MAX_SIZE t' = prt_MAX_SIZE t \<and>
    prt_pathHistory t' = prt_pathHistory t"
  using rewarded_Suc [OF ok r refl] f
  by (auto simp: notify_round_def prt_notify_correct_prediction_def Let_def um_simps um_wf_intros)

lemma notify_rounds_ok:
  assumes f: "um_find (prt_predictorTable t) h = Some e" and inv: "prt_inv t"
  shows "\<exists>t'. fold_res (notify_round h (int d)) [0..<n] t = Inr t' \<and> prt_inv t' \<and>
    (\<exists>e'. um_find (prt_predictorTable t') h = Some e' \<and> rewarded n d e e') \<and>
    (\<forall>k. k \<noteq> h \<longrightarrow> um_find (prt_predictorTable t') k = um_find (prt_predictorTable t) k) \<and>
    prt_currentOrder t' = prt_currentOrder t \<and> prt_pathHistory t' = prt_pathHistory t"
proof (induction n)
  case 0
  then show ?case using f inv rewarded_0 [of "prt_currentOrder t" h e d] by (simp add: prt_inv_def)
next
  case (Suc n)
  then obtain t1 e1 where t1: "fold_res (notify_round h (int d)) [0..<n] t = Inr t1" "prt_inv t1"
    "um_find (prt_predictorTable t1) h = Some e1" "rewarded n d e e1" "prt_currentOrder t1 = prt_currentOrder t"
    "prt_pathHistory t1 = prt_pathHistory t"
    "\<forall>k. k \<noteq> h \<longrightarrow> um_find (prt_predictorTable t1) k = um_find (prt_predictorTable t) k" by blast
  have ok: "pte_ok (prt_currentOrder t1) h e" using f inv t1(5) by (simp add: prt_inv_def)
  from notify_round_ok [OF t1(3) ok t1(4)] obtain t2 e2 where t2: "notify_round h (int d) n t1 = Inr t2"
    "um_find (prt_predictorTable t2) h = Some e2" "rewarded (Suc n) d e e2"
    "\<forall>k. k \<noteq> h \<longrightarrow> um_find (prt_predictorTable t2) k = um_find (prt_predictorTable t1) k"
    "um_wf (prt_predictorTable t1) \<longrightarrow> um_wf (prt_predictorTable t2)" "prt_currentOrder t2 = prt_currentOrder t1"
    "prt_size t2 = prt_size t1" "prt_MAX_SIZE t2 = prt_MAX_SIZE t1" "prt_pathHistory t2 = prt_pathHistory t1" by blast
  have "prt_inv t2"
    using prt_inv_put [OF t1(2) t2(4,2)] rewarded_ok [OF ok t2(3)] t2(5-9) t1(2) by (simp add: prt_inv_def)
  then show ?case using t1 t2 by (simp add: fold_res_append)
qed

lemma notify_rounds_absent:
  assumes "um_find (prt_predictorTable t) h = None"
  shows "fold_res (notify_round h d) [0..<n] t =
    Inr (t\<lparr>prt_notifications := prt_notifications t + n,
           prt_correctPredictionCounter := prt_correctPredictionCounter t + card {i. i < n \<and> int i \<le> d}\<rparr>)"
proof (induction n)
  case (Suc n)
  have "{i. i < Suc n \<and> int i \<le> d} = (if int n \<le> d then insert n {i. i < n \<and> int i \<le> d} else {i. i < n \<and> int i \<le> d})"
    by (auto simp: less_Suc_eq)
  then show ?case
    using Suc assms by (simp add: fold_res_append notify_round_def prt_notify_correct_prediction_def Let_def)
qed simp

lemma to_int_small: "unat n < 2 ^ 31 \<Longrightarrow> to_int n = int (unat n)"
proof -
  assume n: "unat n < 2 ^ 31"
  then have u: "unat (ucast n :: 32 word) = unat n"
    by (simp add: unsigned_ucast_eq take_bit_nat_eq_self)
  then have "uint (ucast n :: 32 word) < 2 ^ 31" using n by (metis of_nat_less_iff of_nat_numeral of_nat_power uint_nat)
  then have "sint (ucast n :: 32 word) = uint (ucast n :: 32 word)"
    using signed_take_bit_int_eq_self [of 31 "uint (ucast n :: 32 word)"] order_trans [of "- (2 ^ 31)" 0 "uint (ucast n :: 32 word)"]
    by (simp add: sint_uint)
  then show ?thesis unfolding to_int_def u [symmetric] by (simp only: uint_nat)
qed

definition counts_small :: "(hash_t, size_t \<times> size_t) umap \<Rightarrow> bool" where
  "counts_small m = list_all (\<lambda>x. unat (fst (snd x)) < 2 ^ 31 \<and> unat (snd (snd x)) < 2 ^ 31) m"

definition feedback :: "(size_t \<times> size_t) option \<Rightarrow> PredictorTableEntry option \<Rightarrow> PredictorTableEntry option \<Rightarrow> bool" where
  "feedback n old new = (case old of None \<Rightarrow> new = None | Some e \<Rightarrow> (case n of None \<Rightarrow> new = Some e
     | Some ad \<Rightarrow> \<exists>e'. new = Some e' \<and> rewarded (unat (fst ad)) (unat (snd ad)) e e'))"

lemma notify_key_ok:
  assumes inv: "prt_inv t" and s: "unat a < 2 ^ 31" "unat d < 2 ^ 31"
  shows "\<exists>t'. fold_res (notify_round h (to_int d)) [0..<nat (to_int a)] t = Inr t' \<and> prt_inv t' \<and>
    feedback (Some (a, d)) (um_find (prt_predictorTable t) h) (um_find (prt_predictorTable t') h) \<and>
    (\<forall>k. k \<noteq> h \<longrightarrow> um_find (prt_predictorTable t') k = um_find (prt_predictorTable t) k) \<and>
    prt_currentOrder t' = prt_currentOrder t \<and> prt_pathHistory t' = prt_pathHistory t"
proof (cases "um_find (prt_predictorTable t) h")
  case None
  have "prt_inv (t\<lparr>prt_notifications := x, prt_correctPredictionCounter := y\<rparr>)" for x y
    using inv by (simp add: prt_inv_def)
  then show ?thesis using None by (simp add: notify_rounds_absent feedback_def)
next
  case (Some e)
  have "to_int a = int (unat a)" "to_int d = int (unat d)" using to_int_small s by blast+
  then show ?thesis using notify_rounds_ok [OF Some inv, of "unat d" "unat a"] Some by (auto simp only: nat_int feedback_def option.case fst_conv snd_conv)
qed

lemma check_shared_loop:
  assumes "prt_inv t" and "distinct (map fst m)" and "counts_small m"
  shows "\<exists>t'. fold_res (\<lambda>x. fold_res (notify_round (fst x) (to_int (snd (snd x)))) [0..<nat (to_int (fst (snd x)))]) m t = Inr t' \<and>
    prt_inv t' \<and> prt_currentOrder t' = prt_currentOrder t \<and> prt_pathHistory t' = prt_pathHistory t \<and>
    (\<forall>h. feedback (map_of m h) (um_find (prt_predictorTable t) h) (um_find (prt_predictorTable t') h))"
  using assms
proof (induction m arbitrary: t)
  case Nil
  then show ?case by (auto simp: feedback_def split: option.splits)
next
  case (Cons x m)
  obtain h a d where x: "x = (h, a, d)" by (cases x) auto
  from Cons.prems(3) have s: "unat a < 2 ^ 31" "unat d < 2 ^ 31" "counts_small m" by (simp_all add: counts_small_def x)
  from notify_key_ok [OF Cons.prems(1) s(1,2), of h] obtain t1 where
    t1: "fold_res (notify_round h (to_int d)) [0..<nat (to_int a)] t = Inr t1" "prt_inv t1"
      "feedback (Some (a, d)) (um_find (prt_predictorTable t) h) (um_find (prt_predictorTable t1) h)"
      "\<forall>k. k \<noteq> h \<longrightarrow> um_find (prt_predictorTable t1) k = um_find (prt_predictorTable t) k"
      "prt_currentOrder t1 = prt_currentOrder t" "prt_pathHistory t1 = prt_pathHistory t" by blast
  have "distinct (map fst m)" using Cons.prems(2) by simp
  from Cons.IH [OF t1(2) this s(3)] obtain t2 where
    t2: "fold_res (\<lambda>x. fold_res (notify_round (fst x) (to_int (snd (snd x)))) [0..<nat (to_int (fst (snd x)))]) m t1 = Inr t2"
      "prt_inv t2" "prt_currentOrder t2 = prt_currentOrder t1" "prt_pathHistory t2 = prt_pathHistory t1"
      "\<forall>k. feedback (map_of m k) (um_find (prt_predictorTable t1) k) (um_find (prt_predictorTable t2) k)" by blast
  have "map_of m h = None" using Cons.prems(2) by (simp add: x map_of_eq_None_iff)
  then have same: "um_find (prt_predictorTable t2) h = um_find (prt_predictorTable t1) h"
    using t2(5)[rule_format, of h] by (auto simp: feedback_def split: option.splits)
  have "feedback (map_of (x # m) k) (um_find (prt_predictorTable t) k) (um_find (prt_predictorTable t2) k)" for k
  proof (cases "k = h")
    case True
    then show ?thesis using t1(3) same by (simp add: x)
  next
    case False
    then show ?thesis using t1(4) t2(5)[rule_format, of k] by (simp add: x)
  qed
  then show ?case using t1 t2 by (simp add: x)
qed

lemma check_shared_run:
  assumes "prt_inv t" and "um_wf (g_correctPredictions g)" and "counts_small (g_correctPredictions g)"
  shows "\<exists>t'. check_shared_area (g, t) = Inr (g\<lparr>g_correctPredictions := []\<rparr>, t') \<and> prt_inv t' \<and>
    prt_pathHistory t' = prt_pathHistory t \<and>
    (\<forall>h. feedback (um_find (g_correctPredictions g) h) (um_find (prt_predictorTable t) h) (um_find (prt_predictorTable t') h))"
  using check_shared_loop [OF assms(1) _ assms(3)] assms(2)
  by (auto simp: check_shared_area_def um_wf_def um_find_def)

section \<open>The path hash\<close>



primrec horner_hash :: "PC_t list \<Rightarrow> hash_t" where
  "horner_hash [] = 0"
| "horner_hash (pc # pcs) = pc XOR push_bit 1 (horner_hash pcs)"

lemma path_hash_fold:
  assumes "n \<le> length q" and "n \<le> 64"
  shows "fold_res (path_hash_step q) [0..<n] 0 = Inr (horner_hash (take n q))"
  using assms
proof (induction n)
  case (Suc n)
  have app: "horner_hash (xs @ [y]) = horner_hash xs XOR push_bit (length xs) y" for xs :: "PC_t list" and y
    by (induction xs) (simp_all add: xor.assoc push_bit_xor push_bit_push_bit add.commute)
  have "take (Suc n) q = take n q @ [q ! n]" using Suc.prems(1) by (simp add: take_Suc_conv_app_nth)
  then have "horner_hash (take (Suc n) q) = horner_hash (take n q) XOR push_bit n (q ! n)"
    using app [of "take n q" "q ! n"] Suc.prems(1) by simp
  moreover have "path_hash_step q n (horner_hash (take n q)) = Inr (horner_hash (take n q) XOR push_bit n (q ! n))"
    using Suc.prems by (simp add: path_hash_step_def vec_at_def)
  ultimately show ?case using Suc.IH Suc.prems by (simp add: fold_res_append)
qed simp

lemma get_path_hash_run:
  assumes "sq_inv (prt_pathHistory t)" and "sq_sz (prt_pathHistory t) \<le> 64"
  shows "get_path_hash t = Inr (horner_hash (sq_queue (prt_pathHistory t)))"
proof -
  have "length (sq_queue (prt_pathHistory t)) \<le> 64" using assms by (simp add: sq_inv_def)
  from path_hash_fold [OF le_refl this] show ?thesis by (simp add: get_path_hash_def assms(1))
qed

lemma update_ihb_run:
  assumes inv: "prt_inv t" and wf: "um_wf (g_correctPredictions g)" "counts_small (g_correctPredictions g)"
    and pkt: "isWrite pkt" "getPC (pk_req pkt) = Inr pc" "getSize pkt = Inr sz" "getPtr pkt = Inr ds"
  shows "\<exists>b t' h. update_ihb pkt (g, t) = Inr (b, g\<lparr>g_correctPredictions := []\<rparr>, t') \<and> prt_inv t' \<and>
    (\<forall>h. feedback (um_find (g_correctPredictions g) h) (um_find (prt_predictorTable t) h) (um_find (prt_predictorTable t') h)) \<and>
    h = horner_hash (last_n (sq_sz (prt_pathHistory t)) (sq_queue (prt_pathHistory t) @ [pc])) \<and>
    sq_queue (prt_pathHistory t') = last_n (sq_sz (prt_pathHistory t)) (sq_queue (prt_pathHistory t) @ [pc]) \<and>
    b = prt_contains h t' \<and> prt_contains h t' = prt_contains h t \<and>
    prt_lastFoundHashes t' = (if b then [h] else [])"
proof -
  from check_shared_run [OF inv wf] obtain t1 where
    t1: "check_shared_area (g, t) = Inr (g\<lparr>g_correctPredictions := []\<rparr>, t1)" "prt_inv t1" "prt_pathHistory t1 = prt_pathHistory t"
      "\<forall>h. feedback (um_find (g_correctPredictions g) h) (um_find (prt_predictorTable t) h) (um_find (prt_predictorTable t1) h)"
    by blast
  have sq: "sq_inv (prt_pathHistory t)" "sq_sz (prt_pathHistory t) \<le> 64" using inv by (simp_all add: prt_inv_def)
  from sqf.push_last_n [OF sq(1), of pc] obtain ph where
    ph: "sq_push_back pc (prt_pathHistory t) = Inr ph" "sq_inv ph" "sq_sz ph = sq_sz (prt_pathHistory t)"
      "sq_queue ph = last_n (sq_sz (prt_pathHistory t)) (sq_queue (prt_pathHistory t) @ [pc])" by blast
  let ?t = "t1\<lparr>prt_pathHistory := ph, prt_lastFoundHashes := []\<rparr>"
  let ?h = "horner_hash (sq_queue ph)"
  have inv': "prt_inv ?t" using t1(2) ph(2,3) sq(2) by (simp add: prt_inv_def)
  have hash: "get_path_hash ?t = Inr ?h" using get_path_hash_run [of ?t] ph(2,3) sq(2) by simp
  have found: "prt_has_hash ?h ?t = Inr (prt_contains ?h ?t)"
    using prt_has_hash_find [OF inv', of ?h] by (simp add: prt_contains_def um_has_def)
  let ?t' = "if prt_contains ?h ?t then ?t\<lparr>prt_lastFoundHashes := [?h]\<rparr> else ?t"
  have c: "prt_contains ?h ?t' = prt_contains ?h ?t" "prt_contains ?h ?t = prt_contains ?h t"
    using t1(4)[rule_format, of ?h] by (auto simp: prt_contains_def um_has_def feedback_def split: option.splits)
  have "update_ihb pkt (g, t) = Inr (prt_contains ?h ?t, g\<lparr>g_correctPredictions := []\<rparr>, ?t')"
    using pkt t1(1,3) ph(1) hash found by (simp add: update_ihb_def Let_def)
  moreover have "prt_inv ?t'" using inv' by (simp add: prt_inv_def)
  ultimately show ?thesis
    using c ph(4) t1(4) by (intro exI [of _ "prt_contains ?h ?t"] exI [of _ ?t'] exI [of _ ?h]) simp
qed

end
