(* ===== verification/Predictor_Learning.thy ===== *)
theory Predictor_Learning
  imports Predictor_Table
begin

text \<open>
  What the predictor table learns: the properties of insertion, of the feedback from the backend
  and of the path-hash lookup, each over the definitions of \<open>Predictor_Table\<close>, and the growth of
  the table beyond its nominal size.
\<close>

section \<open>Runs of insertions\<close>

definition holds_since :: "hash_t set \<Rightarrow> PredictorTable \<Rightarrow> bool" where
  "holds_since H t = (prt_inv t \<and>
     (\<forall>h. um_find (prt_predictorTable t) h \<noteq> None \<longleftrightarrow> h \<in> H) \<and>
     (\<forall>h e. um_find (prt_predictorTable t) h = Some e \<longrightarrow> 0 \<le> pte_insertionOrder e))"

lemma holds_since_size: "holds_since H t \<Longrightarrow> prt_get_size t = card H"
proof -
  assume h: "holds_since H t"
  then have "fst ` set (prt_predictorTable t) = H" using um_find_None by (fastforce simp: holds_since_def)
  moreover have "distinct (map fst (prt_predictorTable t))" using h by (simp add: holds_since_def prt_inv_def um_wf_def)
  ultimately show ?thesis using distinct_card [of "map fst (prt_predictorTable t)"] by (simp add: prt_get_size_def)
qed

lemma young_survivors:
  assumes "holds_since H t" and "prt_currentOrder t \<le> prt_STALE_ENTRY_AGE_THRESHOLD t"
  shows "survivors g t h = um_find (prt_predictorTable t) h"
  using assms by (fastforce simp: survivors_def expires_def stale_def holds_since_def split: option.splits)

definition prt_consts :: "PredictorTable \<Rightarrow> nat \<times> Age_t" where
  "prt_consts t = (prt_MAX_SIZE t, prt_STALE_ENTRY_AGE_THRESHOLD t)"

lemma prt_tick_consts: "prt_tick (g, t) = Inr (g', t') \<Longrightarrow> prt_consts t' = prt_consts t"
  by (auto simp: prt_tick_def cleanup_stale_entries_def bindE_eq_Inr prt_consts_def remove_stale_fold split: if_splits)

lemma update_0_consts: "update_entry_for_0_pred e t = Inr t' \<Longrightarrow> prt_consts t' = prt_consts t"
  by (auto simp: update_entry_for_0_pred_def bindE_eq_Inr prt_consts_def split: if_splits option.splits)

lemma prt_place_consts: "prt_place h e t = Inr t' \<Longrightarrow> prt_consts t' = prt_consts t"
  unfolding prt_place_def
  by (auto simp: bindE_eq_Inr prt_consts_def split: if_splits option.splits dest!: update_0_consts [unfolded prt_consts_def])

lemma prt_add_consts:
  assumes "prt_add e (g, t) = Inr (g', t')"
  shows "prt_consts t' = prt_consts t"
proof -
  from assms obtain t1 h e1 where t1: "prt_tick (g, t\<lparr>prt_ds := ds_add (prt_ds t)\<rparr>) = Inr (g', t1)"
    and place: "prt_place h e1 (t1\<lparr>prt_currentOrder := prt_currentOrder t1 + 1\<rparr>) = Inr t'"
    by (auto simp: prt_add_def bindE_eq_Inr Let_def)
  from prt_tick_consts [OF t1] prt_place_consts [OF place] show ?thesis by (simp add: prt_consts_def)
qed

lemma prt_add_young:
  assumes h: "holds_since H t" and young: "prt_currentOrder t \<le> prt_STALE_ENTRY_AGE_THRESHOLD t"
    and el: "elem_ok e" and ct: "conf_table_ok g" and pos: "0 \<le> prt_currentOrder t"
  shows "\<exists>g' t'. prt_add e (g, t) = Inr (g', t') \<and> conf_table_ok g' \<and> holds_since (insert (pte_hash e) H) t' \<and>
    prt_currentOrder t' = prt_currentOrder t + 1 \<and> prt_consts t' = prt_consts t"
proof -
  have inv: "prt_inv t" using h by (simp add: holds_since_def)
  from prt_add_run [OF el inv ct] obtain g' t' e' where
    run: "prt_add e (g, t) = Inr (g', t')" "prt_inv t'" "conf_table_ok g'" "prt_currentOrder t' = prt_currentOrder t + 1"
      "\<forall>k. k \<noteq> pte_hash e \<longrightarrow> um_find (prt_predictorTable t') k = survivors g t k"
      "um_find (prt_predictorTable t') (pte_hash e) = Some e'"
      "case survivors g t (pte_hash e) of None \<Rightarrow> e' = pte_set_order (prt_currentOrder t) e | Some old \<Rightarrow> kept_entry old e'" by blast
  note surv = young_survivors [OF h young]
  have "0 \<le> pte_insertionOrder e'"
    using run(7) h pos unfolding surv
    by (auto simp: holds_since_def kept_entry_def pte_set_order_def split: option.splits)
  then have "holds_since (insert (pte_hash e) H) t'"
    using run(2,5,6) h unfolding surv holds_since_def by (metis insert_iff option.distinct(1) option.inject)
  then show ?thesis using run(1,3,4) prt_add_consts [OF run(1)] by blast
qed

lemma prt_adds_young:
  assumes "holds_since H t" and "0 \<le> prt_currentOrder t"
    and "prt_currentOrder t + int (length es) \<le> prt_STALE_ENTRY_AGE_THRESHOLD t" and "list_all elem_ok es" and "conf_table_ok g"
  shows "\<exists>g' t'. fold_res prt_add es (g, t) = Inr (g', t') \<and> conf_table_ok g' \<and> holds_since (pte_hash ` set es \<union> H) t' \<and>
    prt_consts t' = prt_consts t"
  using assms
proof (induction es arbitrary: H t g)
  case Nil
  then show ?case by auto
next
  case (Cons e es)
  then have "prt_currentOrder t \<le> prt_STALE_ENTRY_AGE_THRESHOLD t" "elem_ok e" by simp_all
  from prt_add_young [OF Cons.prems(1) this Cons.prems(5,2)] obtain g1 t1 where
    t1: "prt_add e (g, t) = Inr (g1, t1)" "conf_table_ok g1" "holds_since (insert (pte_hash e) H) t1"
      "prt_currentOrder t1 = prt_currentOrder t + 1" "prt_consts t1 = prt_consts t" by blast
  from Cons.IH [OF t1(3) _ _ _ t1(2)] Cons.prems t1(4,5) obtain g2 t2 where
    "fold_res prt_add es (g1, t1) = Inr (g2, t2)" "conf_table_ok g2" "holds_since (pte_hash ` set es \<union> insert (pte_hash e) H) t2"
    "prt_consts t2 = prt_consts t1" by (auto simp: prt_consts_def)
  then show ?case using t1 by simp
qed

section \<open>Properties\<close>

text \<open>C28: Inserting an entry always succeeds and keeps the table's invariant.  Entries of other keys
  stay as they are, unless they are stale at a clock edge; the key of the new entry is present
  afterwards.  An entry that was not there is stored with the current order.  An entry that was there
  is never replaced: with low confidence nothing changes, otherwise its data confidence drops by one
  (down to its minimum) and at most the marks of constant zeros of its chunks change.  Of the shared state
  only the confidence table changes.\<close>

theorem predictor_add_correct:
  assumes "elem_ok elem" and "prt_inv t" and "conf_table_ok g"
  shows "\<exists>g' t'. prt_add elem (g, t) = Inr (g', t') \<and> prt_inv t' \<and> conf_table_ok g' \<and>
    g' = g\<lparr>g_confidenceTable := g_confidenceTable g'\<rparr> \<and> prt_currentOrder t' = prt_currentOrder t + 1 \<and>
    (\<forall>k. k \<noteq> pte_hash elem \<longrightarrow> um_find (prt_predictorTable t') k = survivors g t k) \<and>
    (\<exists>e. um_find (prt_predictorTable t') (pte_hash elem) = Some e \<and> (case survivors g t (pte_hash elem) of
       None \<Rightarrow> e = pte_set_order (prt_currentOrder t) elem | Some old \<Rightarrow> kept_entry old e))"
  using prt_add_run [OF assms] .

theorem predictor_add_correct_witness:
  "\<exists>g' t'. prt_add (example_elem 5) (Globals_init, mk_PredictorTable example_ptcfg ''t'') = Inr (g', t') \<and>
     um_find (prt_predictorTable t') 5 = Some (pte_set_order 0 (example_elem 5))"
proof -
  let ?t = "mk_PredictorTable example_ptcfg ''t''"
  have inv: "prt_inv ?t" by (rule mk_PredictorTable_inv) (simp_all add: example_ptcfg_def)
  have "survivors Globals_init ?t 5 = None" "prt_currentOrder ?t = 0" by (simp_all add: survivors_def mk_PredictorTable_def)
  with predictor_add_correct [OF example_elem_ok(1) [of 5] inv Globals_init_conf_table] show ?thesis
    by (auto simp: example_elem_ok(2))
qed

text \<open>C40: The nominal size of the table is not a bound: the counter it is compared with is never
  increased, so as long as no entry is old enough to be stale, a run of insertions leaves one entry
  for each hash, however small \<open>MAX_SIZE\<close> is.\<close>

theorem max_size_not_enforced:
  assumes "list_all elem_ok es" and "distinct (map pte_hash es)" and "int (length es) \<le> pc_staleThreshold cfg"
    and "0 < pc_maxSize cfg" and "0 < pc_pathHistorySize cfg" and "pc_pathHistorySize cfg \<le> 64"
  shows "\<exists>g t. fold_res prt_add es (Globals_init, mk_PredictorTable cfg nm) = Inr (g, t) \<and>
    prt_get_size t = length es \<and> prt_MAX_SIZE t = pc_maxSize cfg"
proof -
  let ?t = "mk_PredictorTable cfg nm"
  have "holds_since {} ?t" using mk_PredictorTable_inv [OF assms(4-6), of nm] by (simp add: holds_since_def mk_PredictorTable_def)
  from prt_adds_young [OF this _ _ assms(1) Globals_init_conf_table] assms(3) obtain g t where
    t: "fold_res prt_add es (Globals_init, ?t) = Inr (g, t)" "holds_since (pte_hash ` set es \<union> {}) t" "prt_consts t = prt_consts ?t"
    by (auto simp: mk_PredictorTable_def)
  have "prt_get_size t = length es"
    using holds_since_size [OF t(2)] distinct_card [OF assms(2)] by simp
  with t(1,3) show ?thesis by (simp add: prt_consts_def mk_PredictorTable_def)
qed

theorem max_size_not_enforced_witness:
  "\<exists>g t. fold_res prt_add (map example_elem [1, 2, 3]) (Globals_init, mk_PredictorTable example_ptcfg ''t'') = Inr (g, t) \<and>
     prt_get_size t = 3 \<and> prt_MAX_SIZE t = 2"
  using max_size_not_enforced [of "map example_elem [1, 2, 3]" example_ptcfg "''t''"]
  by (simp add: example_elem_ok) (simp add: example_ptcfg_def numeral_3_eq_3)

text \<open>C29: The feedback from the backend is applied once and then forgotten.  An entry with \<open>a\<close> correct
  address and \<open>d\<close> correct data predictions gains \<open>a\<close> in address confidence up to its maximum; its data
  confidence gains \<open>min a (d + 1)\<close>, one more than the data predictions that were correct, and then
  loses one for each remaining round.  Its insertion order drops by the rewards, which makes the entry
  older.  Entries without feedback do not change.\<close>

theorem feedback_applied:
  assumes "prt_inv t" and "um_wf (g_correctPredictions g)" and "counts_small (g_correctPredictions g)"
  shows "\<exists>t'. check_shared_area (g, t) = Inr (g\<lparr>g_correctPredictions := []\<rparr>, t') \<and> prt_inv t' \<and>
    (\<forall>h. feedback (um_find (g_correctPredictions g) h) (um_find (prt_predictorTable t) h) (um_find (prt_predictorTable t') h))"
  using check_shared_run [OF assms] by blast

definition example_ptable :: PredictorTable where
  "example_ptable = (mk_PredictorTable example_ptcfg ''t'')\<lparr>prt_predictorTable := [(5, pte_set_order 0 (example_elem 5))]\<rparr>"

lemma example_ptable_inv: "prt_inv example_ptable"
  using mk_PredictorTable_inv [of example_ptcfg "''t''"] elem_ok_order [OF example_elem_ok(1), of 0 0 5]
  by (auto simp: prt_inv_def example_ptable_def um_find_def um_wf_def mk_PredictorTable_def example_elem_ok(2) example_ptcfg_def
      split: if_splits)

theorem feedback_applied_witness:
  "\<exists>t' e. check_shared_area (Globals_init\<lparr>g_correctPredictions := [(5, (3, 1))]\<rparr>, example_ptable) = Inr (Globals_init, t') \<and>
     um_find (prt_predictorTable t') 5 = Some e \<and> cf_conf (pte_addrConf e) = 7 \<and> cf_conf (pte_dataConf e) = 6 \<and>
     pte_insertionOrder e = - 12"
proof -
  let ?g = "Globals_init\<lparr>g_correctPredictions := [(5, (3, 1))]\<rparr>"
  have h: "um_wf (g_correctPredictions ?g)" "counts_small (g_correctPredictions ?g)"
    by (simp_all add: um_wf_def counts_small_def)
  have g: "?g\<lparr>g_correctPredictions := []\<rparr> = Globals_init" by (simp add: Globals_init_def)
  from feedback_applied [OF example_ptable_inv h] obtain t' where
    t': "check_shared_area (?g, example_ptable) = Inr (Globals_init, t')"
      "\<forall>h. feedback (um_find (g_correctPredictions ?g) h) (um_find (prt_predictorTable example_ptable) h) (um_find (prt_predictorTable t') h)"
    unfolding g by blast
  have "um_find (g_correctPredictions ?g) 5 = Some (3, 1)"
    "um_find (prt_predictorTable example_ptable) 5 = Some (pte_set_order 0 (example_elem 5))"
    by (simp_all add: um_find_def example_ptable_def)
  with t'(2)[rule_format, of 5] obtain e where e: "um_find (prt_predictorTable t') 5 = Some e"
    "rewarded 3 1 (pte_set_order 0 (example_elem 5)) e" by (auto simp: feedback_def)
  then have "cf_conf (pte_addrConf e) = 7 \<and> cf_conf (pte_dataConf e) = 6 \<and> pte_insertionOrder e = - 12"
    by (auto simp: rewarded_def pte_set_order_def example_elem_def pte_set_hash_def pte_set_original_cacheline_def mk_PTE_def
        example_ptcfg_def mk_Confidence_def)
  with t'(1) e(1) show ?thesis by blast
qed

text \<open>C30: A store looks up the path hash of the last \<open>n\<close> program counters, its own included, where
  \<open>n\<close> is the length of the history and the hash is the polynomial
  \<open>pc\<^sub>0 XOR 2 * pc\<^sub>1 XOR 4 * pc\<^sub>2 ...\<close> over them.  The lookup answers whether that hash is a key of
  the table after the pending feedback, and leaves exactly that hash, or nothing, as the last one
  found.\<close>

theorem update_ihb_correct:
  assumes inv: "prt_inv t" and wf: "um_wf (g_correctPredictions g)" "counts_small (g_correctPredictions g)"
    and pkt: "isWrite pkt" "getPC (pk_req pkt) = Inr pc" "getSize pkt = Inr sz" "getPtr pkt = Inr ds"
  shows "\<exists>b t' h. update_ihb pkt (g, t) = Inr (b, g\<lparr>g_correctPredictions := []\<rparr>, t') \<and> prt_inv t' \<and>
    h = horner_hash (last_n (sq_sz (prt_pathHistory t)) (sq_queue (prt_pathHistory t) @ [pc])) \<and>
    sq_queue (prt_pathHistory t') = last_n (sq_sz (prt_pathHistory t)) (sq_queue (prt_pathHistory t) @ [pc]) \<and>
    b = prt_contains h t' \<and> prt_contains h t' = prt_contains h t \<and>
    prt_lastFoundHashes t' = (if b then [h] else [])"
  using update_ihb_run [OF assms] by blast

theorem update_ihb_correct_witness:
  "\<exists>b t'. update_ihb (example_pkt 0x1008 [5, 6]) (Globals_init, example_ptable) = Inr (b, Globals_init, t') \<and>
     sq_queue (prt_pathHistory t') = [0x400123] \<and> \<not> b \<and> prt_lastFoundHashes t' = []"
proof -
  let ?p = "example_pkt 0x1008 [5, 6]"
  have p: "isWrite ?p" "getPC (pk_req ?p) = Inr 0x400123" "getSize ?p = Inr 8" "getPtr ?p = Inr [5, 6]"
    by (simp_all add: example_pkt_def isWrite_def testCmdAttrib_def packet_defs isMaskedWrite_def)
  have g: "um_wf (g_correctPredictions Globals_init)" "counts_small (g_correctPredictions Globals_init)"
    "Globals_init\<lparr>g_correctPredictions := []\<rparr> = Globals_init" by (simp_all add: Globals_init_def counts_small_def)
  have q: "sq_queue (prt_pathHistory example_ptable) = []" "sq_sz (prt_pathHistory example_ptable) = 4"
    by (simp_all add: example_ptable_def mk_PredictorTable_def mk_SimpleFixedSizeQueue_def example_ptcfg_def)
  have "\<not> prt_contains (horner_hash [0x400123]) example_ptable"
    by (simp add: prt_contains_def um_has_def um_find_def example_ptable_def)
  then show ?thesis using update_ihb_correct [OF example_ptable_inv g(1,2) p] by (auto simp: g(3) q last_n_def)
qed

end
