(* ===== verification/Backend.thy ===== *)
theory Backend
  imports Globals
begin

text \<open>
  \<open>gem5/src/mem/predictor_backend.{hh,cc}\<close>: the predictor backend in front of the memory controller.
  It keeps the completed predictions per physical line, and when a persistent write arrives looks for
  the newest unused prediction that agrees with it, updates the confidences and the feedback, and marks
  that prediction as used.

  The static members are those of \<open>Globals\<close>; the members and the scalar statistics of the object are the
  record \<open>Backend\<close>, a distribution is the list of its samples.  The time, the environment, the page
  table and the configuration of the metadata caches are arguments.  The local \<open>maxDataMatchHash\<close> has no
  initialiser: its first value is the argument \<open>junk\<close>.  Tracing output (\<open>DTRACE\<close>) is off; the dump of the
  writes goes to a list of records instead of a file.
\<close>

datatype TraceOp = Trace_C | Trace_W

record TraceLine =
  tl_op :: TraceOp
  tl_paddr :: Addr_t
  tl_size :: nat
  tl_data :: "DataChunk list"
  tl_tick :: Tick

record Backend =
  be_totalPWrites :: nat
  be_correctlyPredictedPWrites :: nat
  be_correctlyPredictedFreeWrites :: nat
  be_correctlyPredNonFreeWr :: nat
  be_dataMissPredictedPWrites :: nat
  be_incorrectlyPredictedPWrites :: nat
  be_nonPredictedPWrites :: nat
  be_addrPredictions :: nat
  be_invalidatedPredictions :: nat
  be_avgDataMatchForAddrMatch :: nat
  be_correctConst0Pred :: nat
  be_validChunks :: nat
  be_pmWriteMatchDistance :: "Tick list"
  be_addrPmWriteMatchDistance :: "Tick list"
  be_addrMatchDist :: "Tick list"
  be_dataMatchDist :: "Tick list"
  be_writebackDistStat :: "Tick list"
  be_writebackDistMap :: "(Addr_t, Tick) umap"
  be_enableNonVolatileDump :: string
  be_myFile :: "TraceLine list"

definition Backend_init :: "string \<Rightarrow> Backend" where
  "Backend_init dump = \<lparr>be_totalPWrites = 0, be_correctlyPredictedPWrites = 0, be_correctlyPredictedFreeWrites = 0,
     be_correctlyPredNonFreeWr = 0, be_dataMissPredictedPWrites = 0, be_incorrectlyPredictedPWrites = 0,
     be_nonPredictedPWrites = 0, be_addrPredictions = 0, be_invalidatedPredictions = 0, be_avgDataMatchForAddrMatch = 0,
     be_correctConst0Pred = 0, be_validChunks = 0, be_pmWriteMatchDistance = [], be_addrPmWriteMatchDistance = [],
     be_addrMatchDist = [], be_dataMatchDist = [], be_writebackDistStat = [], be_writebackDistMap = [],
     be_enableNonVolatileDump = dump, be_myFile = []\<rparr>"

text \<open>The constructor scales the two limits by the floating-point size multiplier: \<open>scale\<close>.\<close>

definition mk_PredictorBackend :: "environ \<Rightarrow> (nat \<Rightarrow> nat) \<Rightarrow> Globals \<Rightarrow> Globals \<times> Backend" where
  "mk_PredictorBackend env scale g =
     (g\<lparr>g_usePredictor := get_env_val env ''USE_PREDICTOR'',
        g_RESULT_BUFFER_MAX_SIZE := scale (g_RESULT_BUFFER_MAX_SIZE g),
        g_MAX_COMPLETED_QUEUE_LINE_SIZE := max 1 (scale (g_MAX_COMPLETED_QUEUE_LINE_SIZE g))\<rparr>,
      Backend_init (case env ''ENABLE_NON_VOLATILE_DUMP'' of None \<Rightarrow> ''0'' | Some v \<Rightarrow> v))"

section \<open>Inserting a prediction\<close>

text \<open>The oldest address of the manager; the first one among equals.\<close>

definition older_addr :: "Addr_t \<times> Tick \<Rightarrow> Addr_t \<times> Tick \<Rightarrow> Addr_t \<times> Tick" where
  "older_addr entry oldest = (if snd oldest > snd entry then entry else oldest)"

definition getCompletedAddrToEvict :: "Globals \<Rightarrow> Addr_t res" where
  "getCompletedAddrToEvict g = (case g_completedWritesManager g of
     [] \<Rightarrow> Inl (Panic ''Queue empty'')
   | x # m \<Rightarrow> Inr (fst (fold older_addr (x # m) x)))"

definition incr_addrMatches :: "Addr_t \<Rightarrow> Globals \<Rightarrow> Globals" where
  "incr_addrMatches a g = g\<lparr>g_addrMatches :=
     um_put a ((case um_find (g_addrMatches g) a of None \<Rightarrow> 0 | Some n \<Rightarrow> n) + 1) (g_addrMatches g)\<rparr>"

text \<open>\<open>completedWrites[paddr].push_back(entry)\<close>.\<close>

definition push_completed :: "Addr_t \<Rightarrow> CompletedWriteEntry \<Rightarrow> Globals \<Rightarrow> Globals" where
  "push_completed a e g = g\<lparr>g_completedWrites :=
     um_put a ((case um_find (g_completedWrites g) a of None \<Rightarrow> [] | Some q \<Rightarrow> q) @ [e]) (g_completedWrites g)\<rparr>"

text \<open>The line has exceeded its capacity: its oldest prediction goes.\<close>

definition evict_line :: "Addr_t \<Rightarrow> Globals \<Rightarrow> Globals res" where
  "evict_line a g =
     bindE (um_at (g_completedWrites g) a) (\<lambda>q.
     if length q \<ge> g_MAX_COMPLETED_QUEUE_LINE_SIZE g + 1
     then (case q of
             [] \<Rightarrow> Inl (Undefined ''front of an empty queue'')
           | e # q' \<Rightarrow> bindE (cw_get_generator_hash e) (\<lambda>h.
               Inr (broadcastPrediction h False False
                 (g\<lparr>g_completedWrites := um_put a q' (g_completedWrites g),
                    g_capacityEvictionStatic := g_capacityEvictionStatic g + 1\<rparr>))))
     else Inr g)"

text \<open>The loop that removes the empty queues pops the container it iterates over.\<close>

definition remove_empty :: "Globals \<Rightarrow> Globals res" where
  "remove_empty g = (if list_ex (\<lambda>x. snd x = []) (g_completedWrites g)
     then Inl (Undefined ''pop_front in a range-based loop'') else Inr g)"

definition is_free_entry :: "CompletedWriteEntry \<Rightarrow> bool res" where
  "is_free_entry e = bindE (arr_get (cl_dataChunks (cw_cacheline e)) 0) (\<lambda>c. Inr (is_free_prediction c))"

definition free_entries :: "(Addr_t, CompletedWriteEntry list) umap \<Rightarrow> nat res" where
  "free_entries m = fold_res (\<lambda>x. fold_res (\<lambda>e n. bindE (is_free_entry e) (\<lambda>b. Inr (if b then n + 1 else n))) (snd x)) m 0"

text \<open>The address of the last prediction, in iteration order, that is old enough to go: 25 million ticks
  for a free prediction and 30 million for the others.\<close>

definition oldest_step :: "Tick \<Rightarrow> Addr_t \<Rightarrow> CompletedWriteEntry \<Rightarrow> Addr_t \<Rightarrow> Addr_t res" where
  "oldest_step now a e r =
     bindE (cw_get_time_of_creation e) (\<lambda>t.
     bindE (is_free_entry e) (\<lambda>free.
     Inr (if (if free then 25000000 < now - t else 30000000 < now - t) then a else r)))"

definition oldest_addr :: "Tick \<Rightarrow> (Addr_t, CompletedWriteEntry list) umap \<Rightarrow> Addr_t res" where
  "oldest_addr now m = fold_res (\<lambda>x. fold_res (oldest_step now (fst x)) (snd x)) m 0"

definition total_entries :: "(Addr_t, CompletedWriteEntry list) umap \<Rightarrow> nat" where
  "total_entries m = fold (\<lambda>x n. n + length (snd x)) m 0"

definition evict_table :: "Tick \<Rightarrow> Globals \<Rightarrow> Globals res" where
  "evict_table now g =
     bindE (free_entries (g_completedWrites g)) (\<lambda>_.
     bindE (if total_entries (g_completedWrites g) > g_RESULT_BUFFER_MAX_SIZE g
            then oldest_addr now (g_completedWrites g) else Inr 0) (\<lambda>oldestAddr.
     Inr (if oldestAddr \<noteq> 0
          then g\<lparr>g_completedWrites := um_erase oldestAddr (g_completedWrites g),
                 g_capacityEvictionStatic := g_capacityEvictionStatic g + 1\<rparr>
          else g)))"

definition translate_entry :: "MetaCfg \<Rightarrow> Addr_t \<Rightarrow> CompletedWriteEntry \<Rightarrow> Globals \<Rightarrow> CompletedWriteEntry res" where
  "translate_entry cfg paddr e g =
     bindE (isCounterCacheHit cfg paddr (g_meta g)) (\<lambda>b.
     Inr (cw_set_verification_cache_hit (isVerificationCacheHit paddr (g_meta g))
            (cw_set_counter_cache_hit b (cw_set_addr paddr e))))"

definition addCompletedWrite :: "Tick \<Rightarrow> MetaCfg \<Rightarrow> EmulationPageTable \<Rightarrow> CompletedWriteEntry \<Rightarrow> Globals \<Rightarrow> Globals res" where
  "addCompletedWrite now cfg pt entry g =
     bindE (cw_get_addr entry) (\<lambda>addr.
     case (if g_usePredictor g then translate pt addr else None) of
       None \<Rightarrow> Inr g
     | Some paddr \<Rightarrow>
         let g1 = incr_addrMatches paddr g in
         bindE (translate_entry cfg paddr entry g1) (\<lambda>e.
         bindE (evict_line paddr (push_completed paddr e (g1\<lparr>g_pendingPredictionQueue := g_pendingPredictionQueue g1 @ [e]\<rparr>))) (\<lambda>g2.
         bindE (remove_empty g2) (\<lambda>g3.
         bindE (um_at (g_completedWrites g3) paddr) (\<lambda>q.
         bindE (panic_if (length q > g_MAX_COMPLETED_QUEUE_LINE_SIZE g3) ''Inconsistent size'') (\<lambda>_.
         evict_table now g3))))))"

section \<open>Comparing a write with a prediction\<close>

definition isPktEqualCompletedEntryAddr :: "Packet \<Rightarrow> CompletedWriteEntry \<Rightarrow> bool res" where
  "isPktEqualCompletedEntryAddr pkt e =
     bindE (cw_get_addr e) (\<lambda>completedAddr.
     bindE (getPaddr (pk_req pkt)) (\<lambda>pktAddr. Inr (completedAddr = pktAddr)))"

text \<open>Whether a valid chunk differs from the chunk of the packet at the same position.\<close>

definition chunk_differs :: "DataChunk list \<Rightarrow> nat \<Rightarrow> ChunkInfo \<Rightarrow> bool res" where
  "chunk_differs ds i c =
     bindE (is_valid c) (\<lambda>v.
     if v then bindE (arr_get ds i) (\<lambda>x. bindE (get_data c) (\<lambda>y. Inr (x \<noteq> y))) else Inr False)"

primrec mismatch_count :: "DataChunk list \<Rightarrow> nat \<Rightarrow> ChunkInfo list \<Rightarrow> nat res" where
  "mismatch_count ds i [] = Inr 0"
| "mismatch_count ds i (c # cs) =
     bindE (chunk_differs ds i c) (\<lambda>b. bindE (mismatch_count ds (i + 1) cs) (\<lambda>n. Inr (if b then n + 1 else n)))"

definition getMatchingChunkCount :: "Packet \<Rightarrow> CompletedWriteEntry \<Rightarrow> nat res" where
  "getMatchingChunkCount pkt e =
     bindE (getPtr pkt) (\<lambda>ds. mismatch_count ds 0 (cl_dataChunks (cw_cacheline e)))"

primrec data_equal_loop :: "DataChunk list \<Rightarrow> nat \<Rightarrow> ChunkInfo list \<Rightarrow> bool res" where
  "data_equal_loop ds i [] = Inr True"
| "data_equal_loop ds i (c # cs) =
     bindE (chunk_differs ds i c) (\<lambda>b. if b then Inr False else data_equal_loop ds (i + 1) cs)"

definition isPktEqualCompletedEntryData :: "Packet \<Rightarrow> CompletedWriteEntry \<Rightarrow> bool res" where
  "isPktEqualCompletedEntryData pkt e =
     bindE (getPtr pkt) (\<lambda>ds.
     bindE (data_equal_loop ds 0 (cl_dataChunks (cw_cacheline e))) (\<lambda>r.
     bindE (all_invalid (cw_cacheline e)) (\<lambda>inv. Inr (r \<and> \<not> inv))))"

definition isPktEqualCompletedEntry :: "Packet \<Rightarrow> CompletedWriteEntry \<Rightarrow> bool res" where
  "isPktEqualCompletedEntry pkt e =
     bindE (getSize pkt) (\<lambda>sz.
     bindE (panic_if (sz \<noteq> 64) ''cacheline size'') (\<lambda>_.
     bindE (isPktEqualCompletedEntryAddr pkt e) (\<lambda>a.
     if a then isPktEqualCompletedEntryData pkt e else Inr False)))"

section \<open>Statistics and confidence\<close>

definition const_0_count :: "ChunkInfo list \<Rightarrow> nat res" where
  "const_0_count cs = fold_res (\<lambda>c n. bindE (is_valid c) (\<lambda>v. Inr (if v \<and> is_const_0_pred c then n + 1 else n))) cs 0"

definition update_stats_for_const_pred :: "CompletedWriteEntry \<Rightarrow> Backend \<Rightarrow> Backend res" where
  "update_stats_for_const_pred e be =
     bindE (const_0_count (cl_dataChunks (cw_cacheline e))) (\<lambda>n.
     Inr (be\<lparr>be_correctConst0Pred := be_correctConst0Pred be + n\<rparr>))"

text \<open>The match vector as the list of its bits.\<close>

primrec match_bits :: "DataChunk list \<Rightarrow> nat \<Rightarrow> ChunkInfo list \<Rightarrow> bool list res" where
  "match_bits ds i [] = Inr []"
| "match_bits ds i (c # cs) =
     bindE (is_valid c) (\<lambda>v.
     bindE (if v then bindE (arr_get ds i) (\<lambda>x. bindE (get_data c) (\<lambda>y. Inr (x = y))) else Inr False) (\<lambda>b.
     bindE (match_bits ds (i + 1) cs) (\<lambda>bs. Inr (b # bs))))"

definition dataChunkMatchVec :: "CompletedWriteEntry \<Rightarrow> Packet \<Rightarrow> bool list res" where
  "dataChunkMatchVec e pkt = bindE (getPtr pkt) (\<lambda>ds. match_bits ds 0 (cl_dataChunks (cw_cacheline e)))"

definition dataChunkConstVec :: "CompletedWriteEntry \<Rightarrow> bool list res" where
  "dataChunkConstVec e =
     map_res (\<lambda>c. bindE (is_valid c) (\<lambda>v. Inr (v \<and> is_constant_pred c))) (cl_dataChunks (cw_cacheline e))"

text \<open>A wrong chunk lowers the confidence of the program counter that generated it; a right one leaves it.\<close>

definition pc_conf_step :: "DataChunk list \<Rightarrow> nat \<times> ChunkInfo \<Rightarrow> Globals \<Rightarrow> Globals res" where
  "pc_conf_step ds x g =
     bindE (is_valid (snd x)) (\<lambda>v.
     if v \<and> \<not> is_free_prediction (snd x)
     then bindE (get_generating_pc (snd x)) (\<lambda>targetPC.
          let m = um_insert targetPC (mk_Confidence 6 7 0) (g_genPCConf g) in
          bindE (arr_get ds (fst x)) (\<lambda>d. bindE (get_data (snd x)) (\<lambda>y.
          bindE (um_at m targetPC) (\<lambda>c.
          bindE (if d \<noteq> y then conf_sub 1 c else Inr c) (\<lambda>c'.
          Inr (g\<lparr>g_genPCConf := um_put targetPC c' m\<rparr>))))))
     else Inr g)"

definition updatePCConf :: "Packet \<Rightarrow> CompletedWriteEntry \<Rightarrow> Globals \<Rightarrow> Globals res" where
  "updatePCConf pkt e g =
     bindE (getPtr pkt) (\<lambda>ds.
     fold_res (pc_conf_step ds) (enumerate 0 (cl_dataChunks (cw_cacheline e))) g)"

text \<open>A write that nothing predicted restarts the clock of every unused prediction.\<close>

definition restart_entry :: "Tick \<Rightarrow> CompletedWriteEntry \<Rightarrow> CompletedWriteEntry" where
  "restart_entry now e = (if cw_is_used e then e else cw_set_time_of_addr_gen now e)"

definition invalidateAllAddr :: "environ \<Rightarrow> Tick \<Rightarrow> Globals \<times> Backend \<Rightarrow> Globals \<times> Backend" where
  "invalidateAllAddr env now s =
     (if get_env_val env ''DISABLE_INVALIDATION'' then s
      else ((fst s)\<lparr>g_completedWrites := map (\<lambda>(a, q). (a, map (restart_entry now) q)) (g_completedWrites (fst s))\<rparr>,
            (snd s)\<lparr>be_invalidatedPredictions := be_invalidatedPredictions (snd s) +
               length (filter (\<lambda>x. snd x \<noteq> []) (g_completedWrites (fst s)))\<rparr>))"

section \<open>Constant chunks\<close>

text \<open>The guard looks for the address of the line among the offsets.  The cap of \<open>timesFound\<close> assigns
  the value that it tests for.\<close>

definition locate_chunk :: "hash_t \<Rightarrow> size_t \<Rightarrow> Addr_t \<Rightarrow> (hash_t, (size_t, constChunkLocator) umap) umap \<Rightarrow>
    (hash_t, (size_t, constChunkLocator) umap) umap" where
  "locate_chunk h offset addr m =
     (let m1 = (case um_find m h of None \<Rightarrow> um_put h [(offset, constChunkLocator_default)] m | Some _ \<Rightarrow> m) in
      case um_find m1 h of
        None \<Rightarrow> m1
      | Some t \<Rightarrow> if um_has t addr then m1 else um_put h (um_index constChunkLocator_default offset t) m1)"

definition track_chunk :: "size_t \<Rightarrow> DataChunk \<Rightarrow> constChunkLocator \<Rightarrow> constChunkLocator" where
  "track_chunk offset d l =
     (if cc_lastData l = d
      then l\<lparr>cc_constOffset := offset, cc_timesFound := cc_timesFound l + 1\<rparr>
      else l\<lparr>cc_timesFound := (if cc_timesFound l > 0 then cc_timesFound l - 1 else cc_timesFound l), cc_lastData := d\<rparr>)"

definition const_chunk_step :: "hash_t \<Rightarrow> Addr_t \<Rightarrow> Packet \<Rightarrow> CompletedWriteEntry \<Rightarrow> nat \<Rightarrow> Globals \<Rightarrow> Globals res" where
  "const_chunk_step h addr pkt e offset g =
     bindE (arr_get (cl_dataChunks (cw_cacheline e)) offset) (\<lambda>c.
     bindE (is_valid c) (\<lambda>v.
     if \<not> v then Inr g
     else bindE (cw_get_orig_cacheline e) (\<lambda>orig.
       bindE (arr_get (cl_dataChunks orig) offset) (\<lambda>oc.
       bindE (is_valid oc) (\<lambda>ov.
       if \<not> ov then Inr g
       else bindE (get_data c) (\<lambda>x.
         bindE (getPtr pkt) (\<lambda>ds.
         bindE (arr_get ds offset) (\<lambda>d.
         if x = d then Inr g
         else let m = locate_chunk h (of_nat offset) addr (g_constPredTracker g) in
           bindE (um_at m h) (\<lambda>t.
           bindE (um_at t (of_nat offset)) (\<lambda>l.
           Inr (g\<lparr>g_constPredTracker := um_put h (um_put (of_nat offset) (track_chunk (of_nat offset) d l) t) m\<rparr>)))))))))))"

primrec find_hash :: "hash_t \<Rightarrow> CompletedWriteEntry list \<Rightarrow> CompletedWriteEntry option res" where
  "find_hash h [] = Inr None"
| "find_hash h (e # es) = bindE (cw_get_generator_hash e) (\<lambda>h'. if h' = h then Inr (Some e) else find_hash h es)"

definition updateConstChunks :: "hash_t \<Rightarrow> Addr_t \<Rightarrow> Packet \<Rightarrow> Globals \<Rightarrow> Globals res" where
  "updateConstChunks h addr pkt g =
     bindE (um_at (g_completedWrites g) addr) (\<lambda>q.
     bindE (find_hash h q) (\<lambda>r.
     case r of
       None \<Rightarrow> Inr g
     | Some e \<Rightarrow> fold_res (const_chunk_step h addr pkt e) [0..<16] g))"

section \<open>A persistent write\<close>

record MatchState =
  ms_g :: Globals
  ms_be :: Backend
  ms_maxDataMatchCount :: nat
  ms_maxDataMatchHash :: hash_t

primrec nonfree_loop :: "Packet \<Rightarrow> CompletedWriteEntry list \<Rightarrow> bool res" where
  "nonfree_loop pkt [] = Inr False"
| "nonfree_loop pkt (e # es) =
     bindE (isPktEqualCompletedEntry pkt e) (\<lambda>b.
     bindE (if b then is_free_entry e else Inr False) (\<lambda>free.
     if b \<and> \<not> free \<and> \<not> cw_is_used e then Inr True else nonfree_loop pkt es))"

text \<open>The prediction agrees with the write in address and data.\<close>

definition match_correct :: "Tick \<Rightarrow> hash_t \<Rightarrow> CompletedWriteEntry \<Rightarrow> MatchState \<Rightarrow> MatchState res" where
  "match_correct now confKey e s =
     (let be = (ms_be s)\<lparr>be_correctlyPredictedPWrites := be_correctlyPredictedPWrites (ms_be s) + 1\<rparr> in
      bindE (is_free_entry e) (\<lambda>free.
      let g1 = (if free then ms_g s else broadcastPrediction confKey True True (ms_g s));
          be1 = (if free then be\<lparr>be_correctlyPredictedFreeWrites := be_correctlyPredictedFreeWrites be + 1\<rparr> else be) in
      bindE (cw_get_least_time_of_gen e) (\<lambda>t.
      bindE (cw_get_time_of_data_gen e) (\<lambda>td.
      let be2 = be1\<lparr>be_pmWriteMatchDistance := be_pmWriteMatchDistance be1 @ [(now - t) div 1000],
                    be_dataMatchDist := be_dataMatchDist be1 @ [(now - td) div 1000]\<rparr> in
      bindE (update_stats_for_const_pred e be2) (\<lambda>be3.
      Inr (s\<lparr>ms_g := reward_conf confKey g1, ms_be := be3\<rparr>))))))"

text \<open>The address agrees and the data do not.\<close>

definition match_incorrect :: "Packet \<Rightarrow> hash_t \<Rightarrow> CompletedWriteEntry \<Rightarrow> MatchState \<Rightarrow> MatchState res" where
  "match_incorrect pkt confKey e s =
     bindE (updatePCConf pkt e (ms_g s)) (\<lambda>g.
     bindE (dataChunkMatchVec e pkt) (\<lambda>matchVec.
     bindE (dataChunkConstVec e) (\<lambda>_.
     let matchCount = length (filter id matchVec);
         better = ms_maxDataMatchCount s < matchCount in
     Inr (s\<lparr>ms_g := g,
            ms_be := (ms_be s)\<lparr>be_incorrectlyPredictedPWrites := be_incorrectlyPredictedPWrites (ms_be s) + 1\<rparr>,
            ms_maxDataMatchCount := (if better then matchCount else ms_maxDataMatchCount s),
            ms_maxDataMatchHash := (if better then confKey else ms_maxDataMatchHash s)\<rparr>))))"

definition match_step :: "Tick \<Rightarrow> Packet \<Rightarrow> CompletedWriteEntry \<Rightarrow> MatchState \<Rightarrow> (bool \<times> MatchState) res" where
  "match_step now pkt e s =
     bindE (cw_get_generator_hash e) (\<lambda>confKey.
     let s1 = s\<lparr>ms_g := initConf confKey (ms_g s)\<rparr> in
     bindE (if cw_is_used e then Inr s1
            else bindE (cw_get_least_time_of_gen e) (\<lambda>t.
                 Inr (s1\<lparr>ms_be := (ms_be s1)\<lparr>be_addrPmWriteMatchDistance :=
                        be_addrPmWriteMatchDistance (ms_be s1) @ [(now - t) div 1000]\<rparr>\<rparr>))) (\<lambda>s2.
     bindE (isPktEqualCompletedEntryAddr pkt e) (\<lambda>addrEq.
     if addrEq \<and> \<not> cw_is_used e
     then bindE (getMatchingChunkCount pkt e) (\<lambda>n.
          let s3 = s2\<lparr>ms_be := (ms_be s2)\<lparr>be_avgDataMatchForAddrMatch := be_avgDataMatchForAddrMatch (ms_be s2) + n\<rparr>\<rparr> in
          bindE (isPktEqualCompletedEntry pkt e) (\<lambda>eq.
          if eq then bindE (match_correct now confKey e s3) (\<lambda>s4. Inr (True, s4))
          else bindE (match_incorrect pkt confKey e s3) (\<lambda>s4. Inr (False, s4))))
     else Inr (False, s2))))"

primrec match_loop :: "Tick \<Rightarrow> Packet \<Rightarrow> CompletedWriteEntry list \<Rightarrow> nat \<Rightarrow> MatchState \<Rightarrow> (nat option \<times> MatchState) res" where
  "match_loop now pkt [] i s = Inr (None, s)"
| "match_loop now pkt (e # es) i s =
     bindE (match_step now pkt e s) (\<lambda>(found, s').
     if found then Inr (Some i, s') else match_loop now pkt es (i + 1) s')"

text \<open>The newest prediction that agrees is marked as used; the position found counts from the back.\<close>

definition finish_match :: "Addr_t \<Rightarrow> CompletedWriteEntry list \<Rightarrow> nat option \<Rightarrow> Globals \<times> Backend \<Rightarrow> (Globals \<times> Backend) res" where
  "finish_match paddr q idx s = (case idx of
     Some i \<Rightarrow>
       bindE (arr_get q (length q - 1 - i)) (\<lambda>e.
       bindE (cw_use e) (\<lambda>e'.
       Inr ((fst s)\<lparr>g_completedWrites := um_put paddr (q[length q - 1 - i := e']) (g_completedWrites (fst s))\<rparr>, snd s)))
   | None \<Rightarrow> Inr (fst s, (snd s)\<lparr>be_dataMissPredictedPWrites := be_dataMissPredictedPWrites (snd s) + 1\<rparr>))"

definition sample_addr_match :: "Tick \<Rightarrow> CompletedWriteEntry list \<Rightarrow> Backend \<Rightarrow> Backend res" where
  "sample_addr_match now q be = (case q of
     [] \<Rightarrow> Inr be
   | e # _ \<Rightarrow> bindE (cw_get_time_of_addr_gen e) (\<lambda>t.
       Inr (be\<lparr>be_addrMatchDist := be_addrMatchDist be @ [(now - t) div 1000]\<rparr>)))"

definition handle_predicted :: "Tick \<Rightarrow> hash_t \<Rightarrow> Packet \<Rightarrow> Addr_t \<Rightarrow> CompletedWriteEntry list \<Rightarrow> Globals \<times> Backend \<Rightarrow>
    (Globals \<times> Backend) res" where
  "handle_predicted now junk pkt paddr q s =
     bindE (nonfree_loop pkt (rev q)) (\<lambda>nf.
     let be1 = (if nf then (snd s)\<lparr>be_correctlyPredNonFreeWr := be_correctlyPredNonFreeWr (snd s) + 1\<rparr> else snd s) in
     bindE (match_loop now pkt (rev q) 0
              \<lparr>ms_g = fst s, ms_be = be1, ms_maxDataMatchCount = 0, ms_maxDataMatchHash = junk\<rparr>) (\<lambda>(idx, r).
     bindE (if ms_maxDataMatchHash r \<noteq> 0 then map_res cw_get_generator_hash q else Inr []) (\<lambda>_.
     bindE (updateConstChunks (ms_maxDataMatchHash r) paddr pkt (ms_g r)) (\<lambda>g.
     bindE (sample_addr_match now q (ms_be r)) (\<lambda>be2.
     finish_match paddr q idx (g, be2))))))"

definition count_write :: "nat \<Rightarrow> Addr_t \<Rightarrow> Globals \<Rightarrow> Backend \<Rightarrow> Backend" where
  "count_write valid paddr g be =
     (let be1 = be\<lparr>be_validChunks := be_validChunks be + valid, be_totalPWrites := be_totalPWrites be + 1\<rparr> in
      case um_find (g_addrMatches g) paddr of
        None \<Rightarrow> be1
      | Some n \<Rightarrow> if n > 0 then be1\<lparr>be_addrPredictions := be_addrPredictions be1 + 1\<rparr> else be1)"

definition handleNonVolatileWrite :: "environ \<Rightarrow> Tick \<Rightarrow> hash_t \<Rightarrow> Packet \<Rightarrow> Globals \<times> Backend \<Rightarrow> (Globals \<times> Backend) res" where
  "handleNonVolatileWrite env now junk pkt s =
     bindE (mk_CacheLine_pkt now pkt False) (\<lambda>cl.
     bindE (valid_chunk_count cl) (\<lambda>valid.
     bindE (getPaddr (pk_req pkt)) (\<lambda>paddr.
     let be1 = count_write valid paddr (fst s) (snd s) in
     case um_find (g_completedWrites (fst s)) paddr of
       None \<Rightarrow> Inr (invalidateAllAddr env now
                  (fst s, be1\<lparr>be_nonPredictedPWrites := be_nonPredictedPWrites be1 + 1\<rparr>))
     | Some q \<Rightarrow> handle_predicted now junk pkt paddr q (fst s, be1))))"

section \<open>Requests\<close>

definition dumpTrace :: "Tick \<Rightarrow> Packet \<Rightarrow> Backend \<Rightarrow> Backend res" where
  "dumpTrace now pkt be =
     (if be_enableNonVolatileDump be \<noteq> ''1'' then Inr be
      else bindE (getSize pkt) (\<lambda>writeSize.
        bindE (getPaddr (pk_req pkt)) (\<lambda>addr.
        let isClwb = isToPOC (pk_req pkt) in
        if (isWrite pkt \<and> writeSize = 64) \<or> isClwb
        then bindE (if writeSize = 64 then getPtr pkt
                    else if writeSize = 1 then bindE (panic_if (\<not> isClwb) ''Non 64 byte cacheline eviction'') (\<lambda>_. Inr [])
                    else Inl (Panic ''Non 64 byte cacheline eviction'')) (\<lambda>ds.
             Inr (be\<lparr>be_myFile := be_myFile be @ [\<lparr>tl_op = (if writeSize = 1 then Trace_C else Trace_W), tl_paddr = addr,
                      tl_size = writeSize, tl_data = ds, tl_tick = now\<rparr>]\<rparr>))
        else Inr be)))"

definition update_writeback :: "Tick \<Rightarrow> Addr_t \<Rightarrow> bool \<Rightarrow> Backend \<Rightarrow> Backend" where
  "update_writeback now addr isClwb be =
     (if \<not> is_paddr_pm addr then be
      else if isClwb
        then (case um_find (be_writebackDistMap be) (cacheline_align addr) of
                None \<Rightarrow> be
              | Some t \<Rightarrow> be\<lparr>be_writebackDistStat := be_writebackDistStat be @ [(now - t) div 1000]\<rparr>)
        else be\<lparr>be_writebackDistMap := um_put (cacheline_align addr) now (be_writebackDistMap be)\<rparr>)"

definition predictorHandleRequest :: "environ \<Rightarrow> Tick \<Rightarrow> hash_t \<Rightarrow> Packet \<Rightarrow> Globals \<times> Backend \<Rightarrow> (Globals \<times> Backend) res" where
  "predictorHandleRequest env now junk pkt s =
     (if \<not> g_predictorEnabled (fst s) \<or> \<not> g_usePredictor (fst s) then Inr s
      else bindE (dumpTrace now pkt (snd s)) (\<lambda>be.
        bindE (if isToPOC (pk_req pkt) then bindE (req_getSize (pk_req pkt)) (\<lambda>n. Inr (n = 1)) else Inr False) (\<lambda>isClwb.
        bindE (getAddr pkt) (\<lambda>addr.
        bindE (if is_paddr_pm addr \<and> isWrite pkt \<and> \<not> isClwb
               then handleNonVolatileWrite env now junk pkt (fst s, be) else Inr (fst s, be)) (\<lambda>(g, be').
        Inr (g, update_writeback now addr isClwb be'))))))"

abbreviation (input) P_WRITE_VADDR_PADDR_COMP_MASK :: "64 word" where "P_WRITE_VADDR_PADDR_COMP_MASK \<equiv> 0xFFF"

definition getCompWriteKey :: "Addr_t \<Rightarrow> Addr_t" where
  "getCompWriteKey addr = addr AND P_WRITE_VADDR_PADDR_COMP_MASK"

section \<open>Well-formed predictions and writes\<close>

definition gen_ok :: "ChunkInfo \<Rightarrow> bool" where
  "gen_ok c = (chunk_ok c \<and> (ci_chunkType c = CT_DATA \<and> \<not> is_free_prediction c \<longrightarrow> has_generating_pc c))"

definition entry_ok :: "CompletedWriteEntry \<Rightarrow> bool" where
  "entry_ok e = (cw_has_addr e \<and> cw_has_generator_hash e \<and> cw_has_time_of_addr_gen e \<and> cw_has_time_of_data_gen e \<and>
     cw_has_time_of_creation e \<and> is_flag_set (cw_flags e) CW_ORIGNAL_CACHELINE \<and>
     length (cl_dataChunks (cw_cacheline e)) = 16 \<and> list_all gen_ok (cl_dataChunks (cw_cacheline e)) \<and>
     length (cl_dataChunks (cw_orignalCacheLine e)) = 16 \<and> list_all chunk_ok (cl_dataChunks (cw_orignalCacheLine e)))"

text \<open>A write of a whole line.\<close>

definition line_write :: "Packet \<Rightarrow> Addr_t \<Rightarrow> DataChunk list \<Rightarrow> bool" where
  "line_write pkt paddr ds = (getPaddr (pk_req pkt) = Inr paddr \<and> getSize pkt = Inr 64 \<and> getPtr pkt = Inr ds \<and>
     length ds = 16 \<and> cacheline_align paddr = paddr \<and> is_paddr_pm paddr)"

abbreviation has_chunk :: "ChunkInfo \<Rightarrow> bool" where
  "has_chunk c \<equiv> ci_chunkType c = CT_DATA"

text \<open>A prediction agrees with a write when it predicts some chunk, and every predicted chunk is right.\<close>

definition agrees :: "Addr_t \<Rightarrow> DataChunk list \<Rightarrow> CompletedWriteEntry \<Rightarrow> bool" where
  "agrees paddr ds e = (cw_addr e = paddr \<and> list_ex has_chunk (cl_dataChunks (cw_cacheline e)) \<and>
     list_all2 (\<lambda>c d. has_chunk c \<longrightarrow> chunk_data c = d) (cl_dataChunks (cw_cacheline e)) ds)"

lemma gen_ok_chunk: "list_all gen_ok cs \<Longrightarrow> list_all chunk_ok cs"
  by (auto simp: gen_ok_def list_all_iff)

lemma chunk_ok_reads: "chunk_ok c \<Longrightarrow> is_valid c = Inr (has_chunk c)"
  "chunk_ok c \<Longrightarrow> has_chunk c \<Longrightarrow> get_data c = Inr (chunk_data c)"
  by (auto simp: chunk_ok_def is_valid_def get_data_def chunk_data_def)

lemma chunk_differs_ok: "chunk_ok c \<Longrightarrow> i < length ds \<Longrightarrow> chunk_differs ds i c = Inr (has_chunk c \<and> chunk_data c \<noteq> ds ! i)"
  by (auto simp: chunk_differs_def chunk_ok_reads arr_get_def)

lemma data_equal_loop_ok:
  assumes "list_all chunk_ok cs" and "i + length cs \<le> length ds"
  shows "data_equal_loop ds i cs = Inr (list_all2 (\<lambda>c d. has_chunk c \<longrightarrow> chunk_data c = d) cs (take (length cs) (drop i ds)))"
  using assms
proof (induction cs arbitrary: i)
  case (Cons c cs)
  then have "drop i ds = ds ! i # drop (Suc i) ds" by (simp add: Cons_nth_drop_Suc)
  with Cons show ?case by (simp add: chunk_differs_ok)
qed simp

lemma mismatch_count_ok: "list_all chunk_ok cs \<Longrightarrow> i + length cs \<le> length ds \<Longrightarrow> \<exists>n. mismatch_count ds i cs = Inr n"
proof (induction cs arbitrary: i)
  case (Cons c cs)
  then obtain n where "mismatch_count ds (i + 1) cs = Inr n" by fastforce
  then show ?case using Cons.prems by (auto simp: chunk_differs_ok)
qed simp

lemma match_bits_ok: "list_all chunk_ok cs \<Longrightarrow> i + length cs \<le> length ds \<Longrightarrow> \<exists>bs. match_bits ds i cs = Inr bs"
proof (induction cs arbitrary: i)
  case (Cons c cs)
  then obtain bs where "match_bits ds (i + 1) cs = Inr bs" by fastforce
  then show ?case using Cons.prems by (auto simp: chunk_ok_reads arr_get_def)
qed simp

lemma all_invalid_ok:
  assumes "list_all chunk_ok (cl_dataChunks cl)"
  shows "all_invalid cl = Inr (\<not> list_ex has_chunk (cl_dataChunks cl))"
proof -
  have "fold_res (\<lambda>c r. bindE (is_valid c) (\<lambda>v. Inr (if v then False else r))) cs r = Inr (r \<and> \<not> list_ex has_chunk cs)"
    if "list_all chunk_ok cs" for cs r
    using that by (induction cs arbitrary: r) (auto simp: chunk_ok_reads)
  from this [OF assms] show ?thesis by (simp add: all_invalid_def)
qed

lemma entry_ok_reads:
  assumes "entry_ok e"
  shows "cw_get_addr e = Inr (cw_addr e)" "cw_get_generator_hash e = Inr (cw_generatorHash e)"
    "cw_get_time_of_addr_gen e = Inr (cw_timeOfAddrGen e)" "cw_get_time_of_data_gen e = Inr (cw_timeOfDataGen e)"
    "cw_get_time_of_creation e = Inr (cw_timeOfCreation e)" "cw_get_orig_cacheline e = Inr (cw_orignalCacheLine e)"
    "cw_get_least_time_of_gen e = Inr (min (cw_timeOfAddrGen e) (cw_timeOfDataGen e))"
    "is_free_entry e = Inr (is_free_prediction (cl_dataChunks (cw_cacheline e) ! 0))"
    "list_all chunk_ok (cl_dataChunks (cw_cacheline e))" "length (cl_dataChunks (cw_cacheline e)) = 16"
  using assms by (auto simp: entry_ok_def cw_defs cw_get_least_time_of_gen_def is_free_entry_def arr_get_def intro: gen_ok_chunk)

lemma line_write_reads:
  assumes "line_write pkt paddr ds"
  shows "getPaddr (pk_req pkt) = Inr paddr" "getSize pkt = Inr 64" "getPtr pkt = Inr ds" "length ds = 16"
  using assms by (simp_all add: line_write_def)

lemma equal_addr_ok: "entry_ok e \<Longrightarrow> line_write pkt paddr ds \<Longrightarrow> isPktEqualCompletedEntryAddr pkt e = Inr (cw_addr e = paddr)"
  by (simp add: isPktEqualCompletedEntryAddr_def entry_ok_reads line_write_reads)

lemma equal_entry_ok:
  assumes "entry_ok e" and "line_write pkt paddr ds"
  shows "isPktEqualCompletedEntry pkt e = Inr (agrees paddr ds e)"
proof -
  have "data_equal_loop ds 0 (cl_dataChunks (cw_cacheline e)) =
      Inr (list_all2 (\<lambda>c d. has_chunk c \<longrightarrow> chunk_data c = d) (cl_dataChunks (cw_cacheline e)) ds)"
    using data_equal_loop_ok [of "cl_dataChunks (cw_cacheline e)" 0 ds] entry_ok_reads(9,10) [OF assms(1)] line_write_reads(4) [OF assms(2)]
    by simp
  moreover have "all_invalid (cw_cacheline e) = Inr (\<not> list_ex has_chunk (cl_dataChunks (cw_cacheline e)))"
    by (rule all_invalid_ok) (rule entry_ok_reads(9) [OF assms(1)])
  ultimately show ?thesis
    using equal_addr_ok [OF assms] line_write_reads [OF assms(2)]
    by (auto simp: isPktEqualCompletedEntry_def isPktEqualCompletedEntryData_def agrees_def)
qed

lemma nonfree_loop_ok:
  "list_all entry_ok es \<Longrightarrow> line_write pkt paddr ds \<Longrightarrow> \<exists>b. nonfree_loop pkt es = Inr b"
  by (induction es) (auto simp: equal_entry_ok entry_ok_reads)

lemma find_hash_ok: "list_all entry_ok es \<Longrightarrow>
    find_hash h es = Inr (List.find (\<lambda>e. cw_generatorHash e = h) es)"
  by (induction es) (auto simp: entry_ok_reads)

lemma hashes_ok: "list_all entry_ok es \<Longrightarrow> map_res cw_get_generator_hash es = Inr (map cw_generatorHash es)"
  by (induction es) (auto simp: entry_ok_reads)

section \<open>What the backend learns\<close>

definition pc_conf_ok :: "Globals \<Rightarrow> bool" where
  "pc_conf_ok g = (um_wf (g_genPCConf g) \<and> (\<forall>pc c. um_find (g_genPCConf g) pc = Some c \<longrightarrow> conf_inv c))"

definition tracker_ok :: "Globals \<Rightarrow> bool" where
  "tracker_ok g = (um_wf (g_constPredTracker g) \<and>
     (\<forall>h t. um_find (g_constPredTracker g) h = Some t \<longrightarrow> um_wf t \<and> (\<forall>k. um_find t k \<noteq> None \<longrightarrow> k < 16)))"

definition learn_ok :: "Globals \<Rightarrow> bool" where
  "learn_ok g = (conf_table_ok g \<and> pc_conf_ok g \<and> tracker_ok g \<and> um_wf (g_correctPredictions g))"

text \<open>Everything but the four tables of the learning state.\<close>

definition learn_frame :: "Globals \<Rightarrow> Globals" where
  "learn_frame g = g\<lparr>g_correctPredictions := [], g_genPCConf := [], g_constPredTracker := [], g_confidenceTable := []\<rparr>"

lemma learn_frame_eq:
  assumes "learn_frame g' = learn_frame g"
  shows "g_completedWrites g' = g_completedWrites g" "g_usePredictor g' = g_usePredictor g"
    "g_predictorEnabled g' = g_predictorEnabled g" "g_MAX_COMPLETED_QUEUE_LINE_SIZE g' = g_MAX_COMPLETED_QUEUE_LINE_SIZE g"
    "g_meta g' = g_meta g" "g_pendingPredictionQueue g' = g_pendingPredictionQueue g" "g_clwbLatency g' = g_clwbLatency g"
proof -
  have sel: "g_completedWrites (learn_frame x) = g_completedWrites x" "g_usePredictor (learn_frame x) = g_usePredictor x"
    "g_predictorEnabled (learn_frame x) = g_predictorEnabled x"
    "g_MAX_COMPLETED_QUEUE_LINE_SIZE (learn_frame x) = g_MAX_COMPLETED_QUEUE_LINE_SIZE x"
    "g_meta (learn_frame x) = g_meta x" "g_pendingPredictionQueue (learn_frame x) = g_pendingPredictionQueue x"
    "g_clwbLatency (learn_frame x) = g_clwbLatency x" for x
    by (simp_all add: learn_frame_def)
  show "g_completedWrites g' = g_completedWrites g" "g_usePredictor g' = g_usePredictor g"
    "g_predictorEnabled g' = g_predictorEnabled g" "g_MAX_COMPLETED_QUEUE_LINE_SIZE g' = g_MAX_COMPLETED_QUEUE_LINE_SIZE g"
    "g_meta g' = g_meta g" "g_pendingPredictionQueue g' = g_pendingPredictionQueue g" "g_clwbLatency g' = g_clwbLatency g"
    using assms sel [of g] sel [of g'] by simp_all
qed

lemma learn_frame_updates [simp]:
  "learn_frame (g\<lparr>g_correctPredictions := a\<rparr>) = learn_frame g" "learn_frame (g\<lparr>g_genPCConf := b\<rparr>) = learn_frame g"
  "learn_frame (g\<lparr>g_constPredTracker := c\<rparr>) = learn_frame g" "learn_frame (g\<lparr>g_confidenceTable := d\<rparr>) = learn_frame g"
  by (simp_all add: learn_frame_def)

lemma learn_frame_ops [simp]: "learn_frame (initConf h g) = learn_frame g" "learn_frame (reward_conf h g) = learn_frame g"
  "learn_frame (broadcastPrediction h a d g) = learn_frame g"
  by (simp_all add: initConf_def reward_conf_def broadcastPrediction_def Let_def)

definition uncredited :: "Globals \<Rightarrow> Globals \<Rightarrow> bool" where
  "uncredited g g' = (conf_of g' = conf_of g \<and> g_correctPredictions g' = g_correctPredictions g)"

definition credited :: "hash_t \<Rightarrow> bool \<Rightarrow> Globals \<Rightarrow> Globals \<Rightarrow> bool" where
  "credited h free g g' = (
     conf_of g' = (conf_of g)(h := (if conf_of g h = 4 then 4 else conf_of g h + 1)) \<and>
     g_correctPredictions g' = g_correctPredictions (if free then g else broadcastPrediction h True True g))"

lemma pc_conf_step_ok:
  assumes "gen_ok (snd x)" and "fst x < length ds" and "pc_conf_ok g"
  shows "\<exists>m. pc_conf_step ds x g = Inr (g\<lparr>g_genPCConf := m\<rparr>) \<and> pc_conf_ok (g\<lparr>g_genPCConf := m\<rparr>)"
proof (cases "has_chunk (snd x) \<and> \<not> is_free_prediction (snd x)")
  case False
  then show ?thesis using assms
    by (intro exI [of _ "g_genPCConf g"]) (auto simp: pc_conf_step_def gen_ok_def chunk_ok_reads)
next
  case True
  let ?pc = "ci_generatingPC (snd x)"
  let ?m = "um_insert ?pc (mk_Confidence 6 7 0) (g_genPCConf g)"
  have pc: "get_generating_pc (snd x) = Inr ?pc" using True assms(1) by (simp add: gen_ok_def get_generating_pc_def)
  have init: "conf_inv (mk_Confidence 6 7 0)" by (simp add: conf_inv_def mk_Confidence_def)
  have m: "um_wf ?m" "\<forall>p c. um_find ?m p = Some c \<longrightarrow> conf_inv c"
    using assms(3) init by (auto simp: pc_conf_ok_def um_simps um_wf_intros split: if_splits)
  have "um_find ?m ?pc \<noteq> None" by (simp add: um_simps)
  then obtain c where c: "um_find ?m ?pc = Some c" by blast
  then have inv: "conf_inv c" using m(2) by blast
  obtain c' where c': "(if ds ! fst x \<noteq> chunk_data (snd x) then conf_sub 1 c else Inr c) = Inr c'" "conf_inv c'"
    using conf_sub_ok [OF inv, of 1] inv by (cases "ds ! fst x \<noteq> chunk_data (snd x)") auto
  have "pc_conf_ok (g\<lparr>g_genPCConf := um_put ?pc c' ?m\<rparr>)" using m c'(2) by (auto simp: pc_conf_ok_def um_find_put um_wf_intros)
  moreover have "pc_conf_step ds x g = Inr (g\<lparr>g_genPCConf := um_put ?pc c' ?m\<rparr>)"
    using True assms(1,2) pc c c'(1) by (simp add: pc_conf_step_def gen_ok_def chunk_ok_reads arr_get_def Let_def)
  ultimately show ?thesis by blast
qed

lemma pc_conf_fold_ok:
  assumes "\<forall>x\<in>set xs. gen_ok (snd x) \<and> fst x < length ds" and "pc_conf_ok g"
  shows "\<exists>m. fold_res (pc_conf_step ds) xs g = Inr (g\<lparr>g_genPCConf := m\<rparr>) \<and> pc_conf_ok (g\<lparr>g_genPCConf := m\<rparr>)"
  using assms
proof (induction xs arbitrary: g)
  case Nil
  then show ?case by (intro exI [of _ "g_genPCConf g"]) simp
next
  case (Cons x xs)
  then obtain m where m: "pc_conf_step ds x g = Inr (g\<lparr>g_genPCConf := m\<rparr>)" "pc_conf_ok (g\<lparr>g_genPCConf := m\<rparr>)"
    using pc_conf_step_ok [of x ds g] by auto
  with Cons.IH [OF _ m(2)] Cons.prems(1) show ?case by auto
qed

lemma updatePCConf_ok:
  assumes "entry_ok e" and "line_write pkt paddr ds" and "learn_ok g"
  shows "\<exists>g'. updatePCConf pkt e g = Inr g' \<and> learn_ok g' \<and> learn_frame g' = learn_frame g \<and> uncredited g g'"
proof -
  have "\<forall>x\<in>set (enumerate 0 (cl_dataChunks (cw_cacheline e))). gen_ok (snd x) \<and> fst x < length ds"
    using assms(1,2) by (auto simp: entry_ok_def line_write_def list_all_length in_set_enumerate_eq)
  from pc_conf_fold_ok [OF this] assms(3) obtain m where
    "fold_res (pc_conf_step ds) (enumerate 0 (cl_dataChunks (cw_cacheline e))) g = Inr (g\<lparr>g_genPCConf := m\<rparr>)"
    "pc_conf_ok (g\<lparr>g_genPCConf := m\<rparr>)" by (auto simp: learn_ok_def)
  then show ?thesis using assms(3) line_write_reads(3) [OF assms(2)]
    by (auto simp: updatePCConf_def learn_ok_def conf_table_ok_def tracker_ok_def uncredited_def conf_of_def)
qed

lemma learn_ok_initConf: "learn_ok g \<Longrightarrow> learn_ok (initConf h g)"
  using initConf_ok by (auto simp: learn_ok_def pc_conf_ok_def tracker_ok_def initConf_def)

lemma learn_ok_reward: "learn_ok g \<Longrightarrow> learn_ok (reward_conf h g)"
  using reward_conf_ok by (auto simp: learn_ok_def pc_conf_ok_def tracker_ok_def reward_conf_def Let_def)

lemma learn_ok_broadcast: "learn_ok g \<Longrightarrow> learn_ok (broadcastPrediction h a d g)"
  by (auto simp: learn_ok_def conf_table_ok_def pc_conf_ok_def tracker_ok_def broadcastPrediction_def um_wf_intros)

lemma const_0_count_ok: "list_all chunk_ok cs \<Longrightarrow> \<exists>n. const_0_count cs = Inr n"
proof -
  have "list_all chunk_ok cs \<Longrightarrow> \<exists>k. fold_res (\<lambda>c n. bindE (is_valid c) (\<lambda>v. Inr (if v \<and> is_const_0_pred c then n + 1 else n))) cs m = Inr k" for m
    by (induction cs arbitrary: m) (auto simp: chunk_ok_reads)
  then show "list_all chunk_ok cs \<Longrightarrow> ?thesis" by (simp add: const_0_count_def)
qed

lemma const_vec_ok: "list_all chunk_ok cs \<Longrightarrow> \<exists>bs. map_res (\<lambda>c. bindE (is_valid c) (\<lambda>v. Inr (v \<and> is_constant_pred c))) cs = Inr bs"
  by (induction cs) (auto simp: chunk_ok_reads)

text \<open>The counters that account for every write.\<close>

definition outcome :: "Backend \<Rightarrow> nat \<times> nat \<times> nat \<times> nat" where
  "outcome be = (be_totalPWrites be, be_nonPredictedPWrites be, be_correctlyPredictedPWrites be, be_dataMissPredictedPWrites be)"

fun one_more :: "bool \<Rightarrow> nat \<times> nat \<times> nat \<times> nat \<Rightarrow> nat \<times> nat \<times> nat \<times> nat" where
  "one_more b (t, n, c, d) = (t, n, if b then c + 1 else c, d)"

lemma one_more_False [simp]: "one_more False x = x"
  by (cases x) simp

lemma broadcast_frame: "g_confidenceTable (broadcastPrediction h a d g) = g_confidenceTable g"
  by (simp add: broadcastPrediction_def)

lemma match_correct_ok:
  assumes e: "entry_ok e" and g: "learn_ok (ms_g s)" and h: "um_find (g_confidenceTable (ms_g s)) (cw_generatorHash e) \<noteq> None"
  shows "\<exists>s'. match_correct now (cw_generatorHash e) e s = Inr s' \<and> learn_ok (ms_g s') \<and>
    learn_frame (ms_g s') = learn_frame (ms_g s) \<and>
    credited (cw_generatorHash e) (is_free_prediction (cl_dataChunks (cw_cacheline e) ! 0)) (ms_g s) (ms_g s') \<and>
    outcome (ms_be s') = one_more True (outcome (ms_be s)) \<and> ms_maxDataMatchHash s' = ms_maxDataMatchHash s"
proof -
  let ?h = "cw_generatorHash e" and ?f = "is_free_prediction (cl_dataChunks (cw_cacheline e) ! 0)"
  let ?g = "if ?f then ms_g s else broadcastPrediction ?h True True (ms_g s)"
  obtain n where n: "const_0_count (cl_dataChunks (cw_cacheline e)) = Inr n"
    using const_0_count_ok entry_ok_reads(9) [OF e] by blast
  have conf: "conf_of ?g = conf_of (ms_g s)" by (simp add: conf_of_def broadcast_frame fun_eq_iff)
  have "um_find (g_confidenceTable ?g) ?h \<noteq> None" using h by (simp add: broadcast_frame)
  then have "conf_of (reward_conf ?h ?g) = (conf_of ?g)(?h := (if conf_of ?g ?h = 4 then 4 else conf_of ?g ?h + 1))"
    using conf_of_reward [of ?g ?h] conf_table_conf_of [of "ms_g s" ?h] g conf by (simp add: learn_ok_def)
  then have "credited ?h ?f (ms_g s) (reward_conf ?h ?g)"
    unfolding credited_def conf by (simp add: reward_conf_def Let_def)
  moreover have "learn_ok (reward_conf ?h ?g)" using g by (simp add: learn_ok_reward learn_ok_broadcast)
  ultimately show ?thesis
    using n by (auto simp: match_correct_def entry_ok_reads [OF e] update_stats_for_const_pred_def Let_def outcome_def)
qed

lemma match_incorrect_ok:
  assumes e: "entry_ok e" and p: "line_write pkt paddr ds" and g: "learn_ok (ms_g s)"
  shows "\<exists>s'. match_incorrect pkt h e s = Inr s' \<and> learn_ok (ms_g s') \<and>
    learn_frame (ms_g s') = learn_frame (ms_g s) \<and> uncredited (ms_g s) (ms_g s') \<and> outcome (ms_be s') = outcome (ms_be s)"
proof -
  from updatePCConf_ok [OF e p g] obtain g' where g': "updatePCConf pkt e (ms_g s) = Inr g'" "learn_ok g'"
    "learn_frame g' = learn_frame (ms_g s)" "uncredited (ms_g s) g'" by blast
  obtain bs where bs: "match_bits ds 0 (cl_dataChunks (cw_cacheline e)) = Inr bs"
    using match_bits_ok [of _ 0 ds] entry_ok_reads(9,10) [OF e] line_write_reads(4) [OF p] by fastforce
  obtain cs where cs: "dataChunkConstVec e = Inr cs" using const_vec_ok entry_ok_reads(9) [OF e] by (auto simp: dataChunkConstVec_def)
  show ?thesis using g' bs cs line_write_reads(3) [OF p]
    by (auto simp: match_incorrect_def dataChunkMatchVec_def Let_def outcome_def)
qed

lemma match_step_ok:
  assumes e: "entry_ok e" and p: "line_write pkt paddr ds" and g: "learn_ok (ms_g s)"
    and found: "found = (agrees paddr ds e \<and> \<not> cw_used e)"
  shows "\<exists>s'. match_step now pkt e s = Inr (found, s') \<and> learn_ok (ms_g s') \<and>
    learn_frame (ms_g s') = learn_frame (ms_g s) \<and> outcome (ms_be s') = one_more found (outcome (ms_be s)) \<and>
    (if found then credited (cw_generatorHash e) (is_free_prediction (cl_dataChunks (cw_cacheline e) ! 0)) (ms_g s) (ms_g s')
     else uncredited (ms_g s) (ms_g s'))"
proof -
  let ?h = "cw_generatorHash e"
  let ?s1 = "s\<lparr>ms_g := initConf ?h (ms_g s)\<rparr>"
  have g1: "learn_ok (initConf ?h (ms_g s))" using g by (rule learn_ok_initConf)
  have h1: "um_find (g_confidenceTable (initConf ?h (ms_g s))) ?h \<noteq> None" by (simp add: initConf_find)
  have c1: "conf_of (initConf ?h (ms_g s)) = conf_of (ms_g s)" "g_correctPredictions (initConf ?h (ms_g s)) = g_correctPredictions (ms_g s)"
    by simp (simp add: initConf_def)
  show ?thesis
  proof (cases "cw_addr e = paddr \<and> \<not> cw_used e")
    case False
    then have "\<not> found" using found by (auto simp: agrees_def)
    then show ?thesis using False g1 c1
      by (cases "cw_used e")
         (auto simp: match_step_def entry_ok_reads [OF e] equal_addr_ok [OF e p] cw_is_used_def uncredited_def outcome_def Let_def)
  next
    case True
    obtain n where n: "mismatch_count ds 0 (cl_dataChunks (cw_cacheline e)) = Inr n"
      using mismatch_count_ok [of _ 0 ds] entry_ok_reads(9,10) [OF e] line_write_reads(4) [OF p] by fastforce
    let ?be = "(ms_be s)\<lparr>be_addrPmWriteMatchDistance := be_addrPmWriteMatchDistance (ms_be s) @
        [(now - min (cw_timeOfAddrGen e) (cw_timeOfDataGen e)) div 1000],
        be_avgDataMatchForAddrMatch := be_avgDataMatchForAddrMatch (ms_be s) + n\<rparr>"
    let ?s3 = "s\<lparr>ms_g := initConf ?h (ms_g s), ms_be := ?be\<rparr>"
    have run: "match_step now pkt e s = (if agrees paddr ds e
        then bindE (match_correct now ?h e ?s3) (\<lambda>s4. Inr (True, s4))
        else bindE (match_incorrect pkt ?h e ?s3) (\<lambda>s4. Inr (False, s4)))"
      using True n by (simp add: match_step_def entry_ok_reads [OF e] equal_addr_ok [OF e p] equal_entry_ok [OF e p]
          cw_is_used_def getMatchingChunkCount_def line_write_reads [OF p])
    have o3: "outcome ?be = outcome (ms_be s)" by (simp add: outcome_def)
    show ?thesis
    proof (cases "agrees paddr ds e")
      case agr: True
      have "learn_ok (ms_g ?s3)" "um_find (g_confidenceTable (ms_g ?s3)) ?h \<noteq> None" using g1 h1 by simp_all
      from match_correct_ok [OF e this, of now] obtain s4 where
        s4: "match_correct now ?h e ?s3 = Inr s4" "learn_ok (ms_g s4)" "learn_frame (ms_g s4) = learn_frame (ms_g s)"
          "credited ?h (is_free_prediction (cl_dataChunks (cw_cacheline e) ! 0)) (initConf ?h (ms_g s)) (ms_g s4)"
          "outcome (ms_be s4) = one_more True (outcome (ms_be s))"
        using o3 by auto
      have "g_correctPredictions (broadcastPrediction ?h True True (initConf ?h (ms_g s))) =
          g_correctPredictions (broadcastPrediction ?h True True (ms_g s))" using c1(2) by (simp add: broadcastPrediction_def)
      then have "credited ?h (is_free_prediction (cl_dataChunks (cw_cacheline e) ! 0)) (ms_g s) (ms_g s4)"
        using s4(4) c1 by (simp add: credited_def split: if_splits)
      then show ?thesis using run agr True s4 found by simp
    next
      case dis: False
      have "learn_ok (ms_g ?s3)" using g1 by simp
      from match_incorrect_ok [OF e p this, of ?h] obtain s4 where
        s4: "match_incorrect pkt ?h e ?s3 = Inr s4" "learn_ok (ms_g s4)" "learn_frame (ms_g s4) = learn_frame (ms_g s)"
          "uncredited (initConf ?h (ms_g s)) (ms_g s4)" "outcome (ms_be s4) = outcome (ms_be s)"
        using o3 by auto
      then have "uncredited (ms_g s) (ms_g s4)" using c1 by (simp add: uncredited_def)
      then show ?thesis using run dis True s4 found by simp
    qed
  qed
qed

text \<open>The loop over the predictions stops at the first one that agrees and is not used.\<close>

definition usable :: "Addr_t \<Rightarrow> DataChunk list \<Rightarrow> CompletedWriteEntry \<Rightarrow> bool" where
  "usable paddr ds e = (agrees paddr ds e \<and> \<not> cw_used e)"

definition is_free :: "CompletedWriteEntry \<Rightarrow> bool" where
  "is_free e = is_free_prediction (cl_dataChunks (cw_cacheline e) ! 0)"

definition settled :: "CompletedWriteEntry option \<Rightarrow> Globals \<Rightarrow> Globals \<Rightarrow> bool" where
  "settled r g g' = (case r of None \<Rightarrow> uncredited g g' | Some e \<Rightarrow> credited (cw_generatorHash e) (is_free e) g g')"

lemma uncredited_trans: "uncredited a b \<Longrightarrow> settled r b c \<Longrightarrow> settled r a c"
  by (auto simp: uncredited_def credited_def settled_def broadcastPrediction_def split: option.splits if_splits)

lemma match_loop_ok:
  assumes "list_all entry_ok es" and p: "line_write pkt paddr ds" and "learn_ok (ms_g s)"
  shows "\<exists>s'. match_loop now pkt es i s = Inr (map_option (\<lambda>k. i + k) (first_index (usable paddr ds) es), s') \<and> learn_ok (ms_g s') \<and>
    learn_frame (ms_g s') = learn_frame (ms_g s) \<and>
    outcome (ms_be s') = one_more (list_ex (usable paddr ds) es) (outcome (ms_be s)) \<and>
    settled (List.find (usable paddr ds) es) (ms_g s) (ms_g s')"
  using assms(1,3)
proof (induction es arbitrary: i s)
  case Nil
  then show ?case by (simp add: settled_def uncredited_def)
next
  case (Cons e es)
  then have e: "entry_ok e" by simp
  from match_step_ok [OF e p Cons.prems(2) refl, of now] obtain s1 where
    s1: "match_step now pkt e s = Inr (usable paddr ds e, s1)" "learn_ok (ms_g s1)" "learn_frame (ms_g s1) = learn_frame (ms_g s)"
      "outcome (ms_be s1) = one_more (usable paddr ds e) (outcome (ms_be s))"
      "if usable paddr ds e then credited (cw_generatorHash e) (is_free e) (ms_g s) (ms_g s1) else uncredited (ms_g s) (ms_g s1)"
    by (auto simp: usable_def is_free_def)
  show ?case
  proof (cases "usable paddr ds e")
    case True
    then show ?thesis using s1 by (simp add: settled_def)
  next
    case False
    from Cons.IH [OF _ s1(2), of "i + 1"] Cons.prems(1) obtain s2 where
      s2: "match_loop now pkt es (i + 1) s1 = Inr (map_option (\<lambda>k. i + 1 + k) (first_index (usable paddr ds) es), s2)" "learn_ok (ms_g s2)"
        "learn_frame (ms_g s2) = learn_frame (ms_g s1)" "outcome (ms_be s2) = one_more (list_ex (usable paddr ds) es) (outcome (ms_be s1))"
        "settled (List.find (usable paddr ds) es) (ms_g s1) (ms_g s2)" by auto
    have "settled (List.find (usable paddr ds) es) (ms_g s) (ms_g s2)"
      using uncredited_trans [OF _ s2(5)] s1(5) False by simp
    moreover have "map_option (\<lambda>k. i + 1 + k) r = map_option (\<lambda>k. i + k) (map_option Suc r)" for r
      by (cases r) simp_all
    ultimately show ?thesis using s1 s2 False by simp
  qed
qed

lemma aligned_chunk_offset: "cacheline_align a = a \<Longrightarrow> chunk_offset a = 0"
proof -
  assume "cacheline_align a = a"
  then have "get_cacheline_off a = get_cacheline_off (cacheline_align a)" by simp
  then show ?thesis by (simp add: chunk_offset_def get_cacheline_off_align)
qed

lemma line_write_line:
  assumes "line_write pkt paddr ds"
  shows "\<exists>cl n. mk_CacheLine_pkt now pkt False = Inr cl \<and> valid_chunk_count cl = Inr n"
proof -
  have off: "chunk_offset paddr = 0" using assms aligned_chunk_offset by (simp add: line_write_def)
  have "16 \<le> length ds" using assms by (simp add: line_write_def)
  from fill_chunks_ok [OF _ _ this, of "replicate 16 ChunkInfo_default" 0] obtain cs where
    cs: "fill_chunks ds 16 0 (replicate 16 ChunkInfo_default) = Inr cs" "length cs = 16" "\<forall>j<16. chunk_ok (cs ! j)" by auto
  have ok: "list_all chunk_ok cs" using cs(2,3) by (simp add: list_all_length)
  have count: "\<exists>n. fold_res (\<lambda>c n. bindE (is_invalid c) (\<lambda>b. Inr (if b then n + 1 else n))) cs (k :: nat) = Inr n"
    if "list_all chunk_ok cs" for cs k
    using that by (induction cs arbitrary: k) (auto simp: is_invalid_def chunk_ok_reads)
  show ?thesis
    using cs(1) off count [OF ok, of 0] line_write_reads [OF assms]
    by (auto simp: mk_CacheLine_pkt_def Let_def CacheLine_default_def valid_chunk_count_def invalid_chunk_count_def)
qed

section \<open>Constant chunks\<close>

lemma locate_chunk_ok:
  assumes "tracker_ok g" and "16 \<le> addr" and "off < 16"
  shows "\<exists>t l. um_find (locate_chunk h off addr (g_constPredTracker g)) h = Some t \<and> um_find t off = Some l \<and> um_wf t \<and>
    (\<forall>k. um_find t k \<noteq> None \<longrightarrow> k < 16) \<and>
    (\<forall>h'. h' \<noteq> h \<longrightarrow> um_find (locate_chunk h off addr (g_constPredTracker g)) h' = um_find (g_constPredTracker g) h') \<and>
    um_wf (locate_chunk h off addr (g_constPredTracker g))"
proof -
  let ?m = "g_constPredTracker g"
  have wf: "um_wf ?m" using assms(1) by (simp add: tracker_ok_def)
  have one: "um_wf [(off, constChunkLocator_default)]" "um_find [(off, constChunkLocator_default)] k = (if k = off then Some constChunkLocator_default else None)" for k
    by (simp_all add: um_wf_def um_find_def)
  have far: "addr \<noteq> off" using assms(2,3) by auto
  show ?thesis
  proof (cases "um_find ?m h")
    case None
    let ?t = "um_index constChunkLocator_default off [(off, constChunkLocator_default)]"
    have "locate_chunk h off addr ?m = um_put h ?t (um_put h [(off, constChunkLocator_default)] ?m)"
      using None far by (simp add: locate_chunk_def Let_def um_find_put um_has_def one(2))
    moreover have "um_find ?t k = (if k = off then Some constChunkLocator_default else None)" for k
      by (simp add: um_find_index one(2))
    ultimately show ?thesis using wf one(1) assms(3) by (auto simp: um_find_put um_wf_intros)
  next
    case (Some t)
    have t: "um_wf t" "\<And>k. um_find t k \<noteq> None \<Longrightarrow> k < 16" using assms(1) Some by (auto simp: tracker_ok_def)
    have "um_find t addr = None" using t(2) [of addr] assms(2) by (meson not_less)
    then have "locate_chunk h off addr ?m = um_put h (um_index constChunkLocator_default off t) ?m"
      using Some by (simp add: locate_chunk_def Let_def um_has_def)
    moreover have "um_find (um_index constChunkLocator_default off t) off \<noteq> None" by (simp add: um_find_index)
    moreover have "\<forall>k. um_find (um_index constChunkLocator_default off t) k \<noteq> None \<longrightarrow> k < 16"
      using t(2) assms(3) by (auto simp: um_find_index)
    ultimately show ?thesis using wf t(1) by (auto simp: um_find_put um_wf_intros)
  qed
qed

lemma const_chunk_step_ok:
  assumes e: "entry_ok e" and p: "line_write pkt paddr ds" and o: "off < 16" and g: "learn_ok g"
  shows "\<exists>m. const_chunk_step h paddr pkt e off g = Inr (g\<lparr>g_constPredTracker := m\<rparr>) \<and> learn_ok (g\<lparr>g_constPredTracker := m\<rparr>)"
proof -
  let ?c = "cl_dataChunks (cw_cacheline e) ! off" and ?oc = "cl_dataChunks (cw_orignalCacheLine e) ! off"
  have c: "chunk_ok ?c" "chunk_ok ?oc" "length (cl_dataChunks (cw_orignalCacheLine e)) = 16"
    using e o entry_ok_reads(9,10) [OF e] by (auto simp: entry_ok_def list_all_length)
  have big: "16 \<le> paddr" using p order_trans [of "16 :: 64 word" "8 * 1024 * 1024 * 1024" paddr]
    by (auto simp: line_write_def is_paddr_pm_def)
  have small: "(of_nat off :: 64 word) < 16" using o by (simp add: word_less_nat_alt unat_of_nat)
  have tr: "tracker_ok g" using g by (simp add: learn_ok_def)
  from locate_chunk_ok [OF tr big small, of h] obtain t l where
    t: "um_find (locate_chunk h (of_nat off) paddr (g_constPredTracker g)) h = Some t" "um_find t (of_nat off) = Some l" "um_wf t"
      "\<forall>k. um_find t k \<noteq> None \<longrightarrow> k < 16"
      "\<forall>h'. h' \<noteq> h \<longrightarrow> um_find (locate_chunk h (of_nat off) paddr (g_constPredTracker g)) h' = um_find (g_constPredTracker g) h'"
      "um_wf (locate_chunk h (of_nat off) paddr (g_constPredTracker g))" by blast
  let ?m = "um_put h (um_put (of_nat off) (track_chunk (of_nat off) (ds ! off) l) t) (locate_chunk h (of_nat off) paddr (g_constPredTracker g))"
  have new: "learn_ok (g\<lparr>g_constPredTracker := ?m\<rparr>)"
    using g t(3-6) small by (auto simp: learn_ok_def conf_table_ok_def pc_conf_ok_def tracker_ok_def um_find_put um_wf_intros)
  have same: "g = g\<lparr>g_constPredTracker := g_constPredTracker g\<rparr>" by simp
  have run: "const_chunk_step h paddr pkt e off g =
      Inr (if has_chunk ?c \<and> has_chunk ?oc \<and> chunk_data ?c \<noteq> ds ! off then g\<lparr>g_constPredTracker := ?m\<rparr> else g)"
    using c t(1,2) o by (simp add: const_chunk_step_def entry_ok_reads [OF e] line_write_reads [OF p] arr_get_def chunk_ok_reads Let_def)
  show ?thesis
  proof (cases "has_chunk ?c \<and> has_chunk ?oc \<and> chunk_data ?c \<noteq> ds ! off")
    case True
    then show ?thesis using run new by (intro exI [of _ ?m]) (simp only: if_True simp_thms)
  next
    case False
    then have "const_chunk_step h paddr pkt e off g = Inr g" using run by (simp only: if_False)
    then show ?thesis using g by (intro exI [of _ "g_constPredTracker g"]) simp
  qed
qed

lemma updateConstChunks_ok:
  assumes q: "um_find (g_completedWrites g) paddr = Some q" "list_all entry_ok q"
    and p: "line_write pkt paddr ds" and g: "learn_ok g"
  shows "\<exists>m. updateConstChunks h paddr pkt g = Inr (g\<lparr>g_constPredTracker := m\<rparr>) \<and> learn_ok (g\<lparr>g_constPredTracker := m\<rparr>)"
proof (cases "List.find (\<lambda>e. cw_generatorHash e = h) q")
  case None
  then show ?thesis using assms by (intro exI [of _ "g_constPredTracker g"]) (simp add: updateConstChunks_def find_hash_ok)
next
  case (Some e)
  then have e: "entry_ok e" using q(2) by (auto simp: find_Some_iff list_all_length)
  have "\<exists>m. fold_res (const_chunk_step h paddr pkt e) offs g = Inr (g\<lparr>g_constPredTracker := m\<rparr>) \<and> learn_ok (g\<lparr>g_constPredTracker := m\<rparr>)"
    if "\<forall>i\<in>set offs. i < 16" for offs
    using that g
  proof (induction offs arbitrary: g)
    case Nil
    then show ?case by (intro exI [of _ "g_constPredTracker g"]) simp
  next
    case (Cons off offs)
    from const_chunk_step_ok [OF e p _ Cons.prems(2), of off h] Cons.prems(1) obtain m where
      m: "const_chunk_step h paddr pkt e off g = Inr (g\<lparr>g_constPredTracker := m\<rparr>)" "learn_ok (g\<lparr>g_constPredTracker := m\<rparr>)" by auto
    from Cons.IH [OF _ m(2)] Cons.prems(1) m(1) show ?case by auto
  qed
  from this [of "[0..<16]"] show ?thesis using q Some by (simp add: updateConstChunks_def find_hash_ok)
qed

end
