(* ===== verification/Backend_Matching.thy ===== *)
theory Backend_Matching
  imports Backend Queues
begin

text \<open>
  The correctness of the predictor backend: which prediction a persistent write consumes, what it
  teaches the confidence table and the front ends, that the accounting of the writes is exact, and
  that inserting predictions keeps the result buffer within its bounds per line.
\<close>

section \<open>The invariant of the result buffer\<close>

definition line_ok :: "Globals \<Rightarrow> Addr_t \<Rightarrow> CompletedWriteEntry list \<Rightarrow> bool" where
  "line_ok g a q = (q \<noteq> [] \<and> list_all entry_ok q \<and> list_all (\<lambda>e. cw_addr e = a) q \<and>
     length q \<le> g_MAX_COMPLETED_QUEUE_LINE_SIZE g)"

definition be_inv :: "Globals \<Rightarrow> bool" where
  "be_inv g = (learn_ok g \<and> um_wf (g_completedWrites g) \<and>
     (\<forall>a q. um_find (g_completedWrites g) a = Some q \<longrightarrow> line_ok g a q))"

lemma be_inv_writes:
  assumes "learn_ok g" and "um_wf m" and "\<And>a q. um_find m a = Some q \<Longrightarrow> line_ok g a q"
  shows "be_inv (g\<lparr>g_completedWrites := m\<rparr>)"
  using assms by (auto simp: be_inv_def line_ok_def learn_ok_def conf_table_ok_def pc_conf_ok_def tracker_ok_def)

lemma be_inv_frame:
  assumes "be_inv g" and "learn_frame g' = learn_frame g" and "learn_ok g'"
  shows "be_inv g'"
  using assms(1,3) learn_frame_eq [OF assms(2)] by (simp add: be_inv_def line_ok_def)

section \<open>The newest usable prediction\<close>

definition newest :: "('a \<Rightarrow> bool) \<Rightarrow> 'a list \<Rightarrow> nat \<Rightarrow> bool" where
  "newest P q j = (j < length q \<and> P (q ! j) \<and> (\<forall>k. j < k \<and> k < length q \<longrightarrow> \<not> P (q ! k)))"

lemma first_index_rev:
  assumes "newest P q j"
  shows "first_index P (rev q) = Some (length q - 1 - j)" "List.find P (rev q) = Some (q ! j)" "list_ex P (rev q)"
proof -
  let ?i = "length q - 1 - j"
  have j: "j < length q" "P (q ! j)" "\<And>k. j < k \<Longrightarrow> k < length q \<Longrightarrow> \<not> P (q ! k)" using assms by (auto simp: newest_def)
  have i: "?i < length (rev q)" "rev q ! ?i = q ! j" using j(1) by (simp_all add: rev_nth)
  moreover have "\<not> P (rev q ! k)" if "k < ?i" for k using that j(3) [of "length q - Suc k"] by (simp add: rev_nth)
  ultimately show "first_index P (rev q) = Some ?i" "List.find P (rev q) = Some (q ! j)" "list_ex P (rev q)"
    using j(2) by (auto simp: first_index_Some find_Some_iff list_ex_length intro: exI [of _ ?i])
qed

lemma first_index_rev_none:
  assumes "list_all (\<lambda>e. \<not> P e) q"
  shows "first_index P (rev q) = None" "List.find P (rev q) = None" "\<not> list_ex P (rev q)"
  using assms by (auto simp: first_index_None find_None_iff list_ex_iff list_all_iff rev_nth)

section \<open>The handler of a predicted line\<close>

definition finish_spec :: "Addr_t \<Rightarrow> CompletedWriteEntry list \<Rightarrow> nat option \<Rightarrow> Globals \<Rightarrow> Globals" where
  "finish_spec paddr q idx g = (case idx of None \<Rightarrow> g
     | Some j \<Rightarrow> g\<lparr>g_completedWrites := um_put paddr (q[j := (q ! j)\<lparr>cw_used := True\<rparr>]) (g_completedWrites g)\<rparr>)"

lemma conf_of_tracker: "conf_of (g\<lparr>g_constPredTracker := m\<rparr>) = conf_of g"
  by (simp add: conf_of_def fun_eq_iff)

lemma handle_predicted_run:
  assumes inv: "be_inv g" and q: "um_find (g_completedWrites g) paddr = Some q" and p: "line_write pkt paddr ds"
  shows "\<exists>g1 be2. handle_predicted now junk pkt paddr q (g, be) =
      finish_match paddr q (first_index (usable paddr ds) (rev q)) (g1, be2) \<and> learn_ok g1 \<and> learn_frame g1 = learn_frame g \<and>
      settled (List.find (usable paddr ds) (rev q)) g g1 \<and>
      outcome be2 = one_more (list_ex (usable paddr ds) (rev q)) (outcome be)"
proof -
  have ln: "line_ok g paddr q" using inv q by (simp add: be_inv_def)
  then have ok: "list_all entry_ok q" "q \<noteq> []" by (simp_all add: line_ok_def)
  then obtain e q' where eq: "q = e # q'" "entry_ok e" by (cases q) auto
  have rok: "list_all entry_ok (rev q)" using ok(1) by (simp add: list_all_iff)
  obtain nf where nf: "nonfree_loop pkt (rev q) = Inr nf" using nonfree_loop_ok [OF rok p] by blast
  let ?be = "if nf then be\<lparr>be_correctlyPredNonFreeWr := be_correctlyPredNonFreeWr be + 1\<rparr> else be"
  let ?s = "\<lparr>ms_g = g, ms_be = ?be, ms_maxDataMatchCount = 0, ms_maxDataMatchHash = junk\<rparr>"
  have "learn_ok (ms_g ?s)" using inv by (simp add: be_inv_def)
  from match_loop_ok [OF rok p this, of now 0] obtain r where
    r: "match_loop now pkt (rev q) 0 ?s = Inr (first_index (usable paddr ds) (rev q), r)" "learn_ok (ms_g r)"
      "learn_frame (ms_g r) = learn_frame g" "outcome (ms_be r) = one_more (list_ex (usable paddr ds) (rev q)) (outcome ?be)"
      "settled (List.find (usable paddr ds) (rev q)) g (ms_g r)"
    by (auto simp: option.map_ident)
  have "um_find (g_completedWrites (ms_g r)) paddr = Some q" using learn_frame_eq(1) [OF r(3)] q by simp
  from updateConstChunks_ok [OF this ok(1) p r(2), of "ms_maxDataMatchHash r"] obtain m where
    m: "updateConstChunks (ms_maxDataMatchHash r) paddr pkt (ms_g r) = Inr ((ms_g r)\<lparr>g_constPredTracker := m\<rparr>)"
      "learn_ok ((ms_g r)\<lparr>g_constPredTracker := m\<rparr>)" by blast
  let ?g1 = "(ms_g r)\<lparr>g_constPredTracker := m\<rparr>"
  let ?be2 = "(ms_be r)\<lparr>be_addrMatchDist := be_addrMatchDist (ms_be r) @ [(now - cw_timeOfAddrGen e) div 1000]\<rparr>"
  have "handle_predicted now junk pkt paddr q (g, be) = finish_match paddr q (first_index (usable paddr ds) (rev q)) (?g1, ?be2)"
  proof -
    obtain hs where hs: "(if ms_maxDataMatchHash r \<noteq> 0 then map_res cw_get_generator_hash q else Inr []) = Inr hs"
      using hashes_ok [OF ok(1)] by (cases "ms_maxDataMatchHash r = 0") auto
    have c: "sample_addr_match now q (ms_be r) = Inr ?be2"
      using eq entry_ok_reads(3) [OF eq(2)] by (simp add: sample_addr_match_def)
    show ?thesis
      by (simp only: handle_predicted_def fst_conv snd_conv Let_def nf r(1) bindE_simps prod.case hs m(1) c)
  qed
  moreover have "outcome ?be2 = one_more (list_ex (usable paddr ds) (rev q)) (outcome be)"
  proof -
    have "outcome ?be2 = outcome (ms_be r)" "outcome ?be = outcome be" by (simp_all add: outcome_def)
    then show ?thesis using r(4) by simp
  qed
  moreover have "settled x g ((ms_g r)\<lparr>g_constPredTracker := m\<rparr>)" if "settled x g (ms_g r)" for x
    using that conf_of_tracker by (auto simp: settled_def uncredited_def credited_def split: option.splits)
  ultimately show ?thesis
    using r(3,5) m(2) by (intro exI [of _ ?g1] exI [of _ ?be2]) simp
qed

lemma used_entry_ok: "entry_ok e \<Longrightarrow> entry_ok (e\<lparr>cw_used := True\<rparr>)"
  by (simp add: entry_ok_def cw_defs)

lemma finish_hit:
  assumes inv: "be_inv g" and q: "um_find (g_completedWrites g) paddr = Some q" and n: "newest (usable paddr ds) q j"
    and g1: "learn_ok g1" "learn_frame g1 = learn_frame g"
  shows "finish_match paddr q (Some (length q - 1 - j)) (g1, be) =
      Inr (g1\<lparr>g_completedWrites := um_put paddr (q[j := (q ! j)\<lparr>cw_used := True\<rparr>]) (g_completedWrites g)\<rparr>, be)"
    "be_inv (g1\<lparr>g_completedWrites := um_put paddr (q[j := (q ! j)\<lparr>cw_used := True\<rparr>]) (g_completedWrites g)\<rparr>)"
proof -
  have j: "j < length q" "\<not> cw_used (q ! j)" using n by (auto simp: newest_def usable_def)
  have "length q - 1 - (length q - 1 - j) = j" using j(1) by simp
  then show "finish_match paddr q (Some (length q - 1 - j)) (g1, be) =
      Inr (g1\<lparr>g_completedWrites := um_put paddr (q[j := (q ! j)\<lparr>cw_used := True\<rparr>]) (g_completedWrites g)\<rparr>, be)"
    using j learn_frame_eq(1) [OF g1(2)] by (simp add: finish_match_def arr_get_def cw_use_def)
  let ?q = "q[j := (q ! j)\<lparr>cw_used := True\<rparr>]"
  have ln: "line_ok g paddr q" using inv q by (simp add: be_inv_def)
  then have e: "entry_ok (q ! j)" "cw_addr (q ! j) = paddr" using j(1) by (auto simp: line_ok_def list_all_length)
  have "line_ok g paddr ?q"
    using ln used_entry_ok [OF e(1)] e(2) j(1) by (auto simp: line_ok_def list_all_length nth_list_update)
  then have "line_ok g1 a x" if "um_find (um_put paddr ?q (g_completedWrites g)) a = Some x" for a x
    using that inv learn_frame_eq(4) [OF g1(2)] by (auto simp: be_inv_def line_ok_def um_find_put split: if_splits)
  moreover have "um_wf (um_put paddr ?q (g_completedWrites g))" using inv by (simp add: be_inv_def um_wf_intros)
  ultimately show "be_inv (g1\<lparr>g_completedWrites := um_put paddr ?q (g_completedWrites g)\<rparr>)"
    using be_inv_writes [OF g1(1)] by blast
qed

section \<open>Writes without a usable prediction\<close>

lemma restart_entry_ok: "entry_ok e \<Longrightarrow> entry_ok (restart_entry now e)" "cw_addr (restart_entry now e) = cw_addr e"
  by (auto simp: restart_entry_def entry_ok_def cw_defs is_flag_set_set)

lemma restart_find: "um_find (map (\<lambda>(a, q). (a, map (restart_entry now) q)) m) a = map_option (map (restart_entry now)) (um_find m a)"
  by (induction m) (auto simp: um_find_def)

lemma restart_wf: "um_wf (map (\<lambda>(a, q). (a, map (restart_entry now) q)) m) = um_wf m"
proof -
  have "map fst (map (\<lambda>(a, q). (a, map (restart_entry now) q)) m) = map fst m" by (induction m) auto
  then show ?thesis unfolding um_wf_def by (simp only:)
qed

lemma invalidate_ok:
  assumes inv: "be_inv g" and run: "invalidateAllAddr env now (g, be) = (g', be')"
  shows "be_inv g'" "outcome be' = outcome be" "uncredited g g'"
    "um_find (g_completedWrites g') a = (if get_env_val env ''DISABLE_INVALIDATION'' then um_find (g_completedWrites g) a
       else map_option (map (restart_entry now)) (um_find (g_completedWrites g) a))"
proof -
  show "outcome be' = outcome be" "uncredited g g'"
    using run by (auto simp: invalidateAllAddr_def outcome_def uncredited_def conf_of_def fun_eq_iff split: if_splits)
  show find: "um_find (g_completedWrites g') a = (if get_env_val env ''DISABLE_INVALIDATION'' then um_find (g_completedWrites g) a
       else map_option (map (restart_entry now)) (um_find (g_completedWrites g) a))" for a
    using run by (auto simp: invalidateAllAddr_def restart_find split: if_splits)
  have "line_ok g a (map (restart_entry now) q)" if "line_ok g a q" for a q
    using that restart_entry_ok by (auto simp: line_ok_def list_all_iff)
  then have ln: "line_ok g a q" if "um_find (map (\<lambda>(a, q). (a, map (restart_entry now) q)) (g_completedWrites g)) a = Some q" for a q
    using that inv by (auto simp: restart_find be_inv_def)
  have wf: "learn_ok g" "um_wf (map (\<lambda>(a, q). (a, map (restart_entry now) q)) (g_completedWrites g))"
    using inv by (simp_all add: be_inv_def restart_wf)
  show "be_inv g'" using be_inv_writes [OF wf ln] inv run by (auto simp: invalidateAllAddr_def split: if_splits)
qed

section \<open>Accounting\<close>

lemma match_correct_outcome: "match_correct now h e s = Inr s' \<Longrightarrow> outcome (ms_be s') = one_more True (outcome (ms_be s))"
  by (auto simp: match_correct_def update_stats_for_const_pred_def bindE_eq_Inr Let_def outcome_def split: if_splits)

lemma match_incorrect_outcome: "match_incorrect pkt h e s = Inr s' \<Longrightarrow> outcome (ms_be s') = outcome (ms_be s)"
  by (auto simp: match_incorrect_def bindE_eq_Inr Let_def outcome_def)

lemma outcome_samples [simp]: "outcome (be\<lparr>be_addrPmWriteMatchDistance := x\<rparr>) = outcome be"
  "outcome (be\<lparr>be_avgDataMatchForAddrMatch := y\<rparr>) = outcome be"
  by (simp_all add: outcome_def)

lemma match_step_outcome:
  assumes "match_step now pkt e s = Inr (b, s')"
  shows "outcome (ms_be s') = one_more b (outcome (ms_be s))"
proof -
  from assms [unfolded match_step_def Let_def] obtain h s2 aeq where
    s2: "(if cw_is_used e then Inr (s\<lparr>ms_g := initConf h (ms_g s)\<rparr>)
            else bindE (cw_get_least_time_of_gen e) (\<lambda>t.
                 Inr ((s\<lparr>ms_g := initConf h (ms_g s)\<rparr>)\<lparr>ms_be := (ms_be (s\<lparr>ms_g := initConf h (ms_g s)\<rparr>))\<lparr>be_addrPmWriteMatchDistance :=
                        be_addrPmWriteMatchDistance (ms_be (s\<lparr>ms_g := initConf h (ms_g s)\<rparr>)) @ [(now - t) div 1000]\<rparr>\<rparr>))) = Inr s2"
    and rest: "(if aeq \<and> \<not> cw_is_used e
     then bindE (getMatchingChunkCount pkt e) (\<lambda>n.
          bindE (isPktEqualCompletedEntry pkt e) (\<lambda>eq.
          if eq then bindE (match_correct now h e (s2\<lparr>ms_be := (ms_be s2)\<lparr>be_avgDataMatchForAddrMatch := be_avgDataMatchForAddrMatch (ms_be s2) + n\<rparr>\<rparr>)) (\<lambda>s4. Inr (True, s4))
          else bindE (match_incorrect pkt h e (s2\<lparr>ms_be := (ms_be s2)\<lparr>be_avgDataMatchForAddrMatch := be_avgDataMatchForAddrMatch (ms_be s2) + n\<rparr>\<rparr>)) (\<lambda>s4. Inr (False, s4))))
     else Inr (False, s2)) = Inr (b, s')" by (elim bindE_Inr_E)
  have o2: "outcome (ms_be s2) = outcome (ms_be s)" using s2 by (auto simp: bindE_eq_Inr split: if_splits)
  show ?thesis
  proof (cases "aeq \<and> \<not> cw_is_used e")
    case False
    then show ?thesis using rest o2 by auto
  next
    case True
    then obtain n eq where "(if eq then bindE (match_correct now h e (s2\<lparr>ms_be := (ms_be s2)\<lparr>be_avgDataMatchForAddrMatch := n\<rparr>\<rparr>)) (\<lambda>s4. Inr (True, s4))
        else bindE (match_incorrect pkt h e (s2\<lparr>ms_be := (ms_be s2)\<lparr>be_avgDataMatchForAddrMatch := n\<rparr>\<rparr>)) (\<lambda>s4. Inr (False, s4))) = Inr (b, s')"
      using rest unfolding if_P [OF True] by (elim bindE_Inr_E)
    then show ?thesis using o2 match_correct_outcome [of now h e _ s'] match_incorrect_outcome [of pkt h e _ s']
      by (cases eq) (auto simp: bindE_eq_Inr)
  qed
qed

lemma match_loop_outcome:
  "match_loop now pkt es i s = Inr (idx, s') \<Longrightarrow> outcome (ms_be s') = one_more (idx \<noteq> None) (outcome (ms_be s))"
proof (induction es arbitrary: i s)
  case (Cons e es)
  then obtain b s1 where b: "match_step now pkt e s = Inr (b, s1)"
    "(if b then Inr (Some i, s1) else match_loop now pkt es (i + 1) s1) = Inr (idx, s')"
    by (auto simp: bindE_eq_Inr)
  then show ?case using Cons.IH [of "i + 1" s1] match_step_outcome [OF b(1)] by (cases b) auto
qed simp

definition accounted :: "Backend \<Rightarrow> bool" where
  "accounted be = (be_totalPWrites be =
     be_nonPredictedPWrites be + be_correctlyPredictedPWrites be + be_dataMissPredictedPWrites be)"

lemma handle_predicted_outcome:
  assumes "handle_predicted now junk pkt paddr q (g, be) = Inr (g', be')" and "outcome be = (t, n, c, d)"
  shows "outcome be' = (t, n, c + 1, d) \<or> outcome be' = (t, n, c, d + 1)"
proof -
  let ?s = "\<lambda>nf. \<lparr>ms_g = g, ms_be = (if nf then be\<lparr>be_correctlyPredNonFreeWr := be_correctlyPredNonFreeWr be + 1\<rparr> else be),
      ms_maxDataMatchCount = 0, ms_maxDataMatchHash = junk\<rparr>"
  from assms(1) [unfolded handle_predicted_def fst_conv snd_conv Let_def] obtain nf p where
    p: "match_loop now pkt (rev q) 0 (?s nf) = Inr p"
    and s: "(\<lambda>(idx, r). bindE (if ms_maxDataMatchHash r \<noteq> 0 then map_res cw_get_generator_hash q else Inr []) (\<lambda>_.
         bindE (updateConstChunks (ms_maxDataMatchHash r) paddr pkt (ms_g r)) (\<lambda>g.
         bindE (sample_addr_match now q (ms_be r)) (\<lambda>be2. finish_match paddr q idx (g, be2))))) p = Inr (g', be')"
    by (elim bindE_Inr_E)
  obtain idx r where pe: "p = (idx, r)" by (cases p)
  from s obtain g2 be2 where c: "sample_addr_match now q (ms_be r) = Inr be2" and fin: "finish_match paddr q idx (g2, be2) = Inr (g', be')"
    unfolding pe prod.case by (elim bindE_Inr_E)
  have be2: "outcome be2 = outcome (ms_be r)" using c by (auto simp: sample_addr_match_def outcome_def bindE_eq_Inr split: list.splits)
  have "outcome (if nf then be\<lparr>be_correctlyPredNonFreeWr := be_correctlyPredNonFreeWr be + 1\<rparr> else be) = outcome be"
    by (simp add: outcome_def)
  with match_loop_outcome [OF p [unfolded pe]] be2 assms(2) have "outcome be2 = one_more (idx \<noteq> None) (t, n, c, d)" by simp
  then show ?thesis using fin by (cases idx) (auto simp: finish_match_def bindE_eq_Inr outcome_def)
qed

lemma handle_accounted:
  assumes run: "handleNonVolatileWrite env now junk pkt (g, be) = Inr (g', be')" and acc: "accounted be"
  shows "accounted be' \<and> be_totalPWrites be' = be_totalPWrites be + 1"
proof -
  from run obtain valid paddr where
    r: "(case um_find (g_completedWrites g) paddr of
       None \<Rightarrow> Inr (invalidateAllAddr env now (g, (count_write valid paddr g be)\<lparr>be_nonPredictedPWrites :=
            be_nonPredictedPWrites (count_write valid paddr g be) + 1\<rparr>))
     | Some q \<Rightarrow> handle_predicted now junk pkt paddr q (g, count_write valid paddr g be)) = Inr (g', be')"
    by (auto simp: handleNonVolatileWrite_def bindE_eq_Inr Let_def cong: option.case_cong)
  obtain t n c d where o: "outcome be = (t, n, c, d)" by (cases "outcome be") auto
  then have o1: "outcome (count_write valid paddr g be) = (t + 1, n, c, d)"
    by (auto simp: outcome_def count_write_def Let_def split: option.splits)
  show ?thesis
  proof (cases "um_find (g_completedWrites g) paddr")
    case None
    then have "outcome be' = (t + 1, n + 1, c, d)"
      using r o1 by (auto simp: invalidateAllAddr_def outcome_def split: if_splits)
    then show ?thesis using acc o by (simp add: accounted_def outcome_def)
  next
    case (Some q)
    then have "handle_predicted now junk pkt paddr q (g, count_write valid paddr g be) = Inr (g', be')" using r by simp
    from handle_predicted_outcome [OF this o1] show ?thesis using acc o by (auto simp: accounted_def outcome_def)
  qed
qed

lemma dump_accounted: "dumpTrace now pkt be = Inr be' \<Longrightarrow> accounted be \<Longrightarrow> accounted be'"
  by (auto simp: dumpTrace_def accounted_def Let_def split: if_splits elim!: bindE_Inr_E)

lemma writeback_accounted: "accounted be \<Longrightarrow> accounted (update_writeback now addr b be)"
  by (auto simp: update_writeback_def accounted_def split: option.splits)

lemma request_accounted:
  assumes "predictorHandleRequest env now junk pkt (g, be) = Inr (g', be')" and acc: "accounted be"
  shows "accounted be'"
proof (cases "\<not> g_predictorEnabled g \<or> \<not> g_usePredictor g")
  case True
  then show ?thesis using assms by (simp add: predictorHandleRequest_def)
next
  case False
  from assms(1) [unfolded predictorHandleRequest_def fst_conv snd_conv if_not_P [OF False]] obtain be1 isClwb addr p where
    d: "dumpTrace now pkt be = Inr be1"
    and h: "(if is_paddr_pm addr \<and> isWrite pkt \<and> \<not> isClwb then handleNonVolatileWrite env now junk pkt (g, be1) else Inr (g, be1)) = Inr p"
    and w: "(\<lambda>(g, be'). Inr (g, update_writeback now addr isClwb be')) p = (Inr (g', be') :: (Globals \<times> Backend) res)"
    by (elim bindE_Inr_E)
  obtain g1 be2 where p: "p = (g1, be2)" by (cases p)
  have "accounted be2"
    using h dump_accounted [OF d acc] handle_accounted [of env now junk pkt g be1 g1 be2] unfolding p
    by (cases "is_paddr_pm addr \<and> isWrite pkt \<and> \<not> isClwb") auto
  then show ?thesis using w writeback_accounted by (auto simp: p)
qed

section \<open>Properties of a persistent write\<close>

lemma handle_found:
  assumes "line_write pkt paddr ds" and "um_find (g_completedWrites g) paddr = Some q" and "outcome be = (t, n, c, d)"
  shows "\<exists>be1. outcome be1 = (t + 1, n, c, d) \<and>
    handleNonVolatileWrite env now junk pkt (g, be) = handle_predicted now junk pkt paddr q (g, be1)"
proof -
  from line_write_line [OF assms(1)] obtain cl v where "mk_CacheLine_pkt now pkt False = Inr cl" "valid_chunk_count cl = Inr v" by blast
  then have "handleNonVolatileWrite env now junk pkt (g, be) = handle_predicted now junk pkt paddr q (g, count_write v paddr g be)"
    using assms(2) line_write_reads(1) [OF assms(1)] by (simp add: handleNonVolatileWrite_def)
  moreover have "outcome (count_write v paddr g be) = (t + 1, n, c, d)"
    using assms(3) by (auto simp: outcome_def count_write_def Let_def split: option.splits)
  ultimately show ?thesis by blast
qed

lemma write_hits_newest_run:
  assumes inv: "be_inv g" and p: "line_write pkt paddr ds" and q: "um_find (g_completedWrites g) paddr = Some q"
    and n: "newest (usable paddr ds) q j" and o: "outcome be = (t, n, c, d)"
  shows "\<exists>g' be'. handleNonVolatileWrite env now junk pkt (g, be) = Inr (g', be') \<and> be_inv g' \<and>
    g_completedWrites g' = um_put paddr (q[j := (q ! j)\<lparr>cw_used := True\<rparr>]) (g_completedWrites g) \<and>
    credited (cw_generatorHash (q ! j)) (is_free (q ! j)) g g' \<and> outcome be' = (t + 1, n, c + 1, d)"
proof -
  from handle_found [OF p q o] obtain be1 where be1: "outcome be1 = (t + 1, n, c, d)"
    "handleNonVolatileWrite env now junk pkt (g, be) = handle_predicted now junk pkt paddr q (g, be1)" by blast
  from handle_predicted_run [OF inv q p, of now junk be1] first_index_rev [OF n] obtain g1 be2 where
    r: "handle_predicted now junk pkt paddr q (g, be1) = finish_match paddr q (Some (length q - 1 - j)) (g1, be2)"
      "learn_ok g1" "learn_frame g1 = learn_frame g" "settled (Some (q ! j)) g g1" "outcome be2 = one_more True (outcome be1)" by auto
  note fin = finish_hit(1) [OF inv q n r(2,3), of be2] finish_hit(2) [OF inv q n r(2,3)]
  have "credited h f g (g1\<lparr>g_completedWrites := m\<rparr>) = credited h f g g1" for h f m
    by (simp add: credited_def conf_of_def fun_eq_iff)
  then show ?thesis using be1 r(1,4,5) fin by (simp add: settled_def)
qed

text \<open>C6: A persistent write of a whole line for which a usable prediction is buffered is handled without
  error.  It consumes the newest prediction that agrees with it and has not been used: exactly that one
  is marked as used.  The confidence of the predicting hash rises by one up to four, the front ends get
  one correct address and one correct data prediction for it (none for a free prediction), the write is
  counted as correctly predicted, and the invariant of the backend is kept.\<close>

theorem write_hits_newest:
  assumes inv: "be_inv g" and p: "line_write pkt paddr ds" and q: "um_find (g_completedWrites g) paddr = Some q"
    and n: "newest (usable paddr ds) q j" and o: "outcome be = (t, n, c, d)"
  shows "\<exists>g' be'. handleNonVolatileWrite env now junk pkt (g, be) = Inr (g', be') \<and> be_inv g' \<and>
    g_completedWrites g' = um_put paddr (q[j := (q ! j)\<lparr>cw_used := True\<rparr>]) (g_completedWrites g) \<and>
    credited (cw_generatorHash (q ! j)) (is_free (q ! j)) g g' \<and> outcome be' = (t + 1, n, c + 1, d)"
  using write_hits_newest_run [OF assms] .


text \<open>C20: The statistics account for every persistent write: after any sequence of requests that the
  backend handles, the total number of persistent writes is the sum of those that were not predicted,
  those predicted correctly and those whose data were missed.\<close>

theorem writes_accounted:
  assumes "fold_res (\<lambda>(now, junk, pkt). predictorHandleRequest env now junk pkt) reqs (g, Backend_init dump) = Inr (g', be)"
  shows "be_totalPWrites be = be_nonPredictedPWrites be + be_correctlyPredictedPWrites be + be_dataMissPredictedPWrites be"
proof -
  have "accounted (snd s')" if "fold_res (\<lambda>(now, junk, pkt). predictorHandleRequest env now junk pkt) reqs s = Inr s'" "accounted (snd s)" for s s'
    using that
  proof (induction reqs arbitrary: s)
    case (Cons r reqs)
    obtain now junk pkt where r: "r = (now, junk, pkt)" by (cases r) auto
    from Cons.prems(1) obtain s1 where s1: "predictorHandleRequest env now junk pkt s = Inr s1"
      "fold_res (\<lambda>(now, junk, pkt). predictorHandleRequest env now junk pkt) reqs s1 = Inr s'"
      by (auto simp: r bindE_eq_Inr)
    have "accounted (snd s1)" using request_accounted [of env now junk pkt "fst s" "snd s" "fst s1" "snd s1"] s1(1) Cons.prems(2) by simp
    then show ?case using Cons.IH [OF s1(2)] by simp
  qed simp
  from this [OF assms] show ?thesis by (simp add: accounted_def Backend_init_def)
qed

section \<open>Inserting a prediction\<close>

lemma translate_entry_ok:
  assumes "entry_ok e" and "cfg_ok cfg"
  shows "\<exists>e'. translate_entry cfg paddr e g = Inr e' \<and> entry_ok e' \<and> cw_addr e' = paddr \<and>
    cw_cacheline e' = cw_cacheline e \<and> cw_generatorHash e' = cw_generatorHash e \<and> cw_used e' = cw_used e"
proof -
  obtain b where "isCounterCacheHit cfg paddr (g_meta g) = Inr b"
    using getIndex_ok [OF assms(2), of paddr] by (auto simp: isCounterCacheHit_def)
  moreover have "entry_ok (cw_set_verification_cache_hit v (cw_set_counter_cache_hit b (cw_set_addr paddr e)))" for v b
    using assms(1) by (simp add: entry_ok_def cw_defs cw_set_verification_cache_hit_def cw_set_counter_cache_hit_def is_flag_set_set
        is_flag_set_unset_disjoint)
  ultimately show ?thesis
    by (simp add: translate_entry_def cw_set_verification_cache_hit_def cw_set_counter_cache_hit_def cw_set_addr_def)
qed

lemma oldest_fold:
  assumes "list_all entry_ok q"
  shows "\<exists>r'. fold_res (oldest_step now a) q r = Inr r' \<and> (r' = r \<or> r' = a \<and> (\<exists>e\<in>set q. 25000000 < now - cw_timeOfCreation e))"
  using assms
proof (induction q arbitrary: r)
  case (Cons e q)
  let ?go = "if is_free_prediction (cl_dataChunks (cw_cacheline e) ! 0) then 25000000 < now - cw_timeOfCreation e
      else 30000000 < now - cw_timeOfCreation e"
  have step: "oldest_step now a e r = Inr (if ?go then a else r)" using Cons.prems by (simp add: oldest_step_def entry_ok_reads)
  have old: "?go \<Longrightarrow> 25000000 < now - cw_timeOfCreation e"
    using order_less_trans [of "25000000 :: 64 word" 30000000 "now - cw_timeOfCreation e"] by (auto split: if_splits)
  show ?case using step old Cons.IH [of "if ?go then a else r"] Cons.prems by (auto split: if_splits)
qed simp

lemma oldest_addr_ok:
  assumes "\<forall>x\<in>set m. list_all entry_ok (snd x)"
  shows "\<exists>r. oldest_addr now m = Inr r \<and> (r = 0 \<or> (\<exists>q. (r, q) \<in> set m \<and> (\<exists>e\<in>set q. 25000000 < now - cw_timeOfCreation e)))"
proof -
  have "\<exists>r'. fold_res (\<lambda>x. fold_res (oldest_step now (fst x)) (snd x)) m r = Inr r' \<and>
      (r' = r \<or> (\<exists>q. (r', q) \<in> set m \<and> (\<exists>e\<in>set q. 25000000 < now - cw_timeOfCreation e)))" for r
    using assms
  proof (induction m arbitrary: r)
    case (Cons x m)
    from oldest_fold [of "snd x" now "fst x" r] Cons.prems obtain r1 where r1: "fold_res (oldest_step now (fst x)) (snd x) r = Inr r1"
      "r1 = r \<or> r1 = fst x \<and> (\<exists>e\<in>set (snd x). 25000000 < now - cw_timeOfCreation e)" by auto
    obtain r2 where r2: "fold_res (\<lambda>x. fold_res (oldest_step now (fst x)) (snd x)) m r1 = Inr r2"
      "r2 = r1 \<or> (\<exists>q. (r2, q) \<in> set m \<and> (\<exists>e\<in>set q. 25000000 < now - cw_timeOfCreation e))"
      using Cons.IH [of r1] Cons.prems by auto
    then show ?case using r1 by (cases x) auto
  qed simp
  from this [of 0] show ?thesis by (simp add: oldest_addr_def)
qed

lemma free_entries_ok:
  assumes "\<forall>x\<in>set m. list_all entry_ok (snd x)"
  shows "\<exists>n. free_entries m = Inr n"
proof -
  have line: "\<exists>n. fold_res (\<lambda>e n. bindE (is_free_entry e) (\<lambda>b. Inr (if b then n + 1 else n))) q (k :: nat) = Inr n"
    if "list_all entry_ok q" for q k
    using that by (induction q arbitrary: k) (auto simp: entry_ok_reads)
  have "\<exists>n. fold_res (\<lambda>x. fold_res (\<lambda>e n. bindE (is_free_entry e) (\<lambda>b. Inr (if b then n + 1 else n))) (snd x)) m (k :: nat) = Inr n" for k
    using assms
  proof (induction m arbitrary: k)
    case (Cons x m)
    from line [of "snd x" k] Cons.prems obtain k1 where
      "fold_res (\<lambda>e n. bindE (is_free_entry e) (\<lambda>b. Inr (if b then n + 1 else n))) (snd x) k = Inr k1" by auto
    with Cons.IH [of k1] Cons.prems show ?case by auto
  qed simp
  then show ?thesis by (simp add: free_entries_def)
qed

lemma be_inv_lines: "be_inv g \<Longrightarrow> (a, q) \<in> set (g_completedWrites g) \<Longrightarrow> line_ok g a q"
  by (simp add: be_inv_def um_find_iff)

lemma evict_table_ok:
  assumes inv: "be_inv g"
  shows "\<exists>g'. evict_table now g = Inr g' \<and> be_inv g' \<and>
    (\<exists>m n. g' = g\<lparr>g_completedWrites := m, g_capacityEvictionStatic := n\<rparr>) \<and>
    (g_completedWrites g' = g_completedWrites g \<or>
     g_RESULT_BUFFER_MAX_SIZE g < total_entries (g_completedWrites g) \<and>
     (\<exists>a q e. g_completedWrites g' = um_erase a (g_completedWrites g) \<and> um_find (g_completedWrites g) a = Some q \<and> e \<in> set q \<and>
        25000000 < now - cw_timeOfCreation e))"
proof -
  let ?m = "g_completedWrites g"
  have ok: "\<forall>x\<in>set ?m. list_all entry_ok (snd x)" using be_inv_lines [OF inv] by (auto simp: line_ok_def)
  obtain n where n: "free_entries ?m = Inr n" using free_entries_ok [OF ok] by blast
  obtain r where r: "oldest_addr now ?m = Inr r" "r = 0 \<or> (\<exists>q. (r, q) \<in> set ?m \<and> (\<exists>e\<in>set q. 25000000 < now - cw_timeOfCreation e))"
    using oldest_addr_ok [OF ok] by blast
  show ?thesis
  proof (cases "g_RESULT_BUFFER_MAX_SIZE g < total_entries ?m \<and> r \<noteq> 0")
    case False
    then have "evict_table now g = Inr g" using n r(1) by (auto simp: evict_table_def)
    moreover have "\<exists>m n. g = g\<lparr>g_completedWrites := m, g_capacityEvictionStatic := n\<rparr>"
      by (rule exI [of _ ?m], rule exI [of _ "g_capacityEvictionStatic g"]) (cases g, simp)
    ultimately show ?thesis using inv by simp
  next
    case True
    let ?g = "g\<lparr>g_completedWrites := um_erase r ?m, g_capacityEvictionStatic := g_capacityEvictionStatic g + 1\<rparr>"
    have "evict_table now g = Inr ?g" using True n r(1) by (simp add: evict_table_def)
    moreover have "be_inv ?g"
      using inv by (auto simp: be_inv_def line_ok_def learn_ok_def conf_table_ok_def pc_conf_ok_def tracker_ok_def um_find_erase um_wf_intros)
    moreover obtain q e where "um_find ?m r = Some q" "e \<in> set q" "25000000 < now - cw_timeOfCreation e"
      using r(2) True inv by (auto simp: be_inv_def um_find_iff)
    ultimately show ?thesis using True by (intro exI [of _ ?g]) auto
  qed
qed

definition line_of :: "Globals \<Rightarrow> Addr_t \<Rightarrow> CompletedWriteEntry list" where
  "line_of g a = (case um_find (g_completedWrites g) a of None \<Rightarrow> [] | Some q \<Rightarrow> q)"

lemma evict_line_ok:
  assumes inv: "be_inv g" and e: "entry_ok e" "cw_addr e = a" and cap: "0 < g_MAX_COMPLETED_QUEUE_LINE_SIZE g"
    and g0: "g0 = g\<lparr>g_addrMatches := am, g_pendingPredictionQueue := pq\<rparr>"
  shows "\<exists>n. evict_line a (push_completed a e g0) = Inr (g0\<lparr>g_completedWrites :=
      um_put a (last_n (g_MAX_COMPLETED_QUEUE_LINE_SIZE g) (line_of g a @ [e])) (g_completedWrites g), g_capacityEvictionStatic := n\<rparr>)"
proof -
  let ?q = "line_of g a @ [e]" and ?M = "g_MAX_COMPLETED_QUEUE_LINE_SIZE g"
  have len: "length (line_of g a) \<le> ?M" "list_all entry_ok (line_of g a)"
    using inv cap by (auto simp: line_of_def be_inv_def line_ok_def split: option.splits)
  have push: "push_completed a e g0 = g0\<lparr>g_completedWrites := um_put a ?q (g_completedWrites g)\<rparr>"
    by (simp add: push_completed_def line_of_def g0)
  show ?thesis
  proof (cases "length ?q \<ge> ?M + 1")
    case False
    then have "last_n ?M ?q = ?q" by (simp add: last_n_def)
    then show ?thesis using False push
      by (intro exI [of _ "g_capacityEvictionStatic g"]) (simp add: evict_line_def um_at_def um_find_put g0)
  next
    case True
    then obtain x xs where x: "line_of g a = x # xs" using cap by (cases "line_of g a") auto
    have x_ok: "entry_ok x" using len(2) x by simp
    have put: "um_put a v (um_put a w m) = um_put a v m" for v w and m :: "(Addr_t, CompletedWriteEntry list) umap"
      by (induction m) (auto simp: um_put_def)
    have "last_n ?M ?q = xs @ [e]" using True len(1) x by (simp add: last_n_def)
    then show ?thesis using True push x entry_ok_reads(2) [OF x_ok]
      by (intro exI [of _ "g_capacityEvictionStatic g + 1"])
         (simp add: evict_line_def um_at_def um_find_put g0 broadcastPrediction_def put)
  qed
qed

lemma addCompletedWrite_ok:
  assumes inv: "be_inv g" and e: "entry_ok e" and cfg: "cfg_ok cfg" and use: "g_usePredictor g"
    and tr: "translate pt (cw_addr e) = Some paddr" and cap: "0 < g_MAX_COMPLETED_QUEUE_LINE_SIZE g"
  shows "\<exists>g' e' m. addCompletedWrite now cfg pt e g = Inr g' \<and>
    (\<exists>am pq cw n. g' = g\<lparr>g_addrMatches := am, g_pendingPredictionQueue := pq, g_completedWrites := cw, g_capacityEvictionStatic := n\<rparr>) \<and>
    be_inv g' \<and> entry_ok e' \<and> cw_addr e' = paddr \<and>
    cw_cacheline e' = cw_cacheline e \<and> cw_generatorHash e' = cw_generatorHash e \<and> cw_used e' = cw_used e \<and>
    g_pendingPredictionQueue g' = g_pendingPredictionQueue g @ [e'] \<and>
    m = um_put paddr (last_n (g_MAX_COMPLETED_QUEUE_LINE_SIZE g) (line_of g paddr @ [e'])) (g_completedWrites g) \<and>
    (g_completedWrites g' = m \<or>
     g_RESULT_BUFFER_MAX_SIZE g < total_entries m \<and>
     (\<exists>a q x. g_completedWrites g' = um_erase a m \<and> um_find m a = Some q \<and> x \<in> set q \<and> 25000000 < now - cw_timeOfCreation x))"
proof -
  let ?g1 = "incr_addrMatches paddr g" and ?M = "g_MAX_COMPLETED_QUEUE_LINE_SIZE g"
  from translate_entry_ok [OF e cfg, of paddr ?g1] obtain e' where e': "translate_entry cfg paddr e ?g1 = Inr e'" "entry_ok e'"
    "cw_addr e' = paddr" "cw_cacheline e' = cw_cacheline e" "cw_generatorHash e' = cw_generatorHash e" "cw_used e' = cw_used e" by blast
  let ?m = "um_put paddr (last_n ?M (line_of g paddr @ [e'])) (g_completedWrites g)"
  let ?g0 = "?g1\<lparr>g_pendingPredictionQueue := g_pendingPredictionQueue ?g1 @ [e']\<rparr>"
  have "?g0 = g\<lparr>g_addrMatches := g_addrMatches ?g1, g_pendingPredictionQueue := g_pendingPredictionQueue g @ [e']\<rparr>"
    by (simp add: incr_addrMatches_def)
  from evict_line_ok [OF inv e'(2,3) cap this] obtain n where
    ev: "evict_line paddr (push_completed paddr e' ?g0) = Inr (?g0\<lparr>g_completedWrites := ?m, g_capacityEvictionStatic := n\<rparr>)" by blast
  let ?g2 = "?g0\<lparr>g_completedWrites := ?m, g_capacityEvictionStatic := n\<rparr>"
  have old: "length (line_of g paddr) \<le> ?M" "list_all entry_ok (line_of g paddr)" "list_all (\<lambda>x. cw_addr x = paddr) (line_of g paddr)"
    using inv cap by (auto simp: line_of_def be_inv_def line_ok_def split: option.splits)
  have new: "line_ok g paddr (last_n ?M (line_of g paddr @ [e']))"
    using old cap e'(2,3) by (auto simp: line_ok_def last_n_def list_all_iff dest!: in_set_dropD)
  have fr: "line_ok ?g0 = line_ok g" by (simp add: line_ok_def fun_eq_iff incr_addrMatches_def)
  have "learn_ok ?g0" "um_wf ?m" using inv
    by (auto simp: be_inv_def um_wf_intros incr_addrMatches_def learn_ok_def conf_table_ok_def pc_conf_ok_def tracker_ok_def)
  moreover have "line_ok ?g0 a q" if "um_find ?m a = Some q" for a q
    using that inv new unfolding fr by (auto simp: be_inv_def um_find_put split: if_splits)
  ultimately have "be_inv (?g0\<lparr>g_completedWrites := ?m\<rparr>)" by (rule be_inv_writes)
  then have inv2: "be_inv ?g2" by (simp add: be_inv_def line_ok_def learn_ok_def conf_table_ok_def pc_conf_ok_def tracker_ok_def)
  have "\<forall>x\<in>set ?m. snd x \<noteq> []" using be_inv_lines [OF inv2] by (auto simp: line_ok_def)
  then have rem: "remove_empty ?g2 = Inr ?g2" by (auto simp: remove_empty_def list_ex_iff)
  have at: "um_at (g_completedWrites ?g2) paddr = Inr (last_n ?M (line_of g paddr @ [e']))" by (simp add: um_at_def um_find_put)
  from evict_table_ok [OF inv2, of now] obtain g' where g': "evict_table now ?g2 = Inr g'" "be_inv g'"
    "\<exists>m n. g' = ?g2\<lparr>g_completedWrites := m, g_capacityEvictionStatic := n\<rparr>"
    "g_completedWrites g' = ?m \<or> g_RESULT_BUFFER_MAX_SIZE g < total_entries ?m \<and>
     (\<exists>a q x. g_completedWrites g' = um_erase a ?m \<and> um_find ?m a = Some q \<and> x \<in> set q \<and> 25000000 < now - cw_timeOfCreation x)"
    by (auto simp: incr_addrMatches_def)
  have "addCompletedWrite now cfg pt e g = Inr g'"
    using use tr e'(1) ev rem at g'(1) entry_ok_reads(1) [OF e] by (simp add: addCompletedWrite_def Let_def incr_addrMatches_def)
  moreover obtain cw k where f: "g' = ?g2\<lparr>g_completedWrites := cw, g_capacityEvictionStatic := k\<rparr>" using g'(3) by blast
  then have "g' = g\<lparr>g_addrMatches := g_addrMatches ?g1, g_pendingPredictionQueue := g_pendingPredictionQueue g @ [e'],
      g_completedWrites := cw, g_capacityEvictionStatic := k\<rparr>" by (simp add: incr_addrMatches_def)
  moreover have "g_pendingPredictionQueue g' = g_pendingPredictionQueue g @ [e']" using f by (simp add: incr_addrMatches_def)
  ultimately show ?thesis using e' g'(2,4) by blast
qed

text \<open>C7: Inserting a well-formed prediction whose address is mapped never fails and keeps the invariant:
  no line is empty and no line exceeds its capacity.  The prediction is queued for the memory controller
  and appended, with its physical address, to its line, from which the oldest one goes if the line is
  full.  No other line changes, except that one line with a prediction older than 25 million ticks may be
  dropped as a whole, and only when the buffer holds more predictions than its maximum.\<close>

theorem prediction_added:
  assumes inv: "be_inv g" and e: "entry_ok e" and cfg: "cfg_ok cfg" and use: "g_usePredictor g"
    and tr: "translate pt (cw_addr e) = Some paddr" and cap: "0 < g_MAX_COMPLETED_QUEUE_LINE_SIZE g"
  shows "\<exists>g' e' m. addCompletedWrite now cfg pt e g = Inr g' \<and> be_inv g' \<and> entry_ok e' \<and> cw_addr e' = paddr \<and>
    cw_cacheline e' = cw_cacheline e \<and> cw_generatorHash e' = cw_generatorHash e \<and> cw_used e' = cw_used e \<and>
    g_pendingPredictionQueue g' = g_pendingPredictionQueue g @ [e'] \<and>
    m = um_put paddr (last_n (g_MAX_COMPLETED_QUEUE_LINE_SIZE g) (line_of g paddr @ [e'])) (g_completedWrites g) \<and>
    (g_completedWrites g' = m \<or>
     g_RESULT_BUFFER_MAX_SIZE g < total_entries m \<and>
     (\<exists>a q x. g_completedWrites g' = um_erase a m \<and> um_find m a = Some q \<and> x \<in> set q \<and> 25000000 < now - cw_timeOfCreation x))"
  using addCompletedWrite_ok [OF assms, of now] by blast

section \<open>Examples\<close>

definition example_prediction :: "Addr_t \<Rightarrow> CompletedWriteEntry" where
  "example_prediction a =
     (let c = ChunkInfo_default\<lparr>ci_chunkType := CT_DATA, ci_flags := 0x82, ci_content := 5, ci_generatingPC := 0x400100\<rparr>;
          cl = (CacheLine_default 0)\<lparr>cl_dataChunks := c # replicate 15 ChunkInfo_default\<rparr> in
      cw_set_orig_cacheline cl (cw_set_time_of_creation 1 (cw_set_time_of_data_gen 3 (cw_set_time_of_addr_gen 2
        (mk_CompletedWriteEntry 0 a cl 7)))))"

lemma example_prediction_ok: "entry_ok (example_prediction a)"
  by (simp add: example_prediction_def Let_def entry_ok_def cw_defs mk_CompletedWriteEntry_def is_flag_set_set CompletedWriteEntry_default_def
      gen_ok_def chunk_ok_def has_generating_pc_def list_all_iff ChunkInfo_default_def)
    (simp add: is_flag_set_def set_flag_def)

lemma list_all2_replicate: "P x y \<Longrightarrow> list_all2 P (replicate n x) (replicate n y)"
  by (induction n) auto

lemma example_prediction_simps: "cw_addr (example_prediction a) = a" "cw_generatorHash (example_prediction a) = 7" "\<not> cw_used (example_prediction a)"
  "\<not> is_free (example_prediction a)" "agrees a (5 # replicate 15 0) (example_prediction a)" "\<not> agrees a (6 # replicate 15 0) (example_prediction a)"
  by (simp_all add: example_prediction_def Let_def cw_defs mk_CompletedWriteEntry_def CompletedWriteEntry_default_def is_free_def
      is_free_prediction_def is_flag_set_def agrees_def chunk_data_def ChunkInfo_default_def list_all2_replicate)

definition example_write :: "DataChunk \<Rightarrow> Packet" where
  "example_write d = example_pkt 0x1000 (d # replicate 15 0)"

lemma example_write_line: "line_write (example_write d) 0x300001000 (d # replicate 15 0)"
proof -
  have "cacheline_align 0x300001000 = 0x300001000" by code_simp
  then show ?thesis
    by (simp add: line_write_def example_write_def example_pkt_def packet_defs isMaskedWrite_def is_paddr_pm_def)
qed

definition example_globals :: Globals where
  "example_globals = Globals_init\<lparr>g_completedWrites := [(0x300001000, [example_prediction 0x300001000])],
     g_usePredictor := True, g_predictorEnabled := True\<rparr>"

lemma example_globals_inv: "be_inv example_globals"
  by (auto simp: example_globals_def Globals_init_def be_inv_def learn_ok_def conf_table_ok_def pc_conf_ok_def tracker_ok_def um_wf_def
      um_find_def line_ok_def example_prediction_ok example_prediction_simps split: if_splits)

lemma example_globals_line: "um_find (g_completedWrites example_globals) 0x300001000 = Some [example_prediction 0x300001000]"
  by (simp add: example_globals_def um_find_def)

lemma example_newest: "newest (usable 0x300001000 (5 # replicate 15 0)) [example_prediction 0x300001000] 0"
  using example_prediction_simps(3,5) by (auto simp: newest_def usable_def)

theorem write_hits_newest_witness:
  "\<exists>g' be'. handleNonVolatileWrite (\<lambda>_. None) 9 0 (example_write 5) (example_globals, Backend_init ''0'') = Inr (g', be') \<and>
     conf_of g' 7 = 4 \<and> um_find (g_correctPredictions g') 7 = Some (1, 1) \<and> outcome be' = (1, 0, 1, 0) \<and>
     (\<exists>e. um_find (g_completedWrites g') 0x300001000 = Some [e] \<and> cw_used e)"
proof -
  have "outcome (Backend_init ''0'') = (0, 0, 0, 0)" by (simp add: outcome_def Backend_init_def)
  moreover have "conf_of example_globals 7 = 3" "g_correctPredictions example_globals = []"
    by (simp_all add: example_globals_def Globals_init_def conf_of_def)
  ultimately show ?thesis
    using write_hits_newest [OF example_globals_inv example_write_line example_globals_line example_newest, of "Backend_init ''0''" 0 0 0 0 "\<lambda>_. None" 9 0]
    by (auto simp: credited_def example_prediction_simps broadcastPrediction_def um_find_put count_prediction_def)
qed


theorem writes_accounted_witness:
  "\<exists>g' be. fold_res (\<lambda>(now, junk, pkt). predictorHandleRequest (\<lambda>_. None) now junk pkt)
       [(9, 0, example_write 5)] (example_globals, Backend_init ''0'') = Inr (g', be) \<and>
     be_totalPWrites be = be_nonPredictedPWrites be + be_correctlyPredictedPWrites be + be_dataMissPredictedPWrites be"
proof -
  have "outcome (Backend_init ''0'') = (0, 0, 0, 0)" by (simp add: outcome_def Backend_init_def)
  from write_hits_newest_run [OF example_globals_inv example_write_line example_globals_line example_newest this, of "\<lambda>_. None" 9 0]
  obtain g' be' where h: "handleNonVolatileWrite (\<lambda>_. None) 9 0 (example_write 5) (example_globals, Backend_init ''0'') = Inr (g', be')"
    by blast
  have p: "\<not> isToPOC (pk_req (example_write 5))" "getAddr (example_write 5) = Inr 0x300001000" "isWrite (example_write 5)"
    "is_paddr_pm 0x300001000"
    by (simp_all add: example_write_def example_pkt_def isToPOC_def packet_defs isWrite_def testCmdAttrib_def is_paddr_pm_def)
  have "predictorHandleRequest (\<lambda>_. None) 9 0 (example_write 5) (example_globals, Backend_init ''0'') =
      Inr (g', update_writeback 9 0x300001000 False be')"
    using h p by (simp add: predictorHandleRequest_def dumpTrace_def Backend_init_def example_globals_def)
  then have r: "fold_res (\<lambda>(now, junk, pkt). predictorHandleRequest (\<lambda>_. None) now junk pkt)
       [(9, 0, example_write 5)] (example_globals, Backend_init ''0'') = Inr (g', update_writeback 9 0x300001000 False be')" by simp
  show ?thesis using r writes_accounted [OF r] by blast
qed

theorem prediction_added_witness:
  "\<exists>g' q. addCompletedWrite 9 example_cfg \<lparr>em_pTable = [(0x10000000000, \<lparr>en_paddr = 0x300001000, en_flags = 0\<rparr>)], em_bits = 12\<rparr>
       (example_prediction 0x10000000000) example_globals = Inr g' \<and> be_inv g' \<and> um_find (g_completedWrites g') 0x300001000 = Some q \<and> length q = 2"
proof -
  let ?pt = "\<lparr>em_pTable = [(0x10000000000, \<lparr>en_paddr = 0x300001000, en_flags = 0\<rparr>)], em_bits = 12\<rparr>"
  have tr: "translate ?pt (cw_addr (example_prediction 0x10000000000)) = Some 0x300001000"
    unfolding example_prediction_simps by code_simp
  have use: "g_usePredictor example_globals" "0 < g_MAX_COMPLETED_QUEUE_LINE_SIZE example_globals"
    by (simp_all add: example_globals_def Globals_init_def)
  from prediction_added [OF example_globals_inv example_prediction_ok example_cfg_ok use(1) tr use(2), of 9] obtain g' e' m where
    r: "addCompletedWrite 9 example_cfg ?pt (example_prediction 0x10000000000) example_globals = Inr g'" "be_inv g'"
      "m = um_put 0x300001000 (last_n (g_MAX_COMPLETED_QUEUE_LINE_SIZE example_globals) (line_of example_globals 0x300001000 @ [e']))
         (g_completedWrites example_globals)"
      "g_completedWrites g' = m \<or> g_RESULT_BUFFER_MAX_SIZE example_globals < total_entries m" by blast
  have "m = [(0x300001000, [example_prediction 0x300001000, e'])]"
    using r(3) by (simp add: line_of_def example_globals_line last_n_def um_put_def) (simp add: example_globals_def Globals_init_def)
  then have "g_completedWrites g' = m" "um_find m 0x300001000 = Some [example_prediction 0x300001000, e']"
    using r(4) by (simp_all add: example_globals_def Globals_init_def total_entries_def um_find_def)
  then show ?thesis using r(1,2) by auto
qed

end
