(* ===== verification/Frontend.thy ===== *)
theory Frontend
  imports Predictor_Table Pending_Table Addr_Predictor Backend_Matching
begin

text \<open>
  The state of \<open>gem5/src/mem/predictor_frontend.{hh,cc}\<close> and the part of the front end that gathers persistent
  stores: the write history buffer, the accumulator of lines with its evictions, and the free predictions
  that retired lines make.

  Members that the constructor reads from the environment and never changes are the configuration.  What
  the front end asks other parts of the simulator is a parameter of the operation: the tick, the page
  table, the second-level cache and the memory it allocates.  The hash of a free prediction is the address
  of a string literal, and the shift of a chunk by its full width has no defined value: both are parameters.
\<close>

section \<open>State\<close>

record FeCfg =
  fc_CL_ACC_SIZE :: nat
  fc_disablePerPCConfidence :: bool
  fc_disableFreePrediction :: bool
  fc_disableFancyAddrPred :: bool
  fc_enableVolatileDump :: string
  fc_freeWriteHash :: hash_t
  fc_shl32 :: "DataChunk \<Rightarrow> DataChunk"
  fc_pt :: PTCfg

text \<open>\<open>w_l2\<close> is the data of the valid block at an address, \<open>w_blk\<close> the memory of the block object itself,
  which one function reads as if it were the data.\<close>

record World =
  w_now :: Tick
  w_meta :: MetaCfg
  w_pageTable :: EmulationPageTable
  w_l2 :: "Addr_t \<Rightarrow> DataChunk list option"
  w_blk :: "Addr_t \<Rightarrow> DataChunk list option"
  w_fresh :: "DataChunk list"

record FeTraceLine =
  ft_pc :: PC_t
  ft_persistent :: bool
  ft_clwb :: bool
  ft_vaddr :: Addr_t
  ft_size :: nat
  ft_data :: "DataChunk list"
  ft_tick :: Tick

record Frontend =
  fe_writeHistoryBuffer :: whb
  fe_predictorTable :: PredictorTable
  fe_pendingTable :: PendingTable
  fe_parents :: parents
  fe_nextParent :: nat
  fe_addrPredictor :: AddrPredictor
  fe_cacheLineAccumulator :: "(Addr_t, CacheLine) umap"
  fe_addrChangesSinceClwb :: nat
  fe_lastAlignedPMAddr :: Addr_t
  fe_lastAccumulatorRetireTick :: Tick
  fe_lastWriteTickToAddr :: "(Addr_t, Tick) umap"
  fe_lastWritePCToAddr :: "(Addr_t, PC_t) umap"
  fe_lastPMAddr :: Addr_t
  fe_writesSinceLastCL :: nat
  fe_writebackDistMap :: "(Addr_t, Tick) umap"
  fe_myFile :: "FeTraceLine list"
  fe_genHash :: "hash_t list"
  fe_predictedWriteCount :: nat
  fe_predictorTablePromotions :: nat
  fe_pmAccumulatorFlushes :: nat
  fe_constant0Prediction :: nat
  fe_pWritesFoundInWHB :: nat
  fe_zeroCachelines :: nat
  fe_pmStores :: nat
  fe_noAddrFound :: nat
  fe_whbAddrFound :: nat
  fe_cacheLineNotInWHB :: nat
  fe_clwbCount :: nat
  fe_clwbCountInclInv :: nat
  fe_clwbResponses :: nat
  fe_pcAccumulatorEvictions :: nat
  fe_clwbWithoutWrites :: nat
  fe_freePredictions :: nat
  fe_bothAddrDataNotFound :: nat
  fe_pcCaptureDistance :: "nat list"
  fe_addrChangesBwClwb :: "nat list"
  fe_clwbToLastWriteDistance :: "Tick list"
  fe_consecutiveWritesToCL :: "nat list"
  fe_clEvicKiloTicksSinceLastWrite :: "Tick list"
  fe_missingChunkCount :: "nat list"
  fe_invChunkCountSampler :: "nat list"
  fe_writebackDistStat :: "Tick list"

abbreviation (input) ACC_RETIRE_TICK_PERIOD :: Tick where "ACC_RETIRE_TICK_PERIOD \<equiv> 10000"
abbreviation (input) ACC_ENTRY_RETIRE_THRESHOLD :: Tick where "ACC_ENTRY_RETIRE_THRESHOLD \<equiv> 500000"

text \<open>The size of the history buffer is 512 times the floating-point size multiplier, truncated.\<close>

definition mk_Frontend :: "FeCfg \<Rightarrow> string \<Rightarrow> nat \<Rightarrow> PendingTable \<Rightarrow> Frontend" where
  "mk_Frontend fc nm whbSize pend = \<lparr>fe_writeHistoryBuffer = mk_FixedSizeQueue (nm @ ''.whb'') whbSize,
     fe_predictorTable = mk_PredictorTable (fc_pt fc) (nm @ ''.pred_t''), fe_pendingTable = pend,
     fe_parents = Map.empty, fe_nextParent = 0, fe_addrPredictor = mk_AddrPredictor, fe_cacheLineAccumulator = [],
     fe_addrChangesSinceClwb = 0, fe_lastAlignedPMAddr = 0, fe_lastAccumulatorRetireTick = 0,
     fe_lastWriteTickToAddr = [], fe_lastWritePCToAddr = [], fe_lastPMAddr = 0, fe_writesSinceLastCL = 0,
     fe_writebackDistMap = [], fe_myFile = [], fe_genHash = [], fe_predictedWriteCount = 0,
     fe_predictorTablePromotions = 0, fe_pmAccumulatorFlushes = 0, fe_constant0Prediction = 0,
     fe_pWritesFoundInWHB = 0, fe_zeroCachelines = 0, fe_pmStores = 0, fe_noAddrFound = 0, fe_whbAddrFound = 0,
     fe_cacheLineNotInWHB = 0, fe_clwbCount = 0, fe_clwbCountInclInv = 0, fe_clwbResponses = 0,
     fe_pcAccumulatorEvictions = 0, fe_clwbWithoutWrites = 0, fe_freePredictions = 0, fe_bothAddrDataNotFound = 0,
     fe_pcCaptureDistance = [], fe_addrChangesBwClwb = [], fe_clwbToLastWriteDistance = [],
     fe_consecutiveWritesToCL = [], fe_clEvicKiloTicksSinceLastWrite = [], fe_missingChunkCount = [],
     fe_invChunkCountSampler = [], fe_writebackDistStat = []\<rparr>"

section \<open>The write history buffer\<close>

definition canAddToWhb :: "Packet \<Rightarrow> bool" where
  "canAddToWhb pkt = isWrite pkt"

definition updateWriteHistoryBuffer :: "Tick \<Rightarrow> Packet \<Rightarrow> Frontend \<Rightarrow> Frontend res" where
  "updateWriteHistoryBuffer now pkt fe =
     bindE (assertE (hasPC (pk_req pkt) \<and> hasData pkt \<and> isWrite pkt) ''hasPC && hasData && isWrite'') (\<lambda>_.
     bindE (getPtr pkt) (\<lambda>dataChunks.
     bindE (getPC (pk_req pkt)) (\<lambda>pc.
     bindE (getVaddr (pk_req pkt)) (\<lambda>vaddr.
     bindE (req_getSize (pk_req pkt)) (\<lambda>len.
     bindE (get_path_hash (fe_predictorTable fe)) (\<lambda>h.
     bindE (mk_WHBEntry_write now pc vaddr dataChunks (len div 4) h) (\<lambda>e.
     let e1 = whb_set_size (of_nat (len div 4)) (whb_set_id now (whb_set_gen_tick now e)) in
     bindE (all_zeros (whb_get_cacheline e1)) (\<lambda>_.
     bindE (fq_push_back e1 (fe_writeHistoryBuffer fe)) (\<lambda>q.
     Inr (fe\<lparr>fe_writeHistoryBuffer := q\<rparr>))))))))))"

section \<open>Free predictions\<close>

text \<open>A line that the cache and the accumulator give together, marked as a free prediction.\<close>

definition free_line :: "CacheLine \<Rightarrow> CacheLine \<Rightarrow> CacheLine res" where
  "free_line acc cacheData =
     bindE (overwriteFrom acc cacheData) (\<lambda>(cl, _).
     Inr (cl\<lparr>cl_dataChunks := map set_free_prediction (cl_dataChunks cl)\<rparr>))"

definition free_entry :: "FeCfg \<Rightarrow> Tick \<Rightarrow> Addr_t \<Rightarrow> CacheLine \<Rightarrow> CompletedWriteEntry" where
  "free_entry fc now addr cl =
     cw_set_orig_cacheline cl (cw_set_time_of_creation now (cw_set_time_of_data_gen now (cw_set_time_of_addr_gen now
       (mk_CompletedWriteEntry now addr cl (fc_freeWriteHash fc)))))"

definition retire_scan :: "Tick \<Rightarrow> Addr_t \<times> CacheLine \<Rightarrow> Addr_t list \<Rightarrow> Addr_t list res" where
  "retire_scan now x q =
     bindE (get_time_of_last_update (snd x)) (\<lambda>t.
     Inr (if now - t > ACC_ENTRY_RETIRE_THRESHOLD then q @ [fst x] else q))"

text \<open>\<open>cacheLineAccumulator[addr]\<close> is the line of the scan, which is still there.\<close>

definition retire_line :: "FeCfg \<Rightarrow> World \<Rightarrow> Addr_t \<Rightarrow> (Addr_t, CacheLine) umap \<times> CompletedWriteEntry list \<Rightarrow>
    ((Addr_t, CacheLine) umap \<times> CompletedWriteEntry list) res" where
  "retire_line fc w addr s = (case translate (w_pageTable w) addr of
     None \<Rightarrow> Inr s
   | Some paddr \<Rightarrow>
       let acc = um_index (CacheLine_default (w_now w)) addr (fst s) in
       bindE (um_at acc addr) (\<lambda>cl.
       if \<not> cl_isDirty cl then Inr (acc, snd s)
       else bindE (mk_CacheLine_cache (w_now w) paddr (w_l2 w paddr) (w_fresh w)) (\<lambda>cacheData.
            bindE (free_line cl cacheData) (\<lambda>freeLine.
            Inr (um_put addr (set_clean cl) acc, snd s @ [free_entry fc (w_now w) addr freeLine])))))"

definition send_free :: "World \<Rightarrow> CompletedWriteEntry \<Rightarrow> Globals \<times> Frontend \<Rightarrow> (Globals \<times> Frontend) res" where
  "send_free w e s =
     bindE (addCompletedWrite (w_now w) (w_meta w) (w_pageTable w) e (fst s)) (\<lambda>g.
     Inr (g, (snd s)\<lparr>fe_freePredictions := fe_freePredictions (snd s) + 1,
                     fe_predictedWriteCount := fe_predictedWriteCount (snd s) + 1\<rparr>))"

definition cachelineAccumulatorRetireTick :: "FeCfg \<Rightarrow> World \<Rightarrow> Globals \<times> Frontend \<Rightarrow> (Globals \<times> Frontend) res" where
  "cachelineAccumulatorRetireTick fc w s =
     (if fc_disableFreePrediction fc then Inr s
      else if \<not> (w_now w - fe_lastAccumulatorRetireTick (snd s) > ACC_RETIRE_TICK_PERIOD) then Inr s
      else bindE (fold_res (retire_scan (w_now w)) (fe_cacheLineAccumulator (snd s)) []) (\<lambda>retireQueue.
           bindE (fold_res (retire_line fc w) retireQueue (fe_cacheLineAccumulator (snd s), [])) (\<lambda>(acc, entriesToSend).
           fold_res (send_free w) entriesToSend
             (fst s, (snd s)\<lparr>fe_lastAccumulatorRetireTick := w_now w, fe_cacheLineAccumulator := acc\<rparr>))))"

definition SendCacheLineToBackend :: "FeCfg \<Rightarrow> World \<Rightarrow> CacheLine \<Rightarrow> Globals \<Rightarrow> Globals res" where
  "SendCacheLineToBackend fc w cacheline g =
     bindE (get_addr cacheline) (\<lambda>addr.
     case translate (w_pageTable w) addr of
       None \<Rightarrow> Inr g
     | Some paddr \<Rightarrow> (case w_blk w paddr of
         None \<Rightarrow> Inr g
       | Some data \<Rightarrow>
           bindE (mk_CacheLine_data (w_now w) (cacheline_align addr) data DATA_CHUNK_COUNT True) (\<lambda>cacheData.
           bindE (free_line cacheline cacheData) (\<lambda>freeLine.
           addCompletedWrite (w_now w) (w_meta w) (w_pageTable w) (free_entry fc (w_now w) addr freeLine) g))))"

section \<open>The accumulator of lines\<close>

definition older_line :: "Addr_t \<times> CacheLine \<Rightarrow> Tick \<times> Addr_t \<Rightarrow> Tick \<times> Addr_t" where
  "older_line x r = (if get_time_of_creation (snd x) < fst r then (get_time_of_creation (snd x), fst x) else r)"

text \<open>The line of the store is entered or marked dirty.\<close>

definition enter_line :: "Tick \<Rightarrow> Addr_t \<Rightarrow> (Addr_t, CacheLine) umap \<Rightarrow> (Addr_t, CacheLine) umap" where
  "enter_line now vaddr acc = (case um_find acc (cacheline_align vaddr) of
     Some cl \<Rightarrow> um_put (cacheline_align vaddr) (set_dirty cl) acc
   | None \<Rightarrow> um_put (cacheline_align vaddr) (set_time_of_last_update now (set_time_of_creation now
               (set_addr vaddr (set_dirty (CacheLine_default now))))) acc)"

text \<open>The statistic of an eviction reads the map with the unaligned address of the store and
  \<open>operator[]\<close>.\<close>

definition evict_acc :: "FeCfg \<Rightarrow> World \<Rightarrow> Addr_t \<Rightarrow> Addr_t \<Rightarrow> Globals \<times> Frontend \<Rightarrow> (Globals \<times> Frontend) res" where
  "evict_acc fc w vaddr oldAddr s =
     bindE (panic_if_not (um_has (fe_lastWriteTickToAddr (snd s)) oldAddr) ''lastWriteTickToAddr'') (\<lambda>_.
     let ticks = um_index 0 vaddr (fe_lastWriteTickToAddr (snd s)) in
     bindE (um_at ticks vaddr) (\<lambda>t.
     bindE (panic_if (oldAddr = - 1) ''Incorrect execution state'') (\<lambda>_.
     bindE (um_at (fe_cacheLineAccumulator (snd s)) oldAddr) (\<lambda>cl.
     bindE (SendCacheLineToBackend fc w cl (fst s)) (\<lambda>g.
     Inr (g, (snd s)\<lparr>fe_pcAccumulatorEvictions := fe_pcAccumulatorEvictions (snd s) + 1,
                     fe_lastWriteTickToAddr := ticks,
                     fe_clEvicKiloTicksSinceLastWrite := fe_clEvicKiloTicksSinceLastWrite (snd s) @ [(w_now w - t) div 1000],
                     fe_cacheLineAccumulator := um_erase oldAddr (fe_cacheLineAccumulator (snd s))\<rparr>))))))"

definition manageCachelineAcc :: "FeCfg \<Rightarrow> World \<Rightarrow> Packet \<Rightarrow> Globals \<times> Frontend \<Rightarrow> (Globals \<times> Frontend) res" where
  "manageCachelineAcc fc w pkt s =
     bindE (getVaddr (pk_req pkt)) (\<lambda>vaddr.
     let acc = enter_line (w_now w) vaddr (fe_cacheLineAccumulator (snd s));
         s1 = (fst s, (snd s)\<lparr>fe_cacheLineAccumulator := acc\<rparr>);
         (oldest, oldAddr) = (if length acc > fc_CL_ACC_SIZE fc then fold older_line acc (- 1, - 1) else (- 1, - 1)) in
     bindE (if oldest \<noteq> - 1 then evict_acc fc w vaddr oldAddr s1 else Inr s1) (\<lambda>s2.
     bindE (panic_if (oldest = - 1 \<and> length (fe_cacheLineAccumulator (snd s2)) > fc_CL_ACC_SIZE fc)
              ''Unable to delete any entry from the cacheline accumulator'') (\<lambda>_. Inr s2)))"

section \<open>Stores to persistent memory\<close>

definition acc_chunk :: "Tick \<Rightarrow> PC_t \<Rightarrow> DataChunk list \<Rightarrow> Addr_t \<Rightarrow> nat \<Rightarrow> nat \<Rightarrow> (Addr_t, CacheLine) umap \<Rightarrow>
    (Addr_t, CacheLine) umap res" where
  "acc_chunk now pc src cachelineAddr chunkIndex i acc =
     bindE (assertE (chunkIndex + i < DATA_CHUNK_COUNT) ''cacheChunkIndex < DATA_CHUNK_COUNT'') (\<lambda>_.
     bindE (um_at acc cachelineAddr) (\<lambda>cl.
     bindE (arr_get (cl_dataChunks cl) (chunkIndex + i)) (\<lambda>c.
     bindE (arr_get src i) (\<lambda>d.
     bindE (set_data d (set_chunk_type CT_DATA c)) (\<lambda>c1.
     bindE (arr_set (cl_dataChunks cl) (chunkIndex + i) (set_completion True (set_generating_pc pc c1))) (\<lambda>cs.
     Inr (um_put cachelineAddr (set_time_of_last_update now (cl\<lparr>cl_dataChunks := cs\<rparr>)) acc)))))))"

text \<open>The branch of \<open>handleNonVolatileWrite\<close> for a store.\<close>

definition accumulate_store :: "FeCfg \<Rightarrow> World \<Rightarrow> Packet \<Rightarrow> Globals \<times> Frontend \<Rightarrow> (Globals \<times> Frontend) res" where
  "accumulate_store fc w pkt s =
     bindE (getVaddr (pk_req pkt)) (\<lambda>vaddr.
     let fe = snd s;
         fe1 = fe\<lparr>fe_pmStores := fe_pmStores fe + 1\<rparr>;
         fe2 = (if fe_lastAlignedPMAddr fe \<noteq> cacheline_align vaddr
                then fe1\<lparr>fe_lastAlignedPMAddr := cacheline_align vaddr,
                         fe_addrChangesSinceClwb := fe_addrChangesSinceClwb fe + 1\<rparr>
                else fe1) in
     bindE (cachelineAccumulatorRetireTick fc w (fst s, fe2)) (\<lambda>s1.
     bindE (manageCachelineAcc fc w pkt s1) (\<lambda>s2.
     bindE (assertE (hasVaddr (pk_req pkt)) ''hasVaddr'') (\<lambda>_.
     bindE (getPC (pk_req pkt)) (\<lambda>pc.
     bindE (assertE (hasPC (pk_req pkt) \<and> hasData pkt) ''hasPC && hasData'') (\<lambda>_.
     bindE (getSize pkt) (\<lambda>dataLen.
     bindE (getPtr pkt) (\<lambda>dataChunks.
     bindE (fold_res (acc_chunk (w_now w) pc dataChunks (cacheline_align vaddr) (chunk_offset vaddr)) [0..<dataLen div 4]
              (fe_cacheLineAccumulator (snd s2))) (\<lambda>acc.
     Inr (fst s2, (snd s2)\<lparr>fe_cacheLineAccumulator := acc\<rparr>))))))))))"

section \<open>Statistics and the trace\<close>

text \<open>A write-back looks its unaligned address up in a map whose keys are aligned.\<close>

definition collectPktStatistics :: "Tick \<Rightarrow> Packet \<Rightarrow> Frontend \<Rightarrow> Frontend res" where
  "collectPktStatistics now pkt fe =
     bindE (getVaddr (pk_req pkt)) (\<lambda>vaddr.
     bindE (is_vaddr_clwb pkt) (\<lambda>isClwb.
     if \<not> ((isWrite pkt \<or> isClwb) \<and> is_vaddr_pm vaddr) then Inr fe
     else if isClwb then
       (case um_find (fe_lastWriteTickToAddr fe) vaddr of
          None \<Rightarrow> Inr (fe\<lparr>fe_clwbToLastWriteDistance := fe_clwbToLastWriteDistance fe @ [- 1],
                         fe_clwbWithoutWrites := fe_clwbWithoutWrites fe + 1\<rparr>)
        | Some t \<Rightarrow> Inr (fe\<lparr>fe_clwbToLastWriteDistance := fe_clwbToLastWriteDistance fe @ [(now - t) div 1000]\<rparr>))
     else
       bindE (getPC (pk_req pkt)) (\<lambda>pc.
       let fe1 = fe\<lparr>fe_lastWriteTickToAddr := um_put (cacheline_align vaddr) now (fe_lastWriteTickToAddr fe),
                    fe_lastWritePCToAddr := um_put (cacheline_align vaddr) pc (fe_lastWritePCToAddr fe)\<rparr> in
       Inr (if fe_lastPMAddr fe \<noteq> cacheline_align vaddr
            then fe1\<lparr>fe_consecutiveWritesToCL := fe_consecutiveWritesToCL fe @ [fe_writesSinceLastCL fe],
                     fe_writesSinceLastCL := 0, fe_lastPMAddr := cacheline_align vaddr\<rparr>
            else fe1\<lparr>fe_writesSinceLastCL := fe_writesSinceLastCL fe + 1\<rparr>))))"

definition fe_dumpTrace :: "FeCfg \<Rightarrow> Tick \<Rightarrow> Packet \<Rightarrow> Frontend \<Rightarrow> Frontend res" where
  "fe_dumpTrace fc now pkt fe =
     (if fc_enableVolatileDump fc = [] then Inr fe
      else bindE (getSize pkt) (\<lambda>writeSize.
        bindE (getVaddr (pk_req pkt)) (\<lambda>addr.
        let isClwb = isToPOC (pk_req pkt) in
        if \<not> ((isWrite pkt \<and> (writeSize = 4 \<or> writeSize = 8)) \<or> isClwb) then Inr fe
        else bindE (if writeSize = 4 \<or> writeSize = 8
                    then bindE (getPtr pkt) (\<lambda>src. map_res (arr_get src) [0..<writeSize div 4])
                    else Inr []) (\<lambda>ds.
             bindE (getPC (pk_req pkt)) (\<lambda>pc.
             Inr (fe\<lparr>fe_myFile := fe_myFile fe @ [\<lparr>ft_pc = pc, ft_persistent = is_vaddr_pm addr, ft_clwb = isClwb,
                       ft_vaddr = addr, ft_size = writeSize, ft_data = ds, ft_tick = now\<rparr>]\<rparr>))))))"

section \<open>Well-formed histories\<close>

text \<open>The chunks of a recorded write are contiguous, and as many as its size says.\<close>

definition whb_ok :: "WriteHistoryBufferEntry \<Rightarrow> bool" where
  "whb_ok w = (cl_ok (whb_cacheLine w) \<and> whb_pc w \<noteq> 0 \<and> whb_hasGenTick w \<and> whb_hasPathHash w \<and> whb_hasSize w \<and>
     (\<exists>f n. f + n \<le> 16 \<and> whb_size w = Some (of_nat n) \<and>
        (\<forall>j<16. ci_chunkType (cl_dataChunks (whb_cacheLine w) ! j) = CT_DATA \<longleftrightarrow> f \<le> j \<and> j < f + n)))"

definition history_ok :: "whb \<Rightarrow> bool" where
  "history_ok q = (fq_inv q \<and> list_all whb_ok (fq_queue q) \<and> sorted (map whb_genTick (fq_queue q)))"

text \<open>A store of \<open>n\<close> chunks inside a line.\<close>

definition store_pkt :: "Packet \<Rightarrow> PC_t \<Rightarrow> Addr_t \<Rightarrow> DataChunk list \<Rightarrow> bool" where
  "store_pkt pkt pc vaddr src = (isWrite pkt \<and> hasData pkt \<and> getPC (pk_req pkt) = Inr pc \<and> pc \<noteq> 0 \<and>
     getVaddr (pk_req pkt) = Inr vaddr \<and> getPtr pkt = Inr src \<and>
     (\<exists>len. getSize pkt = Inr len \<and> req_getSize (pk_req pkt) = Inr len \<and> length src = len div 4) \<and>
     chunk_offset vaddr + length src \<le> 16)"

lemma store_pkt_reads:
  assumes "store_pkt pkt pc vaddr src"
  shows "hasPC (pk_req pkt)" "hasVaddr (pk_req pkt)" "isWrite pkt" "hasData pkt" "getPC (pk_req pkt) = Inr pc"
    "getVaddr (pk_req pkt) = Inr vaddr" "getPtr pkt = Inr src" "pc \<noteq> 0" "chunk_offset vaddr + length src \<le> 16"
proof -
  show "hasPC (pk_req pkt)" "hasVaddr (pk_req pkt)"
    using assms by (auto simp: store_pkt_def getPC_def getVaddr_def hasPC_def hasVaddr_def bindE_eq_Inr)
qed (use assms in \<open>auto simp: store_pkt_def\<close>)

lemma whb_entry_ok:
  assumes "store_pkt pkt pc vaddr src"
  shows "\<exists>e. mk_WHBEntry_write now pc vaddr src (length src) h = Inr e \<and>
    whb_ok (whb_set_size (of_nat (length src)) (whb_set_id now (whb_set_gen_tick now e))) \<and>
    whb_pc e = pc \<and> whb_pathHash e = h \<and> \<not> whb_isUsed e \<and>
    (\<forall>j<16. if chunk_offset vaddr \<le> j \<and> j < chunk_offset vaddr + length src
       then holds (cl_dataChunks (whb_cacheLine e) ! j) (src ! (j - chunk_offset vaddr))
       else cl_dataChunks (whb_cacheLine e) ! j = ChunkInfo_default)"
proof -
  let ?f = "chunk_offset vaddr" and ?n = "length src"
  note rd = store_pkt_reads [OF assms]
  from mk_WHBEntry_write_run [OF rd(9) le_refl, of now pc h] obtain cl where
    e: "mk_WHBEntry_write now pc vaddr src ?n h = Inr ((mk_WHBEntry pc cl)\<lparr>whb_pathHash := h, whb_hasPathHash := True\<rparr>)"
    and cl: "cl_ok cl"
    and ch: "\<forall>j<16. if ?f \<le> j \<and> j < ?f + ?n
       then get_data (cl_dataChunks cl ! j) = Inr (src ! (j - ?f)) \<and> get_generating_pc (cl_dataChunks cl ! j) = Inr pc
       else cl_dataChunks cl ! j = ChunkInfo_default" by blast
  have ch': "\<forall>j<16. if ?f \<le> j \<and> j < ?f + ?n then holds (cl_dataChunks cl ! j) (src ! (j - ?f))
       else cl_dataChunks cl ! j = ChunkInfo_default"
    using ch by (auto simp: get_data_iff chunk_data_def split: if_splits)
  have ty: "\<forall>j<16. ci_chunkType (cl_dataChunks cl ! j) = CT_DATA \<longleftrightarrow> ?f \<le> j \<and> j < ?f + ?n"
    using ch' by (auto simp: ChunkInfo_default_def split: if_splits)
  show ?thesis
    unfolding e using cl ch' ty rd(8,9)
    by (auto simp: whb_ok_def mk_WHBEntry_def whb_set_size_def whb_set_id_def whb_set_gen_tick_def)
qed

lemma all_zeros_loop_total: "list_all chunk_ok cs \<Longrightarrow> \<exists>z. all_zeros_loop cs = Inr z"
  by (induction cs) auto

lemma history_push:
  assumes q: "history_ok q" and e: "whb_ok e" and late: "\<forall>w\<in>set (fq_queue q). whb_genTick w \<le> whb_genTick e"
  shows "\<exists>q'. fq_push_back e q = Inr q' \<and> history_ok q' \<and> fq_sz q' = fq_sz q \<and> fq_queue q' = last_n (fq_sz q) (fq_queue q @ [e])"
proof -
  have inv: "fq_inv q" using q by (simp add: history_ok_def)
  from fqf.push_last_n [OF inv, of e] obtain q' where q': "fq_push_back e q = Inr q'" "fq_inv q'" "fq_sz q' = fq_sz q"
    "fq_queue q' = last_n (fq_sz q) (fq_queue q @ [e])" by blast
  have "list_all whb_ok (fq_queue q @ [e])" "sorted (map whb_genTick (fq_queue q @ [e]))"
    using q e late by (auto simp: history_ok_def sorted_append)
  moreover have "sorted (map whb_genTick (drop n xs))" if "sorted (map whb_genTick xs)" for n xs
    using sorted_wrt_drop [OF that, of n] by (simp only: drop_map)
  ultimately have "list_all whb_ok (fq_queue q')" "sorted (map whb_genTick (fq_queue q'))"
    unfolding q'(4) last_n_def list_all_iff by (blast dest: in_set_dropD)+
  with q' show ?thesis by (auto simp: history_ok_def)
qed

lemma updateWriteHistoryBuffer_ok:
  assumes p: "store_pkt pkt pc vaddr src" and q: "history_ok (fe_writeHistoryBuffer fe)"
    and late: "\<forall>w\<in>set (fq_queue (fe_writeHistoryBuffer fe)). whb_genTick w \<le> now"
    and ph: "sq_inv (prt_pathHistory (fe_predictorTable fe))" "sq_sz (prt_pathHistory (fe_predictorTable fe)) \<le> 64"
  shows "\<exists>q e. updateWriteHistoryBuffer now pkt fe = Inr (fe\<lparr>fe_writeHistoryBuffer := q\<rparr>) \<and> history_ok q \<and>
    fq_queue q = last_n (fq_sz (fe_writeHistoryBuffer fe)) (fq_queue (fe_writeHistoryBuffer fe) @ [e]) \<and>
    fq_sz q = fq_sz (fe_writeHistoryBuffer fe) \<and>
    whb_pc e = pc \<and> whb_genTick e = now \<and> \<not> whb_isUsed e \<and> whb_size e = Some (of_nat (length src)) \<and>
    whb_pathHash e = horner_hash (sq_queue (prt_pathHistory (fe_predictorTable fe))) \<and>
    (\<forall>j<16. if chunk_offset vaddr \<le> j \<and> j < chunk_offset vaddr + length src
       then holds (cl_dataChunks (whb_cacheLine e) ! j) (src ! (j - chunk_offset vaddr))
       else cl_dataChunks (whb_cacheLine e) ! j = ChunkInfo_default)"
proof -
  note rd = store_pkt_reads [OF p]
  obtain len where len: "getSize pkt = Inr len" "req_getSize (pk_req pkt) = Inr len" "len div 4 = length src"
    using p by (auto simp: store_pkt_def)
  let ?h = "horner_hash (sq_queue (prt_pathHistory (fe_predictorTable fe)))"
  obtain e where e: "mk_WHBEntry_write now pc vaddr src (length src) ?h = Inr e"
    "whb_ok (whb_set_size (of_nat (length src)) (whb_set_id now (whb_set_gen_tick now e)))"
    "whb_pc e = pc" "whb_pathHash e = ?h" "\<not> whb_isUsed e"
    "\<forall>j<16. if chunk_offset vaddr \<le> j \<and> j < chunk_offset vaddr + length src
       then holds (cl_dataChunks (whb_cacheLine e) ! j) (src ! (j - chunk_offset vaddr))
       else cl_dataChunks (whb_cacheLine e) ! j = ChunkInfo_default"
    using whb_entry_ok [OF p] by blast
  let ?e = "whb_set_size (of_nat (length src)) (whb_set_id now (whb_set_gen_tick now e))"
  have f: "whb_genTick ?e = now" "whb_cacheLine ?e = whb_cacheLine e" "whb_pc ?e = whb_pc e" "whb_pathHash ?e = whb_pathHash e"
    "whb_isUsed ?e = whb_isUsed e" "whb_size ?e = Some (of_nat (length src))"
    by (simp_all add: whb_set_size_def whb_set_id_def whb_set_gen_tick_def)
  obtain z where z: "all_zeros (whb_get_cacheline ?e) = Inr z"
    using e(2) all_zeros_loop_total [of "cl_dataChunks (whb_cacheLine e)"] f(2)
    by (auto simp: whb_ok_def cl_ok_def all_zeros_def whb_get_cacheline_def)
  obtain q' where q': "fq_push_back ?e (fe_writeHistoryBuffer fe) = Inr q'" "history_ok q'"
    "fq_sz q' = fq_sz (fe_writeHistoryBuffer fe)"
    "fq_queue q' = last_n (fq_sz (fe_writeHistoryBuffer fe)) (fq_queue (fe_writeHistoryBuffer fe) @ [?e])"
    using history_push [OF q e(2)] late f(1) by auto
  have "updateWriteHistoryBuffer now pkt fe = Inr (fe\<lparr>fe_writeHistoryBuffer := q'\<rparr>)"
    unfolding updateWriteHistoryBuffer_def Let_def using rd len e(1) z q'(1) get_path_hash_run [OF ph] by simp
  then show ?thesis using q'(2-4) e(3-6) f by (intro exI [of _ q'] exI [of _ ?e]) simp
qed

section \<open>The back end as a sink of predictions\<close>

text \<open>What the front end relies on when it hands predictions over: a well-formed prediction is always
  taken, and the taker's invariant holds afterwards.\<close>

locale prediction_sink =
  fixes send :: "'e \<Rightarrow> 'g \<Rightarrow> 'g res"
    and ok :: "'e \<Rightarrow> bool"
    and inv :: "'g \<Rightarrow> bool"
    and frame :: "'g \<Rightarrow> 'f"
  assumes send_ok: "ok e \<Longrightarrow> inv g \<Longrightarrow> \<exists>g'. send e g = Inr g' \<and> inv g' \<and> frame g' = frame g"
begin

lemma send_all: "list_all ok es \<Longrightarrow> inv g \<Longrightarrow> \<exists>g'. fold_res send es g = Inr g' \<and> inv g' \<and> frame g' = frame g"
proof (induction es arbitrary: g)
  case Nil
  then show ?case by simp
next
  case (Cons e es)
  then obtain u where "send e g = Inr u" "inv u" "frame u = frame g" using send_ok by fastforce
  with Cons show ?case by fastforce
qed

end

text \<open>Everything of the shared state but the buffer of predictions and its book-keeping.\<close>

definition sink_frame :: "Globals \<Rightarrow> Globals" where
  "sink_frame g = g\<lparr>g_addrMatches := [], g_pendingPredictionQueue := [], g_completedWrites := [], g_capacityEvictionStatic := 0\<rparr>"

definition sink_inv :: "MetaCfg \<Rightarrow> Globals \<Rightarrow> bool" where
  "sink_inv cfg g = (be_inv g \<and> cfg_ok cfg \<and> 0 < g_MAX_COMPLETED_QUEUE_LINE_SIZE g)"

interpretation sink: prediction_sink "addCompletedWrite now cfg pt" entry_ok "sink_inv cfg" sink_frame for now cfg pt
proof
  fix e g
  assume e: "entry_ok e" and g: "sink_inv cfg g"
  show "\<exists>g'. addCompletedWrite now cfg pt e g = Inr g' \<and> sink_inv cfg g' \<and> sink_frame g' = sink_frame g"
  proof (cases "if g_usePredictor g then translate pt (cw_addr e) else None")
    case None
    then have "addCompletedWrite now cfg pt e g = Inr g"
      by (simp add: addCompletedWrite_def entry_ok_reads(1) [OF e])
    then show ?thesis using g by simp
  next
    case (Some paddr)
    then have "g_usePredictor g" "translate pt (cw_addr e) = Some paddr" by (auto split: if_splits)
    moreover have b: "be_inv g" "cfg_ok cfg" "0 < g_MAX_COMPLETED_QUEUE_LINE_SIZE g" using g by (simp_all add: sink_inv_def)
    ultimately obtain g' where g':
      "addCompletedWrite now cfg pt e g = Inr g'" "be_inv g'"
      "\<exists>am pq cw n. g' = g\<lparr>g_addrMatches := am, g_pendingPredictionQueue := pq, g_completedWrites := cw, g_capacityEvictionStatic := n\<rparr>"
      using addCompletedWrite_ok [OF b(1) e b(2) _ _ b(3), of pt paddr now] by blast
    then have "g_MAX_COMPLETED_QUEUE_LINE_SIZE g' = g_MAX_COMPLETED_QUEUE_LINE_SIZE g" "sink_frame g' = sink_frame g"
      by (auto simp: sink_frame_def)
    then show ?thesis using g' b by (auto simp: sink_inv_def)
  qed
qed

section \<open>Free predictions\<close>

text \<open>The blocks of the cache hold whole lines.\<close>

definition world_ok :: "World \<Rightarrow> bool" where
  "world_ok w = (16 \<le> length (w_fresh w) \<and> (\<forall>a d. w_l2 w a = Some d \<longrightarrow> 16 \<le> length d) \<and>
     (\<forall>a d. w_blk w a = Some d \<longrightarrow> 16 \<le> length d))"

definition full_line :: "CacheLine \<Rightarrow> DataChunk list \<Rightarrow> bool" where
  "full_line cl ds = (cl_ok cl \<and> (\<forall>j<16. holds (cl_dataChunks cl ! j) (ds ! j)))"

lemma fill_full:
  assumes "16 \<le> length d"
  shows "\<exists>cs. fill_chunks d 16 0 (map (set_chunk_type CT_DATA) (replicate 16 ChunkInfo_default)) = Inr cs \<and> length cs = 16 \<and>
    list_all chunk_ok cs \<and> (\<forall>j<16. holds (cs ! j) (d ! j))"
proof -
  from fill_chunks_ok [of "map (set_chunk_type CT_DATA) (replicate 16 ChunkInfo_default)" 0 16 d] assms obtain cs where
    "fill_chunks d 16 0 (map (set_chunk_type CT_DATA) (replicate 16 ChunkInfo_default)) = Inr cs" "length cs = 16"
    "\<forall>j<16. chunk_ok (cs ! j) \<and> holds (cs ! j) (d ! j)" by auto
  then show ?thesis by (auto simp: list_all_length)
qed

lemma mk_CacheLine_cache_full:
  assumes w: "world_ok w"
  shows "\<exists>cl. mk_CacheLine_cache now paddr (w_l2 w paddr) (w_fresh w) = Inr cl \<and>
    full_line cl (case w_l2 w paddr of None \<Rightarrow> w_fresh w | Some d \<Rightarrow> d)"
proof -
  have "16 \<le> length (case w_l2 w paddr of None \<Rightarrow> w_fresh w | Some d \<Rightarrow> d)"
    using w by (auto simp: world_ok_def split: option.splits)
  from fill_full [OF this] show ?thesis
    by (auto simp: mk_CacheLine_cache_def CacheLine_default_def Let_def full_line_def cl_ok_def)
qed

lemma chunk_offset_align [simp]: "chunk_offset (cacheline_align a) = 0"
proof -
  have "get_cacheline_off (cacheline_align a) = 0"
    unfolding get_cacheline_off_def cacheline_align_def CACHELINE_MASK_mask
    by (rule bit_word_eqI) (auto simp: bit_simps bit_mask_iff)
  then show ?thesis by (simp add: chunk_offset_def)
qed

lemma mk_CacheLine_data_full:
  assumes "16 \<le> length d"
  shows "\<exists>cl. mk_CacheLine_data now (cacheline_align a) d 16 True = Inr cl \<and> full_line cl d"
  using fill_full [OF assms]
  by (auto simp: mk_CacheLine_data_def CacheLine_default_def Let_def full_line_def cl_ok_def)

lemma set_free_prediction_simps [simp]: "chunk_ok (set_free_prediction c) = chunk_ok c"
  "ci_chunkType (set_free_prediction c) = ci_chunkType c" "chunk_data (set_free_prediction c) = chunk_data c"
  "is_free_prediction (set_free_prediction c)"
  by (auto simp: set_free_prediction_def chunk_ok_def chunk_data_def is_free_prediction_def is_flag_set_set)
     (auto simp: is_flag_set_def set_flag_def)

text \<open>The free prediction: the accumulated data where there is some, the cached data elsewhere.\<close>

lemma free_line_ok:
  assumes acc: "cl_ok acc" and c: "full_line cl ds"
  shows "\<exists>f. free_line acc cl = Inr f \<and> cl_ok f \<and> list_all is_free_prediction (cl_dataChunks f) \<and>
    (\<forall>j<16. holds (cl_dataChunks f ! j)
       (if ci_chunkType (cl_dataChunks acc ! j) = CT_DATA then chunk_data (cl_dataChunks acc ! j) else ds ! j))"
proof -
  let ?m = "map2 (\<lambda>s d. if ci_chunkType s = CT_DATA then s else d) (cl_dataChunks acc) (cl_dataChunks cl)"
  have len: "length (cl_dataChunks acc) = 16" "length (cl_dataChunks cl) = 16"
    and ok: "list_all chunk_ok (cl_dataChunks acc)" "list_all chunk_ok (cl_dataChunks cl)"
    using acc c by (auto simp: cl_ok_def full_line_def)
  have "free_line acc cl = Inr (cl\<lparr>cl_dataChunks := map set_free_prediction ?m\<rparr>)"
    using merge_chunks_ok [OF _ ok] len by (simp add: free_line_def overwriteFrom_def)
  moreover have "list_all chunk_ok (map set_free_prediction ?m)"
    using len ok by (auto simp: list_all_length)
  moreover have "list_all is_free_prediction (map set_free_prediction ?m)" by (simp add: list_all_iff)
  moreover have "\<forall>j<16. holds (map set_free_prediction ?m ! j)
       (if ci_chunkType (cl_dataChunks acc ! j) = CT_DATA then chunk_data (cl_dataChunks acc ! j) else ds ! j)"
    using len c by (auto simp: full_line_def)
  ultimately show ?thesis using len by (simp add: cl_ok_def)
qed

lemma free_entry_ok:
  assumes "cl_ok cl" and "list_all is_free_prediction (cl_dataChunks cl)"
  shows "entry_ok (free_entry fc now a cl)"
proof -
  have "list_all gen_ok (cl_dataChunks cl)" using assms by (auto simp: gen_ok_def cl_ok_def list_all_iff)
  then show ?thesis using assms(1)
    by (simp add: entry_ok_def free_entry_def cw_defs mk_CompletedWriteEntry_def is_flag_set_set cl_ok_def)
       (simp add: is_flag_set_def set_flag_def)
qed

section \<open>The accumulator\<close>

definition acc_line :: "Addr_t \<Rightarrow> CacheLine \<Rightarrow> bool" where
  "acc_line a cl = (cl_ok cl \<and> cl_hasAddr cl \<and> cacheline_align (cl_addr cl) = a \<and> cl_hasTimeOfLastUpdate cl)"

definition acc_ok :: "(Addr_t, CacheLine) umap \<Rightarrow> bool" where
  "acc_ok m = (um_wf m \<and> (\<forall>a cl. um_find m a = Some cl \<longrightarrow> acc_line a cl))"

lemma acc_ok_put: "acc_ok m \<Longrightarrow> acc_line a cl \<Longrightarrow> acc_ok (um_put a cl m)"
  by (auto simp: acc_ok_def um_find_put um_wf_intros split: if_splits)

lemma acc_ok_erase: "acc_ok m \<Longrightarrow> acc_ok (um_erase a m)"
  by (auto simp: acc_ok_def um_find_erase um_wf_intros split: if_splits)

lemma acc_ok_member: "acc_ok m \<Longrightarrow> (a, cl) \<in> set m \<Longrightarrow> acc_line a cl"
  by (simp add: acc_ok_def um_find_iff)

subsection \<open>Retiring\<close>

text \<open>Retiring marks lines as clean and changes nothing else.\<close>

definition same_lines :: "(Addr_t, CacheLine) umap \<Rightarrow> (Addr_t, CacheLine) umap \<Rightarrow> bool" where
  "same_lines m m' = (map fst m' = map fst m \<and>
     (\<forall>a. map_option set_clean (um_find m' a) = map_option set_clean (um_find m a)))"

lemma keys_um_put: "um_find m a \<noteq> None \<Longrightarrow> map fst (um_put a v m) = map fst m"
  by (induction m) (auto simp: um_find_def um_put_def)

lemma retire_scan_ok: "list_all (\<lambda>x. acc_line (fst x) (snd x)) m \<Longrightarrow>
    \<exists>q'. fold_res (retire_scan now) m q = Inr q' \<and> set q' \<subseteq> set q \<union> fst ` set m"
proof (induction m arbitrary: q)
  case Nil
  then show ?case by simp
next
  case (Cons x m)
  from Cons.prems obtain t where "get_time_of_last_update (snd x) = Inr t"
    by (auto simp: acc_line_def get_time_of_last_update_def)
  with Cons.IH [of q] Cons.IH [of "q @ [fst x]"] Cons.prems show ?case
    by (auto simp: retire_scan_def)
qed

lemma retire_line_ok:
  assumes w: "world_ok w" and m: "acc_ok m" and a: "um_find m a \<noteq> None" and es: "list_all entry_ok es"
  shows "\<exists>m' es'. retire_line fc w a (m, es) = Inr (m', es') \<and> acc_ok m' \<and> same_lines m m' \<and> list_all entry_ok es'"
proof (cases "translate (w_pageTable w) a")
  case None
  then show ?thesis using m es by (auto simp: retire_line_def same_lines_def)
next
  case (Some paddr)
  obtain cl where cl: "um_find m a = Some cl" using a by auto
  have line: "acc_line a cl" using m cl by (simp add: acc_ok_def)
  have idx: "um_index (CacheLine_default (w_now w)) a m = m" using cl by (simp add: um_index_def um_insert_present)
  show ?thesis
  proof (cases "cl_isDirty cl")
    case False
    then show ?thesis using Some cl idx m es by (auto simp: retire_line_def same_lines_def Let_def)
  next
    case True
    obtain c ds where c: "mk_CacheLine_cache (w_now w) paddr (w_l2 w paddr) (w_fresh w) = Inr c" "full_line c ds"
      using mk_CacheLine_cache_full [OF w] by blast
    obtain f where f: "free_line cl c = Inr f" "cl_ok f" "list_all is_free_prediction (cl_dataChunks f)"
      using free_line_ok [OF _ c(2), of cl] line by (auto simp: acc_line_def)
    have "retire_line fc w a (m, es) = Inr (um_put a (set_clean cl) m, es @ [free_entry fc (w_now w) a f])"
      using Some cl idx True c(1) f(1) by (simp add: retire_line_def Let_def)
    moreover have "acc_line a (set_clean cl)" using line by (auto simp: acc_line_def set_clean_def cl_ok_def)
    then have "acc_ok (um_put a (set_clean cl) m)" using m by (rule acc_ok_put [rotated])
    moreover have "same_lines m (um_put a (set_clean cl) m)"
      using cl by (auto simp: same_lines_def keys_um_put um_find_put set_clean_def)
    ultimately show ?thesis using es free_entry_ok [OF f(2,3)] by auto
  qed
qed

lemma same_lines_trans: "same_lines a b \<Longrightarrow> same_lines b c \<Longrightarrow> same_lines a c"
  by (simp add: same_lines_def)

lemma same_lines_dom: "same_lines m m' \<Longrightarrow> um_find m' a = None \<longleftrightarrow> um_find m a = None"
proof -
  assume "same_lines m m'"
  then have "set (map fst m') = set (map fst m)" by (simp add: same_lines_def)
  then show ?thesis by (simp add: um_find_None)
qed

lemma retire_lines_ok:
  assumes w: "world_ok w" and m: "acc_ok m" and as: "\<forall>a\<in>set as. um_find m a \<noteq> None" and es: "list_all entry_ok es"
  shows "\<exists>m' es'. fold_res (retire_line fc w) as (m, es) = Inr (m', es') \<and> acc_ok m' \<and> same_lines m m' \<and> list_all entry_ok es'"
  using m as es
proof (induction as arbitrary: m es)
  case Nil
  then show ?case by (auto simp: same_lines_def)
next
  case (Cons a as)
  have "um_find m a \<noteq> None" using Cons.prems(2) by simp
  from retire_line_ok [OF w Cons.prems(1) this Cons.prems(3)] obtain m1 es1 where
    1: "retire_line fc w a (m, es) = Inr (m1, es1)" "acc_ok m1" "same_lines m m1" "list_all entry_ok es1" by blast
  have "\<forall>a\<in>set as. um_find m1 a \<noteq> None" using Cons.prems(2) same_lines_dom [OF 1(3)] by auto
  from Cons.IH [OF 1(2) this 1(4)] obtain m2 es2 where
    2: "fold_res (retire_line fc w) as (m1, es1) = Inr (m2, es2)" "acc_ok m2" "same_lines m1 m2" "list_all entry_ok es2" by blast
  then show ?case using 1(1) same_lines_trans [OF 1(3) 2(3)] by simp
qed

lemma send_free_fold: "fold_res (send_free w) es (g, fe) =
    bindE (fold_res (addCompletedWrite (w_now w) (w_meta w) (w_pageTable w)) es g) (\<lambda>g'.
    Inr (g', fe\<lparr>fe_freePredictions := fe_freePredictions fe + length es,
                fe_predictedWriteCount := fe_predictedWriteCount fe + length es\<rparr>))"
proof (induction es arbitrary: g fe)
  case Nil
  then show ?case by simp
next
  case (Cons e es)
  then show ?case by (cases "addCompletedWrite (w_now w) (w_meta w) (w_pageTable w) e g") (auto simp: send_free_def)
qed

text \<open>The front end without the accumulator and the counters that retiring touches.\<close>

lemma retire_tick_ok:
  assumes w: "world_ok w" and m: "acc_ok (fe_cacheLineAccumulator fe)" and g: "sink_inv (w_meta w) g"
  shows "\<exists>g' m' t n k. cachelineAccumulatorRetireTick fc w (g, fe) =
      Inr (g', fe\<lparr>fe_lastAccumulatorRetireTick := t, fe_cacheLineAccumulator := m', fe_freePredictions := n, fe_predictedWriteCount := k\<rparr>) \<and>
    sink_inv (w_meta w) g' \<and> sink_frame g' = sink_frame g \<and> acc_ok m' \<and> same_lines (fe_cacheLineAccumulator fe) m'"
proof -
  let ?m = "fe_cacheLineAccumulator fe"
  show ?thesis
  proof (cases "fc_disableFreePrediction fc \<or> \<not> (w_now w - fe_lastAccumulatorRetireTick fe > ACC_RETIRE_TICK_PERIOD)")
    case True
    then have "cachelineAccumulatorRetireTick fc w (g, fe) = Inr (g, fe)"
      by (auto simp: cachelineAccumulatorRetireTick_def)
    moreover have "same_lines ?m ?m" by (simp add: same_lines_def)
    ultimately show ?thesis
      using g m by (intro exI [of _ g] exI [of _ ?m] exI [of _ "fe_lastAccumulatorRetireTick fe"] exI [of _ "fe_freePredictions fe"]
          exI [of _ "fe_predictedWriteCount fe"]) simp
  next
    case False
    have "list_all (\<lambda>x. acc_line (fst x) (snd x)) ?m" using acc_ok_member [OF m] by (auto simp: list_all_iff)
    from retire_scan_ok [OF this, of "w_now w" "[]"] obtain q where q: "fold_res (retire_scan (w_now w)) ?m [] = Inr q"
      "set q \<subseteq> fst ` set ?m" by auto
    then have "\<forall>a\<in>set q. um_find ?m a \<noteq> None" by (auto simp: um_find_None)
    from retire_lines_ok [OF w m this, of "[]" fc] obtain m' es where r: "fold_res (retire_line fc w) q (?m, []) = Inr (m', es)"
      "acc_ok m'" "same_lines ?m m'" "list_all entry_ok es" by auto
    from sink.send_all [OF r(4) g, of "w_now w" "w_pageTable w"] obtain g' where
      g': "fold_res (addCompletedWrite (w_now w) (w_meta w) (w_pageTable w)) es g = Inr g'" "sink_inv (w_meta w) g'"
      "sink_frame g' = sink_frame g" by blast
    have "cachelineAccumulatorRetireTick fc w (g, fe) = Inr (g', fe\<lparr>fe_lastAccumulatorRetireTick := w_now w,
        fe_cacheLineAccumulator := m', fe_freePredictions := fe_freePredictions fe + length es,
        fe_predictedWriteCount := fe_predictedWriteCount fe + length es\<rparr>)"
      using False q(1) r(1) g'(1) by (simp add: cachelineAccumulatorRetireTick_def send_free_fold)
    then show ?thesis using g' r by blast
  qed
qed

subsection \<open>Eviction\<close>

lemma older_fold:
  "fold older_line m r = (t, a) \<Longrightarrow> t \<le> fst r \<and> (\<forall>x\<in>set m. t \<le> cl_timeOfCreation (snd x)) \<and>
    ((t, a) = r \<or> (\<exists>cl. (a, cl) \<in> set m \<and> cl_timeOfCreation cl = t))"
proof (induction m arbitrary: r)
  case Nil
  then show ?case by simp
next
  case (Cons x m)
  from Cons.IH [of "older_line x r"] Cons.prems show ?case
    by (cases x; cases r) (auto simp: older_line_def get_time_of_creation_def split: if_splits)
qed

text \<open>The line created first goes.\<close>

lemma oldest_line:
  assumes m: "um_wf m" and x: "um_find m b = Some cb" "cl_timeOfCreation cb < - 1"
  shows "\<exists>t a cl. fold older_line m (- 1, - 1) = (t, a) \<and> t \<noteq> - 1 \<and> um_find m a = Some cl \<and> cl_timeOfCreation cl = t \<and>
    (\<forall>c l. um_find m c = Some l \<longrightarrow> t \<le> cl_timeOfCreation l)"
proof -
  obtain t a where ta: "fold older_line m (- 1, - 1) = (t, a)" by fastforce
  note o = older_fold [OF ta]
  have "(b, cb) \<in> set m" using m x(1) by (simp add: um_find_iff)
  then have "t \<le> cl_timeOfCreation cb" using o by fastforce
  then have ne: "t \<noteq> - 1" using x(2) by auto
  then obtain cl where "(a, cl) \<in> set m" "cl_timeOfCreation cl = t" using o by auto
  moreover have "t \<le> cl_timeOfCreation l" if "um_find m c = Some l" for c l
    using that m o by (fastforce simp: um_find_iff)
  ultimately show ?thesis using ta ne m by (auto simp: um_find_iff)
qed

lemma align_not_max: "cacheline_align a \<noteq> - 1"
proof -
  have "\<not> bit (cacheline_align a) 0" by (simp add: cacheline_align_def bit_simps)
  moreover have "bit (- 1 :: 64 word) 0" by simp
  ultimately show ?thesis by metis
qed

lemma SendCacheLineToBackend_ok:
  assumes w: "world_ok w" and cl: "acc_line a cl" and g: "sink_inv (w_meta w) g"
  shows "\<exists>g'. SendCacheLineToBackend fc w cl g = Inr g' \<and> sink_inv (w_meta w) g' \<and> sink_frame g' = sink_frame g"
proof -
  have ad: "get_addr cl = Inr (cl_addr cl)" using cl by (simp add: acc_line_def get_addr_def)
  consider (none) "translate (w_pageTable w) (cl_addr cl) = None"
    | (nob) p where "translate (w_pageTable w) (cl_addr cl) = Some p" "w_blk w p = None"
    | (blk) p d where "translate (w_pageTable w) (cl_addr cl) = Some p" "w_blk w p = Some d" by fastforce
  then show ?thesis
  proof cases
    case none
    then show ?thesis using ad g by (simp add: SendCacheLineToBackend_def)
  next
    case nob
    then show ?thesis using ad g by (simp add: SendCacheLineToBackend_def)
  next
    case blk
    then have "16 \<le> length d" using w by (auto simp: world_ok_def)
    from mk_CacheLine_data_full [OF this] obtain c where
      c: "mk_CacheLine_data (w_now w) (cacheline_align (cl_addr cl)) d 16 True = Inr c" "full_line c d" by blast
    obtain f where f: "free_line cl c = Inr f" "cl_ok f" "list_all is_free_prediction (cl_dataChunks f)"
      using free_line_ok [OF _ c(2), of cl] cl by (auto simp: acc_line_def)
    from sink.send_ok [OF free_entry_ok [OF f(2,3)] g] show ?thesis
      using ad blk c(1) f(1) by (simp add: SendCacheLineToBackend_def)
  qed
qed

text \<open>The accumulator after the line of a store has been entered: nothing else changes, except that the line
  created first may go, and it does when the accumulator would grow beyond its capacity.\<close>

definition made_room :: "FeCfg \<Rightarrow> Addr_t \<Rightarrow> (Addr_t, CacheLine) umap \<Rightarrow> (Addr_t, CacheLine) umap \<Rightarrow> bool" where
  "made_room fc a m m' = (m' = m \<and> length m \<le> fc_CL_ACC_SIZE fc \<or>
     length m = Suc (fc_CL_ACC_SIZE fc) \<and>
     (\<exists>v cl. m' = um_erase v m \<and> v \<noteq> a \<and> um_find m v = Some cl \<and>
        (\<forall>b l. um_find m b = Some l \<longrightarrow> cl_timeOfCreation cl \<le> cl_timeOfCreation l)))"

lemma length_um_erase: "um_wf m \<Longrightarrow> um_find m a \<noteq> None \<Longrightarrow> Suc (length (um_erase a m)) = length m"
proof (induction m)
  case Nil
  then show ?case by simp
next
  case (Cons x m)
  show ?case
  proof (cases "fst x = a")
    case True
    then have "a \<notin> fst ` set m" using Cons.prems(1) by (auto simp: um_wf_def)
    then show ?thesis using True by (cases x) (simp add: um_erase_def delete_idem)
  next
    case False
    then show ?thesis using Cons by (cases x) (simp add: um_erase_def um_wf_def um_find_def)
  qed
qed

lemma enter_line_ok:
  assumes m: "acc_ok m"
  shows "acc_ok (enter_line now vaddr m)" "um_find (enter_line now vaddr m) (cacheline_align vaddr) \<noteq> None"
    "b \<noteq> cacheline_align vaddr \<Longrightarrow> um_find (enter_line now vaddr m) b = um_find m b"
    "length (enter_line now vaddr m) = length m + of_bool (um_find m (cacheline_align vaddr) = None)"
proof -
  let ?a = "cacheline_align vaddr"
  have new: "acc_line ?a (set_time_of_last_update now (set_time_of_creation now (set_addr vaddr (set_dirty (CacheLine_default now)))))"
    using CacheLine_default_ok [of now]
    by (simp add: acc_line_def set_time_of_last_update_def set_time_of_creation_def set_addr_def set_dirty_def cl_ok_def)
  have old: "acc_line ?a cl \<Longrightarrow> acc_line ?a (set_dirty cl)" for cl by (simp add: acc_line_def set_dirty_def cl_ok_def)
  have o: "um_find m ?a = Some cl \<Longrightarrow> acc_line ?a cl" for cl using m by (simp add: acc_ok_def)
  show "acc_ok (enter_line now vaddr m)"
    using m new old o by (auto simp: enter_line_def acc_ok_put split: option.splits)
  have keys: "um_find m ?a \<noteq> None \<Longrightarrow> length (um_put ?a v m) = length m" for v
    using keys_um_put [of m ?a v] by (metis length_map)
  show "um_find (enter_line now vaddr m) ?a \<noteq> None" "b \<noteq> ?a \<Longrightarrow> um_find (enter_line now vaddr m) b = um_find m b"
    "length (enter_line now vaddr m) = length m + of_bool (um_find m ?a = None)"
    using keys by (auto simp: enter_line_def um_find_put length_um_put_fresh split: option.splits)
qed

lemma evict_acc_ok:
  assumes w: "world_ok w" and cl: "um_find (fe_cacheLineAccumulator fe) v = Some cl" "acc_line v cl" and g: "sink_inv (w_meta w) g"
    and lt: "um_has (fe_lastWriteTickToAddr fe) v"
  shows "\<exists>g' k lt xs. evict_acc fc w vaddr v (g, fe) = Inr (g', fe\<lparr>fe_pcAccumulatorEvictions := k, fe_lastWriteTickToAddr := lt,
      fe_clEvicKiloTicksSinceLastWrite := xs, fe_cacheLineAccumulator := um_erase v (fe_cacheLineAccumulator fe)\<rparr>) \<and>
    sink_inv (w_meta w) g' \<and> sink_frame g' = sink_frame g \<and>
    (\<forall>a. um_has (fe_lastWriteTickToAddr fe) a \<longrightarrow> um_has lt a)"
proof -
  let ?l = "um_index 0 vaddr (fe_lastWriteTickToAddr fe)"
  obtain t where t: "um_find ?l vaddr = Some t" by (cases "um_find (fe_lastWriteTickToAddr fe) vaddr") (auto simp: um_find_index)
  obtain g' where g': "SendCacheLineToBackend fc w cl g = Inr g'" "sink_inv (w_meta w) g'" "sink_frame g' = sink_frame g"
    using SendCacheLineToBackend_ok [OF w cl(2) g] by blast
  have "v \<noteq> - 1" using cl(2) align_not_max by (auto simp: acc_line_def)
  then have "evict_acc fc w vaddr v (g, fe) = Inr (g', fe\<lparr>fe_pcAccumulatorEvictions := fe_pcAccumulatorEvictions fe + 1,
      fe_lastWriteTickToAddr := ?l,
      fe_clEvicKiloTicksSinceLastWrite := fe_clEvicKiloTicksSinceLastWrite fe @ [(w_now w - t) div 1000],
      fe_cacheLineAccumulator := um_erase v (fe_cacheLineAccumulator fe)\<rparr>)"
    using lt t cl(1) g'(1) by (simp add: evict_acc_def Let_def)
  moreover have "\<forall>a. um_has (fe_lastWriteTickToAddr fe) a \<longrightarrow> um_has ?l a" by (auto simp: um_has_def um_find_index)
  ultimately show ?thesis using g'(2,3) by blast
qed

lemma manageCachelineAcc_ok:
  assumes w: "world_ok w" and va: "getVaddr (pk_req pkt) = Inr vaddr" and m: "acc_ok (fe_cacheLineAccumulator fe)"
    and g: "sink_inv (w_meta w) g" and cap: "length (fe_cacheLineAccumulator fe) \<le> fc_CL_ACC_SIZE fc" "0 < fc_CL_ACC_SIZE fc"
    and lt: "\<forall>a. um_find (fe_cacheLineAccumulator fe) a \<noteq> None \<longrightarrow> um_has (fe_lastWriteTickToAddr fe) a"
    and old: "\<forall>a cl. um_find (fe_cacheLineAccumulator fe) a = Some cl \<longrightarrow> cl_timeOfCreation cl < w_now w"
  shows "\<exists>g' m' k lt xs. manageCachelineAcc fc w pkt (g, fe) = Inr (g', fe\<lparr>fe_pcAccumulatorEvictions := k,
      fe_lastWriteTickToAddr := lt, fe_clEvicKiloTicksSinceLastWrite := xs, fe_cacheLineAccumulator := m'\<rparr>) \<and>
    made_room fc (cacheline_align vaddr) (enter_line (w_now w) vaddr (fe_cacheLineAccumulator fe)) m' \<and>
    sink_inv (w_meta w) g' \<and> sink_frame g' = sink_frame g \<and>
    (\<forall>a. um_has (fe_lastWriteTickToAddr fe) a \<longrightarrow> um_has lt a)"
proof -
  let ?acc = "fe_cacheLineAccumulator fe" and ?a = "cacheline_align vaddr"
  let ?m = "enter_line (w_now w) vaddr ?acc"
  let ?fe = "fe\<lparr>fe_cacheLineAccumulator := ?m\<rparr>"
  note en = enter_line_ok [OF m, where now = "w_now w" and vaddr = vaddr]
  show ?thesis
  proof (cases "length ?m > fc_CL_ACC_SIZE fc")
    case False
    then have "manageCachelineAcc fc w pkt (g, fe) = Inr (g, ?fe)"
      using va by (simp add: manageCachelineAcc_def Let_def)
    moreover have "made_room fc ?a ?m ?m" using False by (simp add: made_room_def)
    ultimately show ?thesis using g
      by (intro exI [of _ g] exI [of _ ?m] exI [of _ "fe_pcAccumulatorEvictions fe"] exI [of _ "fe_lastWriteTickToAddr fe"]
          exI [of _ "fe_clEvicKiloTicksSinceLastWrite fe"]) simp
  next
    case True
    have fresh: "um_find ?acc ?a = None"
      using True cap(1) en(4) by (cases "um_find ?acc ?a = None") auto
    have len: "length ?m = Suc (fc_CL_ACC_SIZE fc)" "length ?acc = fc_CL_ACC_SIZE fc"
      using True cap(1) en(4) fresh by auto
    obtain b cb where "(b, cb) \<in> set ?acc" using len(2) cap(2) by (cases ?acc) auto
    then have b: "um_find ?acc b = Some cb" using m by (simp add: acc_ok_def um_find_iff)
    have bt: "cl_timeOfCreation cb < w_now w" using old b by blast
    then have bt': "cl_timeOfCreation cb < - 1" using word_order.extremum [of "w_now w"] by (rule less_le_trans)
    have "b \<noteq> ?a" using b fresh by auto
    then have bm: "um_find ?m b = Some cb" using b en(3) by simp
    have "um_wf ?m" using en(1) by (simp add: acc_ok_def)
    from oldest_line [OF this bm bt'] obtain t v cl where v: "fold older_line ?m (- 1, - 1) = (t, v)" "t \<noteq> - 1"
      "um_find ?m v = Some cl" "cl_timeOfCreation cl = t" "\<forall>c l. um_find ?m c = Some l \<longrightarrow> t \<le> cl_timeOfCreation l" by blast
    have newc: "\<exists>l. um_find ?m ?a = Some l \<and> cl_timeOfCreation l = w_now w"
      using fresh by (simp add: enter_line_def um_find_put set_time_of_last_update_def set_time_of_creation_def)
    have "t \<le> cl_timeOfCreation cb" using v(5) bm by blast
    then have va': "v \<noteq> ?a" using newc v(3,4) bt by auto
    then have "um_find ?acc v = Some cl" using v(3) en(3) by simp
    then have has: "um_has (fe_lastWriteTickToAddr ?fe) v" using lt by simp
    have line: "acc_line v cl" using en(1) v(3) by (simp add: acc_ok_def)
    have f: "um_find (fe_cacheLineAccumulator ?fe) v = Some cl" using v(3) by simp
    from evict_acc_ok [OF w f line g has, of fc vaddr] obtain g' k l xs where ev:
      "evict_acc fc w vaddr v (g, ?fe) = Inr (g', ?fe\<lparr>fe_pcAccumulatorEvictions := k, fe_lastWriteTickToAddr := l,
         fe_clEvicKiloTicksSinceLastWrite := xs, fe_cacheLineAccumulator := um_erase v ?m\<rparr>)"
      "sink_inv (w_meta w) g'" "sink_frame g' = sink_frame g" "\<forall>a. um_has (fe_lastWriteTickToAddr fe) a \<longrightarrow> um_has l a" by auto
    have "manageCachelineAcc fc w pkt (g, fe) = Inr (g', fe\<lparr>fe_pcAccumulatorEvictions := k, fe_lastWriteTickToAddr := l,
         fe_clEvicKiloTicksSinceLastWrite := xs, fe_cacheLineAccumulator := um_erase v ?m\<rparr>)"
      using va True v(1,2) ev(1) by (simp add: manageCachelineAcc_def Let_def)
    moreover have "made_room fc ?a ?m (um_erase v ?m)"
      unfolding made_room_def using len v(3-5) va' by blast
    ultimately show ?thesis using ev(2-4) by blast
  qed
qed

subsection \<open>Stores\<close>

text \<open>A store of \<open>src\<close> at chunk \<open>off\<close> turned the line \<open>cl\<close> into \<open>cl'\<close>.\<close>

definition stored :: "PC_t \<Rightarrow> nat \<Rightarrow> DataChunk list \<Rightarrow> CacheLine \<Rightarrow> CacheLine \<Rightarrow> bool" where
  "stored pc off src cl cl' = (cl_ok cl' \<and> cl_timeOfCreation cl' = cl_timeOfCreation cl \<and>
     (\<forall>j<16. if off \<le> j \<and> j < off + length src
        then holds (cl_dataChunks cl' ! j) (src ! (j - off)) \<and> get_generating_pc (cl_dataChunks cl' ! j) = Inr pc
        else cl_dataChunks cl' ! j = cl_dataChunks cl ! j))"

lemma stored_pc_chunk:
  "\<exists>c'. set_data d (set_chunk_type CT_DATA c) = Inr c' \<and> chunk_ok (set_completion True (set_generating_pc pc c')) \<and>
    holds (set_completion True (set_generating_pc pc c')) d \<and>
    get_generating_pc (set_completion True (set_generating_pc pc c')) = Inr pc"
proof -
  obtain c' where c': "set_data d (set_chunk_type CT_DATA c) = Inr c'" "chunk_ok (set_generating_pc pc c')"
    "get_data (set_generating_pc pc c') = Inr d" "get_generating_pc (set_generating_pc pc c') = Inr pc"
    using set_type_data_pc_ok by blast
  then show ?thesis
    by (auto simp: set_completion_def chunk_ok_def get_data_iff chunk_data_def get_generating_pc_def has_generating_pc_def)
qed

lemma stored_Suc:
  assumes s: "stored pc off (take n src) cl u" and n: "n < length src" "off + n < 16"
    and c: "chunk_ok c" "holds c (src ! n)" "get_generating_pc c = Inr pc"
  shows "stored pc off (take (Suc n) src) cl (set_time_of_last_update now (u\<lparr>cl_dataChunks := (cl_dataChunks u)[off + n := c]\<rparr>))"
proof -
  let ?u = "set_time_of_last_update now (u\<lparr>cl_dataChunks := (cl_dataChunks u)[off + n := c]\<rparr>)"
  have u: "length (cl_dataChunks u) = 16" "list_all chunk_ok (cl_dataChunks u)" using s by (auto simp: stored_def cl_ok_def)
  have ch: "cl_dataChunks ?u = (cl_dataChunks u)[off + n := c]" by (simp add: set_time_of_last_update_def)
  have ok: "cl_ok ?u" unfolding cl_ok_def ch using u c(1) n(2) by (auto simp: list_all_length nth_list_update)
  have el: "if off \<le> j \<and> j < off + length (take (Suc n) src)
      then holds (cl_dataChunks ?u ! j) (take (Suc n) src ! (j - off)) \<and> get_generating_pc (cl_dataChunks ?u ! j) = Inr pc
      else cl_dataChunks ?u ! j = cl_dataChunks cl ! j" if j: "j < 16" for j
  proof (cases "j = off + n")
    case True
    then show ?thesis using n u(1) c unfolding ch by simp
  next
    case False
    have q: "if off \<le> j \<and> j < off + n then holds (cl_dataChunks u ! j) (src ! (j - off)) \<and> get_generating_pc (cl_dataChunks u ! j) = Inr pc
        else cl_dataChunks u ! j = cl_dataChunks cl ! j"
      using s j n unfolding stored_def by (auto split: if_splits)
    show ?thesis
    proof (cases "off \<le> j \<and> j < off + n")
      case True
      then have "take (Suc n) src ! (j - off) = src ! (j - off)" by (intro nth_take) linarith
      then show ?thesis using True q n unfolding ch by simp
    next
      case in_range: False
      then have "\<not> (off \<le> j \<and> j < off + length (take (Suc n) src))" using False n by auto
      moreover have "cl_dataChunks ?u ! j = cl_dataChunks cl ! j" using q in_range False unfolding ch by auto
      ultimately show ?thesis by presburger
    qed
  qed
  have "cl_timeOfCreation ?u = cl_timeOfCreation cl" using s by (simp add: stored_def set_time_of_last_update_def)
  then show ?thesis unfolding stored_def using ok el by blast
qed

lemma acc_chunks_ok:
  assumes m: "acc_ok m" and cl: "um_find m a = Some cl" and n: "n \<le> length src" "off + n \<le> 16"
  shows "\<exists>m' cl'. fold_res (acc_chunk now pc src a off) [0..<n] m = Inr m' \<and> acc_ok m' \<and> um_find m' = (um_find m)(a \<mapsto> cl') \<and>
    map fst m' = map fst m \<and> stored pc off (take n src) cl cl'"
  using n
proof (induction n)
  case 0
  have "acc_line a cl" using m cl by (simp add: acc_ok_def)
  then show ?case using m cl by (intro exI [of _ m] exI [of _ cl]) (auto simp: stored_def acc_line_def)
next
  case (Suc n)
  have "n \<le> length src" "off + n \<le> 16" using Suc.prems by auto
  from Suc.IH [OF this] obtain u l where u: "fold_res (acc_chunk now pc src a off) [0..<n] m = Inr u" "acc_ok u" "um_find u = (um_find m)(a \<mapsto> l)"
    "map fst u = map fst m" "stored pc off (take n src) cl l" by blast
  have l: "um_find u a = Some l" by (simp add: u(3))
  then have line: "acc_line a l" using u(2) by (simp add: acc_ok_def)
  obtain c where c: "set_data (src ! n) (set_chunk_type CT_DATA (cl_dataChunks l ! (off + n))) = Inr c"
    "chunk_ok (set_completion True (set_generating_pc pc c))" "holds (set_completion True (set_generating_pc pc c)) (src ! n)"
    "get_generating_pc (set_completion True (set_generating_pc pc c)) = Inr pc" using stored_pc_chunk by blast
  let ?l = "set_time_of_last_update now (l\<lparr>cl_dataChunks := (cl_dataChunks l)[off + n := set_completion True (set_generating_pc pc c)]\<rparr>)"
  have len: "length (cl_dataChunks l) = 16" using line by (simp add: acc_line_def cl_ok_def)
  have "acc_chunk now pc src a off n u = Inr (um_put a ?l u)"
    using Suc.prems l len c(1) by (simp add: acc_chunk_def)
  moreover have st: "stored pc off (take (Suc n) src) cl ?l"
    by (rule stored_Suc [OF u(5) _ _ c(2-4)]) (use Suc.prems in auto)
  moreover have "acc_line a ?l"
    using line st by (auto simp: acc_line_def stored_def set_time_of_last_update_def)
  moreover have "um_find (um_put a ?l u) = (um_find m)(a \<mapsto> ?l)" unfolding um.find_put u(3) by simp
  moreover have "map fst (um_put a ?l u) = map fst m" using keys_um_put [of u a ?l] l u(4) by simp
  moreover have "fold_res (acc_chunk now pc src a off) [0..<Suc n] m = Inr (um_put a ?l u)"
    using u(1) calculation(1) by (simp add: fold_res_append)
  ultimately show ?case using acc_ok_put [OF u(2)] by blast
qed

text \<open>What a store does to the lines: \<open>a\<close> is its line, and \<open>v\<close> the one line that may go.\<close>

definition acc_step :: "Addr_t \<Rightarrow> PC_t \<Rightarrow> nat \<Rightarrow> DataChunk list \<Rightarrow> (Addr_t, CacheLine) umap \<Rightarrow> (Addr_t, CacheLine) umap \<Rightarrow> bool" where
  "acc_step a pc off src m m' = (
     (\<exists>cl. um_find m' a = Some cl \<and>
        (\<forall>j<16. if off \<le> j \<and> j < off + length src
           then holds (cl_dataChunks cl ! j) (src ! (j - off)) \<and> get_generating_pc (cl_dataChunks cl ! j) = Inr pc
           else cl_dataChunks cl ! j = (case um_find m a of None \<Rightarrow> ChunkInfo_default | Some l \<Rightarrow> cl_dataChunks l ! j))) \<and>
     (\<exists>v. v \<noteq> a \<and> (\<forall>b. b \<noteq> a \<and> b \<noteq> v \<longrightarrow> map_option set_clean (um_find m' b) = map_option set_clean (um_find m b)) \<and>
        (map_option set_clean (um_find m' v) = map_option set_clean (um_find m v) \<or>
         um_find m' v = None \<and> (\<exists>cl. um_find m v = Some cl \<and>
           (\<forall>b l. um_find m b = Some l \<longrightarrow> cl_timeOfCreation cl \<le> cl_timeOfCreation l)))))"

lemma set_clean_eq: "set_clean x = set_clean y \<Longrightarrow> cl_dataChunks x = cl_dataChunks y \<and> cl_timeOfCreation x = cl_timeOfCreation y"
  by (cases x; cases y) (simp add: set_clean_def)

lemma same_lines_Some: "same_lines m m' \<Longrightarrow> um_find m' a = Some l' \<Longrightarrow>
    \<exists>l. um_find m a = Some l \<and> cl_dataChunks l = cl_dataChunks l' \<and> cl_timeOfCreation l = cl_timeOfCreation l'"
  unfolding same_lines_def using set_clean_eq by (metis (no_types, lifting) map_option_eq_Some)

lemma same_lines_sym: "same_lines m m' \<Longrightarrow> same_lines m' m"
  by (simp add: same_lines_def)

lemma enter_line_chunks:
  assumes "um_find (enter_line now vaddr m) (cacheline_align vaddr) = Some cl"
  shows "cl_dataChunks cl = (case um_find m (cacheline_align vaddr) of None \<Rightarrow> replicate 16 ChunkInfo_default | Some l \<Rightarrow> cl_dataChunks l)"
  using assms
  by (auto simp: enter_line_def um_find_put set_dirty_def set_time_of_last_update_def set_time_of_creation_def set_addr_def
      CacheLine_default_def split: option.splits)

lemma acc_step_compose:
  assumes r: "same_lines m m1" and room: "made_room fc a (enter_line now vaddr m1) m2" and a: "a = cacheline_align vaddr"
    and cl: "um_find m2 a = Some cl" and m3: "um_find m3 = (um_find m2)(a \<mapsto> cl')" and st: "stored pc off src cl cl'"
    and m1: "acc_ok m1"
  shows "acc_step a pc off src m m3"
proof -
  let ?e = "enter_line now vaddr m1"
  have other: "um_find ?e b = um_find m1 b" if "b \<noteq> a" for b using that enter_line_ok(3) [OF m1] by (simp add: a)
  have cl_e: "um_find ?e a = Some cl" using room cl by (auto simp: made_room_def um_find_erase)
  have ch: "cl_dataChunks cl ! j = (case um_find m a of None \<Rightarrow> ChunkInfo_default | Some l \<Rightarrow> cl_dataChunks l ! j)" if j: "j < 16" for j
  proof (cases "um_find m1 a")
    case None
    then show ?thesis using enter_line_chunks [of now vaddr m1 cl] cl_e j same_lines_dom [OF r, of a] by (simp add: a)
  next
    case (Some l)
    from same_lines_Some [OF r Some] enter_line_chunks [of now vaddr m1 cl] cl_e Some show ?thesis by (auto simp: a)
  qed
  have "\<exists>cl. um_find m3 a = Some cl \<and>
      (\<forall>j<16. if off \<le> j \<and> j < off + length src
         then holds (cl_dataChunks cl ! j) (src ! (j - off)) \<and> get_generating_pc (cl_dataChunks cl ! j) = Inr pc
         else cl_dataChunks cl ! j = (case um_find m a of None \<Rightarrow> ChunkInfo_default | Some l \<Rightarrow> cl_dataChunks l ! j))"
    using st ch unfolding stored_def by (intro exI [of _ cl']) (simp add: m3)
  moreover have "\<exists>v. v \<noteq> a \<and> (\<forall>b. b \<noteq> a \<and> b \<noteq> v \<longrightarrow> map_option set_clean (um_find m3 b) = map_option set_clean (um_find m b)) \<and>
      (map_option set_clean (um_find m3 v) = map_option set_clean (um_find m v) \<or>
       um_find m3 v = None \<and> (\<exists>cl. um_find m v = Some cl \<and>
         (\<forall>b l. um_find m b = Some l \<longrightarrow> cl_timeOfCreation cl \<le> cl_timeOfCreation l)))"
    using room unfolding made_room_def
  proof (elim disjE conjE exE)
    assume "m2 = ?e"
    then have "map_option set_clean (um_find m3 b) = map_option set_clean (um_find m b)" if "b \<noteq> a" for b
      using that other r by (simp add: m3 same_lines_def)
    moreover obtain v where "v \<noteq> a" by (metis add_cancel_left_right zero_neq_one)
    ultimately show ?thesis by blast
  next
    fix v lv
    assume v: "m2 = um_erase v ?e" "v \<noteq> a" "um_find ?e v = Some lv"
      "\<forall>b l. um_find ?e b = Some l \<longrightarrow> cl_timeOfCreation lv \<le> cl_timeOfCreation l"
    have o: "map_option set_clean (um_find m3 b) = map_option set_clean (um_find m b)" if "b \<noteq> a" "b \<noteq> v" for b
      using that other r v(1) by (simp add: m3 um_find_erase same_lines_def)
    have none: "um_find m3 v = None" using v(1,2) by (simp add: m3 um_find_erase)
    have "um_find m1 v = Some lv" using v(2,3) other by simp
    from same_lines_Some [OF r this] obtain l0 where l0: "um_find m v = Some l0" "cl_timeOfCreation l0 = cl_timeOfCreation lv" by auto
    have "cl_timeOfCreation l0 \<le> cl_timeOfCreation l" if f: "um_find m b = Some l" for b l
    proof -
      obtain l1 where l1: "um_find m1 b = Some l1" "cl_timeOfCreation l1 = cl_timeOfCreation l"
        using same_lines_Some [OF same_lines_sym [OF r] f] by auto
      obtain l2 where "um_find ?e b = Some l2" "cl_timeOfCreation l2 = cl_timeOfCreation l1"
        using l1(1) other [of b] by (cases "b = a") (auto simp: a enter_line_def um_find_put set_dirty_def)
      then show ?thesis using v(4) l0(2) l1(2) by metis
    qed
    then show ?thesis using o none l0(1) v(2) by blast
  qed
  ultimately show ?thesis unfolding acc_step_def by blast
qed

text \<open>What a store to persistent memory leaves alone.\<close>

definition store_frame :: "Frontend \<Rightarrow> Frontend \<Rightarrow> bool" where
  "store_frame fe fe' = (fe_writeHistoryBuffer fe' = fe_writeHistoryBuffer fe \<and> fe_predictorTable fe' = fe_predictorTable fe \<and>
     fe_pendingTable fe' = fe_pendingTable fe \<and> fe_parents fe' = fe_parents fe \<and> fe_nextParent fe' = fe_nextParent fe \<and>
     fe_addrPredictor fe' = fe_addrPredictor fe \<and>
     (\<forall>a. um_has (fe_lastWriteTickToAddr fe) a \<longrightarrow> um_has (fe_lastWriteTickToAddr fe') a))"

lemma enter_line_times:
  assumes "\<forall>a cl. um_find m a = Some cl \<longrightarrow> cl_timeOfCreation cl < now"
    and "um_find (enter_line now vaddr m) b = Some cl"
  shows "cl_timeOfCreation cl \<le> now"
proof -
  have "cl_timeOfCreation l \<le> now" if "um_find m a = Some l" for a l using assms(1) that by (blast intro: less_imp_le)
  then show ?thesis using assms(2)
    by (auto simp: enter_line_def um_find_put set_dirty_def set_time_of_last_update_def set_time_of_creation_def
        split: option.splits if_splits)
qed

lemma accumulate_store_run:
  assumes p: "store_pkt pkt pc vaddr src" and w: "world_ok w" and m: "acc_ok (fe_cacheLineAccumulator fe)"
    and g: "sink_inv (w_meta w) g" and cap: "length (fe_cacheLineAccumulator fe) \<le> fc_CL_ACC_SIZE fc" "0 < fc_CL_ACC_SIZE fc"
    and lt: "\<forall>a. um_find (fe_cacheLineAccumulator fe) a \<noteq> None \<longrightarrow> um_has (fe_lastWriteTickToAddr fe) a"
    and old: "\<forall>a cl. um_find (fe_cacheLineAccumulator fe) a = Some cl \<longrightarrow> cl_timeOfCreation cl < w_now w"
  shows "\<exists>g' fe'. accumulate_store fc w pkt (g, fe) = Inr (g', fe') \<and> sink_inv (w_meta w) g' \<and> sink_frame g' = sink_frame g \<and>
    acc_ok (fe_cacheLineAccumulator fe') \<and> length (fe_cacheLineAccumulator fe') \<le> fc_CL_ACC_SIZE fc \<and>
    acc_step (cacheline_align vaddr) pc (chunk_offset vaddr) src (fe_cacheLineAccumulator fe) (fe_cacheLineAccumulator fe') \<and>
    store_frame fe fe' \<and> (\<forall>a cl. um_find (fe_cacheLineAccumulator fe') a = Some cl \<longrightarrow> cl_timeOfCreation cl \<le> w_now w)"
proof -
  let ?a = "cacheline_align vaddr" and ?m = "fe_cacheLineAccumulator fe"
  note rd = store_pkt_reads [OF p]
  obtain len where len: "getSize pkt = Inr len" "len div 4 = length src" using p by (auto simp: store_pkt_def)
  define fe1 where "fe1 = (let fe1 = fe\<lparr>fe_pmStores := fe_pmStores fe + 1\<rparr> in
     if fe_lastAlignedPMAddr fe \<noteq> ?a
     then fe1\<lparr>fe_lastAlignedPMAddr := ?a, fe_addrChangesSinceClwb := fe_addrChangesSinceClwb fe + 1\<rparr> else fe1)"
  have f1: "fe_cacheLineAccumulator fe1 = ?m" "fe_lastWriteTickToAddr fe1 = fe_lastWriteTickToAddr fe"
    by (auto simp: fe1_def Let_def)
  from retire_tick_ok [OF w _ g, of fe1 fc] m f1(1) obtain g1 m1 t n k where
    r: "cachelineAccumulatorRetireTick fc w (g, fe1) = Inr (g1, fe1\<lparr>fe_lastAccumulatorRetireTick := t,
          fe_cacheLineAccumulator := m1, fe_freePredictions := n, fe_predictedWriteCount := k\<rparr>)"
      "sink_inv (w_meta w) g1" "sink_frame g1 = sink_frame g" "acc_ok m1" "same_lines ?m m1" by auto
  let ?fe2 = "fe1\<lparr>fe_lastAccumulatorRetireTick := t, fe_cacheLineAccumulator := m1, fe_freePredictions := n, fe_predictedWriteCount := k\<rparr>"
  have len1: "length m1 = length ?m" using r(5) by (metis same_lines_def length_map)
  have lt1: "\<forall>a. um_find (fe_cacheLineAccumulator ?fe2) a \<noteq> None \<longrightarrow> um_has (fe_lastWriteTickToAddr ?fe2) a"
    using lt same_lines_dom [OF r(5)] f1(2) by auto
  have old1: "\<forall>a cl. um_find (fe_cacheLineAccumulator ?fe2) a = Some cl \<longrightarrow> cl_timeOfCreation cl < w_now w"
    using old same_lines_Some [OF r(5)] by fastforce
  have acc2: "acc_ok (fe_cacheLineAccumulator ?fe2)" "length (fe_cacheLineAccumulator ?fe2) \<le> fc_CL_ACC_SIZE fc"
    using r(4) len1 cap by auto
  from manageCachelineAcc_ok [OF w rd(6) acc2(1) r(2) acc2(2) cap(2) lt1 old1] obtain g2 m2 k2 lt2 xs where
    mg: "manageCachelineAcc fc w pkt (g1, ?fe2) = Inr (g2, ?fe2\<lparr>fe_pcAccumulatorEvictions := k2, fe_lastWriteTickToAddr := lt2,
          fe_clEvicKiloTicksSinceLastWrite := xs, fe_cacheLineAccumulator := m2\<rparr>)"
      "made_room fc ?a (enter_line (w_now w) vaddr m1) m2" "sink_inv (w_meta w) g2" "sink_frame g2 = sink_frame g1"
      "\<forall>a. um_has (fe_lastWriteTickToAddr fe) a \<longrightarrow> um_has lt2 a" using f1(2) by auto
  note en = enter_line_ok [OF r(4), where now = "w_now w" and vaddr = vaddr]
  have m2: "acc_ok m2" using mg(2) en(1) by (auto simp: made_room_def intro: acc_ok_erase)
  have wf: "um_wf (enter_line (w_now w) vaddr m1)" using en(1) by (simp add: acc_ok_def)
  have len2: "length m2 \<le> fc_CL_ACC_SIZE fc"
    using mg(2) length_um_erase [OF wf] unfolding made_room_def by (metis Suc_inject le_refl option.distinct(1))
  obtain cl where cl: "um_find m2 ?a = Some cl"
    using mg(2) en(2) by (auto simp: made_room_def um_find_erase)
  from acc_chunks_ok [OF m2 cl _ rd(9), of src "w_now w" pc] obtain m3 cl' where
    c: "fold_res (acc_chunk (w_now w) pc src ?a (chunk_offset vaddr)) [0..<length src] m2 = Inr m3" "acc_ok m3"
      "um_find m3 = (um_find m2)(?a \<mapsto> cl')" "map fst m3 = map fst m2" "stored pc (chunk_offset vaddr) src cl cl'" by auto
  let ?fe3 = "?fe2\<lparr>fe_pcAccumulatorEvictions := k2, fe_lastWriteTickToAddr := lt2,
      fe_clEvicKiloTicksSinceLastWrite := xs, fe_cacheLineAccumulator := m3\<rparr>"
  have fold1: "(let fe = fe; fe1 = fe\<lparr>fe_pmStores := fe_pmStores fe + 1\<rparr>;
      fe2 = (if fe_lastAlignedPMAddr fe \<noteq> ?a
                then fe1\<lparr>fe_lastAlignedPMAddr := ?a, fe_addrChangesSinceClwb := fe_addrChangesSinceClwb fe + 1\<rparr> else fe1) in f fe2) = f fe1" for f
    by (simp add: fe1_def Let_def)
  have "accumulate_store fc w pkt (g, fe) = Inr (g2, ?fe3)"
    unfolding accumulate_store_def fst_conv snd_conv rd(6) bindE_simps fold1
    using r(1) mg(1) rd len c(1) by simp
  moreover have "length m3 = length m2" using c(4) by (metis length_map)
  moreover have "store_frame fe ?fe3" using mg(5) by (auto simp: store_frame_def fe1_def Let_def)
  moreover have "cl_timeOfCreation l \<le> w_now w" if "um_find m3 b = Some l" for b l
  proof -
    have "cl_timeOfCreation l' \<le> w_now w" if "um_find m2 b = Some l'" for b l'
      using mg(2) that enter_line_times [of m1 "w_now w" vaddr b l'] old1
      by (auto simp: made_room_def um_find_erase split: if_splits)
    then show ?thesis using that c(3,5) cl by (auto simp: stored_def split: if_splits)
  qed
  ultimately show ?thesis
    using mg(3,4) r(3) c(2) len2 acc_step_compose [OF r(5) mg(2) refl cl c(3,5) r(4)] by auto
qed

section \<open>Properties\<close>

text \<open>C18: Recording a store that lies inside a line never fails.  The history keeps its order and its bound:
  it drops its oldest write when it is full.  The new entry carries the program counter, the tick, the
  size and the hash of the path that led to the store, and holds exactly the chunks of the store, at their place in
  the line.\<close>

theorem history_records_store:
  assumes "store_pkt pkt pc vaddr src" and "history_ok (fe_writeHistoryBuffer fe)"
    and "\<forall>w\<in>set (fq_queue (fe_writeHistoryBuffer fe)). whb_genTick w \<le> now"
    and "sq_inv (prt_pathHistory (fe_predictorTable fe))" and "sq_sz (prt_pathHistory (fe_predictorTable fe)) \<le> 64"
  shows "\<exists>q e. updateWriteHistoryBuffer now pkt fe = Inr (fe\<lparr>fe_writeHistoryBuffer := q\<rparr>) \<and> history_ok q \<and>
    fq_queue q = last_n (fq_sz (fe_writeHistoryBuffer fe)) (fq_queue (fe_writeHistoryBuffer fe) @ [e]) \<and>
    fq_sz q = fq_sz (fe_writeHistoryBuffer fe) \<and>
    whb_pc e = pc \<and> whb_genTick e = now \<and> \<not> whb_isUsed e \<and> whb_size e = Some (of_nat (length src)) \<and>
    whb_pathHash e = horner_hash (sq_queue (prt_pathHistory (fe_predictorTable fe))) \<and>
    (\<forall>j<16. if chunk_offset vaddr \<le> j \<and> j < chunk_offset vaddr + length src
       then holds (cl_dataChunks (whb_cacheLine e) ! j) (src ! (j - chunk_offset vaddr))
       else cl_dataChunks (whb_cacheLine e) ! j = ChunkInfo_default)"
  by (rule updateWriteHistoryBuffer_ok [OF assms])

definition example_fecfg :: FeCfg where
  "example_fecfg = \<lparr>fc_CL_ACC_SIZE = 1, fc_disablePerPCConfidence = False, fc_disableFreePrediction = False,
     fc_disableFancyAddrPred = False, fc_enableVolatileDump = [], fc_freeWriteHash = 77, fc_shl32 = (\<lambda>x. x), fc_pt = example_ptcfg\<rparr>"

definition example_frontend :: Frontend where
  "example_frontend = mk_Frontend example_fecfg ''pf'' 2 (mk_PendingTable ''pend'' 4 (\<lambda>_. None))"

definition example_world :: "Tick \<Rightarrow> World" where
  "example_world now = \<lparr>w_now = now, w_meta = example_cfg, w_pageTable = empty_4k, w_l2 = (\<lambda>_. None), w_blk = (\<lambda>_. None),
     w_fresh = replicate 16 0\<rparr>"

lemma example_store: "chunk_offset va + length ds \<le> 16 \<Longrightarrow> store_pkt (example_pkt va ds) 0x400123 va ds"
  by (simp add: store_pkt_def example_pkt_def packet_defs isMaskedWrite_def isWrite_def hasData_def testCmdAttrib_def)

lemma example_frontend_ok: "history_ok (fe_writeHistoryBuffer example_frontend)" "fq_queue (fe_writeHistoryBuffer example_frontend) = []"
  "prt_inv (fe_predictorTable example_frontend)" "acc_ok (fe_cacheLineAccumulator example_frontend)"
proof -
  show "prt_inv (fe_predictorTable example_frontend)"
    using mk_PredictorTable_inv [of example_ptcfg]
    by (simp add: example_frontend_def mk_Frontend_def example_fecfg_def example_ptcfg_def)
  show "fq_queue (fe_writeHistoryBuffer example_frontend) = []"
    by (simp add: example_frontend_def mk_Frontend_def mk_FixedSizeQueue_def)
  then show "history_ok (fe_writeHistoryBuffer example_frontend)"
    using mk_FixedSizeQueue_inv [of 2 "''pf.whb''"] by (simp add: example_frontend_def mk_Frontend_def history_ok_def)
qed (simp add: example_frontend_def mk_Frontend_def acc_ok_def)

theorem history_records_store_witness:
  "\<exists>q e. updateWriteHistoryBuffer 9 (example_pkt 0x10000001008 [5, 6]) example_frontend =
       Inr (example_frontend\<lparr>fe_writeHistoryBuffer := q\<rparr>) \<and> fq_queue q = [e] \<and> whb_pc e = 0x400123 \<and> whb_genTick e = 9 \<and>
     holds (cl_dataChunks (whb_cacheLine e) ! 2) 5 \<and> holds (cl_dataChunks (whb_cacheLine e) ! 3) 6 \<and>
     cl_dataChunks (whb_cacheLine e) ! 4 = ChunkInfo_default"
proof -
  have off: "chunk_offset 0x10000001008 = 2" by code_simp
  have p: "store_pkt (example_pkt 0x10000001008 [5, 6]) 0x400123 0x10000001008 [5, 6]"
    by (rule example_store) (simp add: off)
  have inv: "sq_inv (prt_pathHistory (fe_predictorTable example_frontend))" "sq_sz (prt_pathHistory (fe_predictorTable example_frontend)) \<le> 64"
    using example_frontend_ok(3) by (simp_all add: prt_inv_def)
  have "\<forall>w\<in>set (fq_queue (fe_writeHistoryBuffer example_frontend)). whb_genTick w \<le> 9" by (simp add: example_frontend_ok(2))
  from history_records_store [OF p example_frontend_ok(1) this inv] obtain q e where
    q: "updateWriteHistoryBuffer 9 (example_pkt 0x10000001008 [5, 6]) example_frontend = Inr (example_frontend\<lparr>fe_writeHistoryBuffer := q\<rparr>)"
      "fq_queue q = last_n (fq_sz (fe_writeHistoryBuffer example_frontend)) [e]" "whb_pc e = 0x400123" "whb_genTick e = 9"
    and ch: "\<forall>j<16. if 2 \<le> j \<and> j < 4
       then holds (cl_dataChunks (whb_cacheLine e) ! j) ([5, 6] ! (j - 2))
       else cl_dataChunks (whb_cacheLine e) ! j = ChunkInfo_default"
    unfolding example_frontend_ok(2) off by auto
  have "fq_sz (fe_writeHistoryBuffer example_frontend) = 2"
    by (simp add: example_frontend_def mk_Frontend_def mk_FixedSizeQueue_def)
  then have "fq_queue q = [e]" using q(2) by simp
  moreover have "holds (cl_dataChunks (whb_cacheLine e) ! 2) 5" "holds (cl_dataChunks (whb_cacheLine e) ! 3) 6"
    "cl_dataChunks (whb_cacheLine e) ! 4 = ChunkInfo_default"
    using ch [rule_format, of 2] ch [rule_format, of 3] ch [rule_format, of 4] by simp_all
  ultimately show ?thesis using q by blast
qed

text \<open>C17: A store to persistent memory never aborts and keeps the accumulator well-formed and within its
  capacity.  Its data replace the chunks it covers in its own line; the other chunks of that line, and the
  lines that stay, keep their contents.  At most one other line goes, and then it is one created before all
  others; the predictions made on the way are all taken by the back end, whose invariant holds.\<close>

theorem store_accumulated:
  assumes p: "store_pkt pkt pc vaddr src" and w: "world_ok w" and m: "acc_ok (fe_cacheLineAccumulator fe)"
    and g: "sink_inv (w_meta w) g" and cap: "length (fe_cacheLineAccumulator fe) \<le> fc_CL_ACC_SIZE fc" "0 < fc_CL_ACC_SIZE fc"
    and lt: "\<forall>a. um_find (fe_cacheLineAccumulator fe) a \<noteq> None \<longrightarrow> um_has (fe_lastWriteTickToAddr fe) a"
    and old: "\<forall>a cl. um_find (fe_cacheLineAccumulator fe) a = Some cl \<longrightarrow> cl_timeOfCreation cl < w_now w"
  shows "\<exists>g' fe'. accumulate_store fc w pkt (g, fe) = Inr (g', fe') \<and> sink_inv (w_meta w) g' \<and>
    acc_ok (fe_cacheLineAccumulator fe') \<and> length (fe_cacheLineAccumulator fe') \<le> fc_CL_ACC_SIZE fc \<and>
    acc_step (cacheline_align vaddr) pc (chunk_offset vaddr) src (fe_cacheLineAccumulator fe) (fe_cacheLineAccumulator fe')"
  using accumulate_store_run [OF assms] by blast

definition example_acc :: Frontend where
  "example_acc = example_frontend\<lparr>
     fe_cacheLineAccumulator := [(0x10000002000, set_time_of_last_update 3 (set_addr 0x10000002000 (CacheLine_default 3)))],
     fe_lastWriteTickToAddr := [(0x10000002000, 3)]\<rparr>"

theorem store_accumulated_witness:
  "\<exists>g' fe' cl. accumulate_store example_fecfg (example_world 9) (example_pkt 0x10000001008 [5, 6]) (Globals_init, example_acc) = Inr (g', fe') \<and>
     length (fe_cacheLineAccumulator fe') \<le> 1 \<and> um_find (fe_cacheLineAccumulator fe') 0x10000001000 = Some cl \<and>
     holds (cl_dataChunks cl ! 2) 5 \<and> holds (cl_dataChunks cl ! 3) 6 \<and> cl_dataChunks cl ! 4 = ChunkInfo_default"
proof -
  have off: "chunk_offset 0x10000001008 = 2" and al: "cacheline_align 0x10000001008 = 0x10000001000"
    and al2: "cacheline_align 0x10000002000 = 0x10000002000" by code_simp+
  have p: "store_pkt (example_pkt 0x10000001008 [5, 6]) 0x400123 0x10000001008 [5, 6]"
    by (rule example_store) (simp add: off)
  have w: "world_ok (example_world 9)" by (simp add: world_ok_def example_world_def)
  have line: "acc_line 0x10000002000 (set_time_of_last_update 3 (set_addr 0x10000002000 (CacheLine_default 3)))"
    using CacheLine_default_ok [of 3] al2 by (simp add: acc_line_def set_time_of_last_update_def set_addr_def cl_ok_def)
  have acc: "fe_cacheLineAccumulator example_acc = [(0x10000002000, set_time_of_last_update 3 (set_addr 0x10000002000 (CacheLine_default 3)))]"
    "fe_lastWriteTickToAddr example_acc = [(0x10000002000, 3)]" by (simp_all add: example_acc_def)
  have m: "acc_ok (fe_cacheLineAccumulator example_acc)" using line by (simp add: acc acc_ok_def um_wf_def um_find_def)
  have g: "sink_inv (w_meta (example_world 9)) Globals_init"
    by (simp add: sink_inv_def example_world_def example_cfg_ok be_inv_def Globals_init_def learn_ok_def conf_table_ok_def pc_conf_ok_def tracker_ok_def)
  have c: "length (fe_cacheLineAccumulator example_acc) \<le> fc_CL_ACC_SIZE example_fecfg" "0 < fc_CL_ACC_SIZE example_fecfg"
    "fc_CL_ACC_SIZE example_fecfg = 1" by (simp_all add: acc example_fecfg_def)
  have lt: "\<forall>a. um_find (fe_cacheLineAccumulator example_acc) a \<noteq> None \<longrightarrow> um_has (fe_lastWriteTickToAddr example_acc) a"
    by (simp add: acc um_has_def um_find_def)
  have old: "\<forall>a cl. um_find (fe_cacheLineAccumulator example_acc) a = Some cl \<longrightarrow> cl_timeOfCreation cl < w_now (example_world 9)"
    by (simp add: acc um_find_def example_world_def set_time_of_last_update_def set_addr_def CacheLine_default_def)
  from store_accumulated [OF p w m g c(1,2) lt old] obtain g' fe' where
    r: "accumulate_store example_fecfg (example_world 9) (example_pkt 0x10000001008 [5, 6]) (Globals_init, example_acc) = Inr (g', fe')"
      "length (fe_cacheLineAccumulator fe') \<le> 1" "acc_step 0x10000001000 0x400123 2 [5, 6] (fe_cacheLineAccumulator example_acc) (fe_cacheLineAccumulator fe')"
    unfolding off al c(3) by blast
  from r(3) obtain cl where cl: "um_find (fe_cacheLineAccumulator fe') 0x10000001000 = Some cl"
    "\<forall>j<16. if 2 \<le> j \<and> j < 2 + length [5, 6 :: DataChunk]
       then holds (cl_dataChunks cl ! j) ([5, 6] ! (j - 2)) \<and> get_generating_pc (cl_dataChunks cl ! j) = Inr 0x400123
       else cl_dataChunks cl ! j = (case um_find (fe_cacheLineAccumulator example_acc) 0x10000001000 of None \<Rightarrow> ChunkInfo_default | Some l \<Rightarrow> cl_dataChunks l ! j)"
    unfolding acc_step_def by blast
  have "holds (cl_dataChunks cl ! 2) 5" "holds (cl_dataChunks cl ! 3) 6" "cl_dataChunks cl ! 4 = ChunkInfo_default"
    using cl(2) [rule_format, of 2] cl(2) [rule_format, of 3] cl(2) [rule_format, of 4] by (simp_all add: acc um_find_def)
  then show ?thesis using r(1,2) cl(1) by blast
qed

end
