(* ===== verification/Frontend_Learning.thy ===== *)
theory Frontend_Learning
  imports Frontend
begin

text \<open>
  Training, in \<open>predictor_frontend.cc\<close>: \<open>processLastAccLine\<close> searches the write history for the writes
  that produced the address and every chunk of a line being written back, and enters what it found in the
  predictor table; \<open>handleNonVolatileWrite\<close> calls it.
\<close>

section \<open>Scanning the history\<close>

record LearnState =
  ls_addrPredFound :: bool
  ls_dataPredFound :: bool
  ls_hashQueue :: "hash_t list"
  ls_entry :: PredictorTableEntry
  ls_cnt :: nat
  ls_lastTick :: Tick
  ls_set_2 :: bool
  ls_usedWHBIndices :: "nat list"
  ls_pcCaptureDistance :: "nat list"

definition LearnState_init :: "PTCfg \<Rightarrow> Tick \<Rightarrow> LearnState" where
  "LearnState_init cfg now = \<lparr>ls_addrPredFound = False, ls_dataPredFound = False, ls_hashQueue = [],
     ls_entry = mk_PTE cfg now, ls_cnt = 0, ls_lastTick = 0, ls_set_2 = False, ls_usedWHBIndices = [],
     ls_pcCaptureDistance = []\<rparr>"

text \<open>The program counter is not known to mispredict, and the entry was not used before.\<close>

definition whb_usable :: "FeCfg \<Rightarrow> Globals \<Rightarrow> WriteHistoryBufferEntry \<Rightarrow> bool res" where
  "whb_usable fc g w =
     bindE (case um_find (g_genPCConf g) (whb_get_pc w) of
              None \<Rightarrow> Inr True
            | Some c \<Rightarrow> bindE (conf_get c) (\<lambda>n. Inr (n \<ge> 5 \<or> fc_disablePerPCConfidence fc))) (\<lambda>b.
     Inr (b \<and> \<not> whb_is_used w))"

definition use_index :: "LearnState \<Rightarrow> nat list" where
  "use_index s = (if ls_cnt s \<in> set (ls_usedWHBIndices s) then ls_usedWHBIndices s
                  else ls_usedWHBIndices s @ [ls_cnt s])"

text \<open>The two halves of the target are 32 bits wide, and so is their sum.\<close>

definition learned_addr_chunk :: "FeCfg \<Rightarrow> int \<Rightarrow> WriteHistoryBufferEntry \<Rightarrow> ChunkInfo res" where
  "learned_addr_chunk fc addrOffset w =
     (let cl = whb_get_cacheline w in
      bindE (assertE (whb_get_pc w \<noteq> 0) ''Trying to set 0 as pc'') (\<lambda>_.
      bindE (find_first_valid_index cl) (\<lambda>f.
      bindE (mk_ChunkInfo (whb_get_pc w) (word_of_int addrOffset - f) True CT_ADDR) (\<lambda>c.
      bindE (bindE (arr_get (cl_dataChunks cl) (nat addrOffset)) get_data) (\<lambda>x.
      bindE (bindE (arr_get (cl_dataChunks cl) (nat addrOffset + 1)) get_data) (\<lambda>y.
      bindE (set_target_addr (cacheline_align (ucast (x + fc_shl32 fc y))) c) (\<lambda>c1.
      bindE (whb_get_gen_tick w) (\<lambda>t.
      Inr (set_generating_pc (whb_get_pc w) (set_gen_pc_in_tick t c1))))))))))"

definition learn_addr :: "FeCfg \<Rightarrow> whb \<Rightarrow> Addr_t \<Rightarrow> WriteHistoryBufferEntry \<Rightarrow> LearnState \<Rightarrow> LearnState res" where
  "learn_addr fc q destAddr w s =
     (if ls_addrPredFound s then Inr s
      else bindE (get_addr_offset (whb_get_cacheline w) destAddr True) (\<lambda>addrOffset.
        if addrOffset = - 1 then Inr s
        else bindE (fq_get_size q) (\<lambda>n.
             bindE (learned_addr_chunk fc addrOffset w) (\<lambda>c.
             bindE (pte_set_addr_chunk c (ls_entry s)) (\<lambda>e.
             bindE (whb_get_path_hash w) (\<lambda>h.
             Inr (s\<lparr>ls_entry := e, ls_hashQueue := ls_hashQueue s @ [h], ls_addrPredFound := True,
                    ls_usedWHBIndices := use_index s,
                    ls_pcCaptureDistance := ls_pcCaptureDistance s @ [n - ls_cnt s]\<rparr>)))))))"

definition learned_data_chunk :: "Addr_t \<Rightarrow> DataChunk \<Rightarrow> int \<Rightarrow> WriteHistoryBufferEntry \<Rightarrow> ChunkInfo \<Rightarrow> ChunkInfo res" where
  "learned_data_chunk destAddr d dataOffset w c =
     bindE (find_first_valid_index (whb_get_cacheline w)) (\<lambda>f.
     let offset = word_of_int dataOffset - f in
     bindE (whb_get_size w) (\<lambda>sz.
     bindE (panic_if (offset \<ge> sz) ''Offset calculation error'') (\<lambda>_.
     bindE (whb_get_gen_tick w) (\<lambda>t.
     bindE (set_data_field_offset offset (set_owner_key destAddr (set_gen_pc_in_tick t
              (set_generating_pc (whb_get_pc w) (set_completion True (set_chunk_type CT_DATA c)))))) (\<lambda>c1.
     bindE (set_data d c1) (\<lambda>c2.
     bindE (is_valid c2) (\<lambda>v.
     bindE (assertE v ''is_valid'') (\<lambda>_. Inr c2))))))))"

definition learn_hit :: "whb \<Rightarrow> Addr_t \<Rightarrow> WriteHistoryBufferEntry \<Rightarrow> DataChunk \<Rightarrow> int \<Rightarrow> nat \<Rightarrow> LearnState \<Rightarrow> LearnState res" where
  "learn_hit q destAddr w d dataOffset i s =
     bindE (fq_get_size q) (\<lambda>n.
     bindE (arr_get (pte_dataChunks (ls_entry s)) i) (\<lambda>c.
     bindE (learned_data_chunk destAddr d dataOffset w c) (\<lambda>c'.
     bindE (arr_set (pte_dataChunks (ls_entry s)) i c') (\<lambda>cs.
     bindE (if d \<noteq> 0 then bindE (whb_get_path_hash w) (\<lambda>h. Inr [h]) else Inr []) (\<lambda>hs.
     Inr (s\<lparr>ls_entry := (ls_entry s)\<lparr>pte_dataChunks := cs\<rparr>, ls_dataPredFound := True,
            ls_set_2 := (i = 2 \<or> ls_set_2 s), ls_usedWHBIndices := use_index s,
            ls_hashQueue := ls_hashQueue s @ hs,
            ls_pcCaptureDistance := ls_pcCaptureDistance s @ [n - ls_cnt s]\<rparr>))))))"

text \<open>One iteration of the loop over the chunks; the second search is for diagnostics only.\<close>

definition learn_chunk :: "whb \<Rightarrow> Addr_t \<Rightarrow> ChunkInfo list \<Rightarrow> WriteHistoryBufferEntry \<Rightarrow> nat \<Rightarrow> LearnState \<Rightarrow> LearnState res" where
  "learn_chunk q destAddr dataChunks w i s =
     bindE (arr_get (pte_dataChunks (ls_entry s)) 2) (\<lambda>c2.
     bindE (assertE (ls_set_2 s = get_completion c2) ''set_2'') (\<lambda>_.
     bindE (arr_get dataChunks i) (\<lambda>dc.
     bindE (arr_get (pte_dataChunks (ls_entry s)) i) (\<lambda>c.
     bindE (is_valid dc) (\<lambda>v.
     bindE (if v \<and> \<not> get_completion c
            then bindE (get_data dc) (\<lambda>d.
                 bindE (get_data_offset (whb_get_cacheline w) d) (\<lambda>dataOffset.
                 if dataOffset = - 1 then Inr s else learn_hit q destAddr w d dataOffset i s))
            else if \<not> v
            then bindE (arr_set (pte_dataChunks (ls_entry s)) i (set_chunk_type CT_INVALID c)) (\<lambda>cs.
                 Inr (s\<lparr>ls_entry := (ls_entry s)\<lparr>pte_dataChunks := cs\<rparr>\<rparr>))
            else Inr s) (\<lambda>s1.
     bindE (if v then bindE (get_data dc) (get_data_offset (whb_get_cacheline w)) else Inr (- 1)) (\<lambda>_.
     Inr s1)))))))"

definition learn_step :: "FeCfg \<Rightarrow> Globals \<Rightarrow> whb \<Rightarrow> Addr_t \<Rightarrow> ChunkInfo list \<Rightarrow> WriteHistoryBufferEntry \<Rightarrow> LearnState \<Rightarrow>
    LearnState res" where
  "learn_step fc g q destAddr dataChunks w s =
     bindE (whb_usable fc g w) (\<lambda>b.
     bindE (if b
            then bindE (whb_get_gen_tick w) (\<lambda>t.
                 bindE (panic_if (ls_lastTick s > t) ''WHB insertion order violation'') (\<lambda>_.
                 bindE (learn_addr fc q destAddr w (s\<lparr>ls_lastTick := t\<rparr>)) (\<lambda>s1.
                 fold_res (learn_chunk q destAddr dataChunks w) [0..<DATA_CHUNK_COUNT] s1)))
            else Inr s) (\<lambda>s2.
     Inr (s2\<lparr>ls_cnt := ls_cnt s2 + 1\<rparr>)))"

definition learn_scan :: "FeCfg \<Rightarrow> Globals \<Rightarrow> Tick \<Rightarrow> whb \<Rightarrow> Addr_t \<Rightarrow> ChunkInfo list \<Rightarrow> LearnState res" where
  "learn_scan fc g now q destAddr dataChunks =
     fold_res (learn_step fc g q destAddr dataChunks) (fq_queue q) (LearnState_init (fc_pt fc) now)"

section \<open>Entering the result\<close>

definition missing_chunks :: "ChunkInfo list \<Rightarrow> ChunkInfo list \<Rightarrow> nat res" where
  "missing_chunks dataChunks found =
     fold_res (\<lambda>i n.
       bindE (bindE (arr_get dataChunks i) is_valid) (\<lambda>v.
       if \<not> v then Inr n
       else bindE (bindE (arr_get found i) is_invalid) (\<lambda>b.
            if \<not> b then Inr n
            else bindE (bindE (arr_get dataChunks i) get_data) (\<lambda>_. Inr (n + 1))))) [0..<DATA_CHUNK_COUNT] 0"

definition addToPredictorTable :: "hash_t \<Rightarrow> PredictorTableEntry \<Rightarrow> Globals \<times> PredictorTable \<Rightarrow> (Globals \<times> PredictorTable) res" where
  "addToPredictorTable h e s =
     bindE (valid_count (pte_dataChunks e)) (\<lambda>n.
     bindE (panic_if (n = 0) ''All data chunks are invalid'') (\<lambda>_.
     bindE (panic_if_not (pte_hasOrigCL e) ''has_orig_cacheline'') (\<lambda>_.
     prt_add (pte_set_hash h e) s)))"

definition markIHBEntriesAsUsed :: "nat list \<Rightarrow> whb \<Rightarrow> whb res" where
  "markIHBEntriesAsUsed indices q =
     fold_res (\<lambda>k q. bindE (fq_get q k) (\<lambda>w. bindE (arr_set (fq_queue q) k (whb_use w)) (\<lambda>ws.
       Inr (q\<lparr>fq_queue := ws\<rparr>)))) indices q"

text \<open>The statistics of a scan.\<close>

definition count_scan :: "LearnState \<Rightarrow> bool \<Rightarrow> nat \<Rightarrow> Frontend \<Rightarrow> Frontend" where
  "count_scan s dataPredFound missingChunks fe =
     fe\<lparr>fe_pcCaptureDistance := fe_pcCaptureDistance fe @ ls_pcCaptureDistance s,
        fe_bothAddrDataNotFound := fe_bothAddrDataNotFound fe + of_bool (\<not> ls_addrPredFound s \<and> \<not> dataPredFound),
        fe_missingChunkCount := fe_missingChunkCount fe @ [missingChunks],
        fe_cacheLineNotInWHB := fe_cacheLineNotInWHB fe + of_bool (\<not> (ls_addrPredFound s \<and> dataPredFound)),
        fe_noAddrFound := fe_noAddrFound fe + of_bool (\<not> ls_addrPredFound s),
        fe_whbAddrFound := fe_whbAddrFound fe + of_bool (ls_addrPredFound s)\<rparr>"

text \<open>The address-only mark goes to an entry that is not inserted.\<close>

definition enter_scan :: "CacheLine \<Rightarrow> LearnState \<Rightarrow> bool \<Rightarrow> Globals \<times> Frontend \<Rightarrow> (Globals \<times> Frontend) res" where
  "enter_scan cl s dataPredFound r =
     (if \<not> (ls_addrPredFound s \<and> dataPredFound) then Inr r
      else bindE (panic_if (ls_hashQueue s = []) ''Queue size cannot be zero'') (\<lambda>_.
        bindE (vec_at (ls_hashQueue s) 0) (\<lambda>h.
        bindE (addToPredictorTable h (pte_set_original_cacheline cl (ls_entry s))
                 (fst r, fe_predictorTable (snd r))) (\<lambda>(g, t).
        Inr (g, (snd r)\<lparr>fe_pWritesFoundInWHB := fe_pWritesFoundInWHB (snd r) + 1, fe_predictorTable := t\<rparr>)))))"

definition processLastAccLine :: "FeCfg \<Rightarrow> Tick \<Rightarrow> Addr_t \<Rightarrow> Globals \<times> Frontend \<Rightarrow> (Globals \<times> Frontend) res" where
  "processLastAccLine fc now addr s =
     bindE (panic_if_not (g_predictorEnabled (fst s)) ''predictorEnabled'') (\<lambda>_.
     bindE (um_at (fe_cacheLineAccumulator (snd s)) addr) (\<lambda>cl.
     bindE (all_invalid cl) (\<lambda>inv.
     bindE (panic_if inv ''All accumulated datachunks for the cacheline are invalid'') (\<lambda>_.
     bindE (set_last_seen_addr addr (fe_addrPredictor (snd s))) (\<lambda>ap.
     bindE (all_zeros cl) (\<lambda>z.
     let q = fe_writeHistoryBuffer (snd s);
         fe1 = (snd s)\<lparr>fe_pmAccumulatorFlushes := fe_pmAccumulatorFlushes (snd s) + 1, fe_addrPredictor := ap,
                       fe_zeroCachelines := fe_zeroCachelines (snd s) + of_bool z\<rparr> in
     bindE (map_res whb_get_gen_tick (fq_queue q)) (\<lambda>_.
     bindE (learn_scan fc (fst s) now q addr (cl_dataChunks cl)) (\<lambda>ls.
     bindE (missing_chunks (cl_dataChunks cl) (pte_dataChunks (ls_entry ls))) (\<lambda>missingChunks.
     let dataPredFound = (ls_dataPredFound ls \<and> missingChunks = 0) in
     bindE (enter_scan cl ls dataPredFound (fst s, count_scan ls dataPredFound missingChunks fe1)) (\<lambda>(g, fe2).
     bindE (markIHBEntriesAsUsed (ls_usedWHBIndices ls) (fe_writeHistoryBuffer fe2)) (\<lambda>q'.
     Inr (g, fe2\<lparr>fe_writeHistoryBuffer := q'\<rparr>))))))))))))"

section \<open>Writes to persistent memory\<close>

definition write_back :: "FeCfg \<Rightarrow> Tick \<Rightarrow> Packet \<Rightarrow> Globals \<times> Frontend \<Rightarrow> (Globals \<times> Frontend) res" where
  "write_back fc now pkt s =
     bindE (getVaddr (pk_req pkt)) (\<lambda>vaddr.
     let a = cacheline_align vaddr;
         fe1 = (snd s)\<lparr>fe_clwbCountInclInv := fe_clwbCountInclInv (snd s) + 1,
                       fe_addrChangesBwClwb := fe_addrChangesBwClwb (snd s) @ [fe_addrChangesSinceClwb (snd s)],
                       fe_addrChangesSinceClwb := 0\<rparr> in
     case um_find (fe_cacheLineAccumulator fe1) a of
       None \<Rightarrow> Inr (fst s, fe1)
     | Some cl \<Rightarrow>
         bindE (all_invalid cl) (\<lambda>inv.
         if inv then Inr (fst s, fe1)
         else bindE (processLastAccLine fc now a (fst s, fe1\<lparr>fe_clwbCount := fe_clwbCount fe1 + 1\<rparr>)) (\<lambda>(g, fe2).
              bindE (um_at (fe_cacheLineAccumulator fe2) a) (\<lambda>cl2.
              bindE (invalid_chunk_count cl2) (\<lambda>n.
              Inr (g, fe2\<lparr>fe_invChunkCountSampler := fe_invChunkCountSampler fe2 @ [n],
                          fe_cacheLineAccumulator := um_erase a (fe_cacheLineAccumulator fe2)\<rparr>)))))) "

definition fe_handleNonVolatileWrite :: "FeCfg \<Rightarrow> World \<Rightarrow> Packet \<Rightarrow> bool \<Rightarrow> Globals \<times> Frontend \<Rightarrow> (Globals \<times> Frontend) res" where
  "fe_handleNonVolatileWrite fc w pkt isClwb s =
     (if isClwb then write_back fc (w_now w) pkt s else accumulate_store fc w pkt s)"

section \<open>The reference search\<close>

definition first_data :: "WriteHistoryBufferEntry \<Rightarrow> DataChunk \<Rightarrow> nat option" where
  "first_data w d = first_index (\<lambda>c. holds c d) (cl_dataChunks (whb_cacheLine w))"

definition first_addr :: "WriteHistoryBufferEntry \<Rightarrow> Addr_t \<Rightarrow> nat option" where
  "first_addr w a = first_index (addr_match (cl_dataChunks (whb_cacheLine w)) a) [0..<15]"

definition first_valid :: "WriteHistoryBufferEntry \<Rightarrow> nat" where
  "first_valid w = the (first_index (\<lambda>c. ci_chunkType c = CT_DATA) (cl_dataChunks (whb_cacheLine w)))"

lemma whb_ok_reads:
  assumes "whb_ok w"
  shows "cl_ok (whb_cacheLine w)" "list_all chunk_ok (cl_dataChunks (whb_cacheLine w))"
    "length (cl_dataChunks (whb_cacheLine w)) = 16"
    "whb_get_gen_tick w = Inr (whb_genTick w)" "whb_get_path_hash w = Inr (whb_pathHash w)"
  using assms by (auto simp: whb_ok_def cl_ok_def whb_get_gen_tick_def whb_get_path_hash_def)

lemma first_valid_loop_ok: "list_all chunk_ok cs \<Longrightarrow> first_valid_loop i cs =
    Inr (case first_index (\<lambda>c. ci_chunkType c = CT_DATA) cs of None \<Rightarrow> - 1 | Some k \<Rightarrow> i + of_nat k)"
  by (induction cs arbitrary: i) (auto split: option.splits)

lemma first_valid_ok:
  assumes "whb_ok w" and "k < 16" and "ci_chunkType (cl_dataChunks (whb_cacheLine w) ! k) = CT_DATA"
  shows "find_first_valid_index (whb_cacheLine w) = Inr (of_nat (first_valid w)) \<and> first_valid w \<le> k \<and>
    (\<exists>n. whb_get_size w = Inr (of_nat n) \<and> k < first_valid w + n \<and> n \<le> 16)"
proof -
  let ?cs = "cl_dataChunks (whb_cacheLine w)"
  obtain f n where fn: "f + n \<le> 16" "whb_size w = Some (of_nat n)"
    "\<forall>j<16. ci_chunkType (?cs ! j) = CT_DATA \<longleftrightarrow> f \<le> j \<and> j < f + n" and sz: "whb_hasSize w"
    using assms(1) by (auto simp: whb_ok_def)
  note rd = whb_ok_reads [OF assms(1)]
  have k: "f \<le> k" "k < f + n" using fn(3) assms(2,3) by auto
  have "first_index (\<lambda>c. ci_chunkType c = CT_DATA) ?cs = Some f"
    unfolding first_index_Some using fn rd(3) k by auto
  then show ?thesis
    using k fn(1,2) sz first_valid_loop_ok [OF rd(2)]
    by (auto simp: first_valid_def find_first_valid_index_def whb_get_size_def)
qed

lemma get_data_offset_ref:
  assumes "whb_ok w"
  shows "get_data_offset (whb_cacheLine w) d = Inr (case first_data w d of None \<Rightarrow> - 1 | Some k \<Rightarrow> int k)"
  using data_offset_loop_ok [OF whb_ok_reads(2) [OF assms], of d 0]
  by (auto simp: get_data_offset_def first_data_def split: option.splits)

lemma get_addr_offset_ref:
  assumes "whb_ok w"
  shows "get_addr_offset (whb_cacheLine w) a True = Inr (case first_addr w a of None \<Rightarrow> - 1 | Some k \<Rightarrow> int k)"
proof -
  from get_addr_offset_least [OF whb_ok_reads(1) [OF assms]] obtain r
    where r: "get_addr_offset (whb_cacheLine w) a True = Inr r"
      "least_match (addr_match (cl_dataChunks (whb_cacheLine w)) a) 15 r" by blast
  have "r = (case first_addr w a of None \<Rightarrow> - 1 | Some k \<Rightarrow> int k)"
  proof (cases "first_addr w a")
    case None
    then have "\<forall>i<15. \<not> addr_match (cl_dataChunks (whb_cacheLine w)) a i"
      by (simp add: first_addr_def first_index_None)
    then show ?thesis using r(2) None by (auto simp: least_match_def)
  next
    case (Some k)
    then have k: "k < 15" "addr_match (cl_dataChunks (whb_cacheLine w)) a k"
      "\<forall>j<k. \<not> addr_match (cl_dataChunks (whb_cacheLine w)) a j"
      by (auto simp: first_addr_def first_index_Some)
    then show ?thesis using r(2) Some unfolding least_match_def by (auto intro: linorder_cases)
  qed
  with r(1) show ?thesis by simp
qed

text \<open>What training on a write that holds a datum of the line gives.\<close>

definition trained_chunk :: "Addr_t \<Rightarrow> WriteHistoryBufferEntry \<Rightarrow> DataChunk \<Rightarrow> ChunkInfo" where
  "trained_chunk a w d = \<lparr>ci_generatingPC = whb_pc w, ci_genPCTimeOfInsertion = whb_genTick w,
     ci_dataFieldOffset = of_nat (the (first_data w d) - first_valid w), ci_isComplete = True, ci_chunkType = CT_DATA,
     ci_content = ucast d, ci_owner_key = a, ci_flags = 0x896, ci_timeOfGen = 0\<rparr>"

lemma first_dataD: "first_data w d = Some k \<Longrightarrow> whb_ok w \<Longrightarrow> k < 16 \<and> holds (cl_dataChunks (whb_cacheLine w) ! k) d"
  using whb_ok_reads(3) by (auto simp: first_data_def first_index_Some)

lemma small_offset:
  assumes "m < 16"
  shows "unat (of_nat m :: size_t) = m" "(of_nat m :: size_t) \<noteq> 24" "(of_nat m :: size_t) \<noteq> - 1"
proof -
  show u: "unat (of_nat m :: size_t) = m" using assms by (simp add: unat_of_nat)
  then show "(of_nat m :: size_t) \<noteq> 24" using assms by auto
  have "unat (- 1 :: size_t) = 2 ^ 64 - 1" by (simp add: unsigned_minus_1_eq_mask mask_eq_exp_minus_1)
  then show "(of_nat m :: size_t) \<noteq> - 1" using u assms by auto
qed

lemma learned_data_chunk_ref:
  assumes w: "whb_ok w" and k: "first_data w d = Some k"
  shows "learned_data_chunk a d (int k) w ChunkInfo_default = Inr (trained_chunk a w d)"
proof -
  have h: "k < 16" "ci_chunkType (cl_dataChunks (whb_cacheLine w) ! k) = CT_DATA"
    using first_dataD [OF k w] by auto
  from first_valid_ok [OF w h] obtain n where f: "find_first_valid_index (whb_cacheLine w) = Inr (of_nat (first_valid w))"
    "first_valid w \<le> k" "whb_get_size w = Inr (of_nat n)" "k < first_valid w + n" "n \<le> 16" by auto
  have off: "of_nat k - of_nat (first_valid w) = (of_nat (k - first_valid w) :: size_t)"
    using f(2) by (simp add: of_nat_diff)
  have "k - first_valid w < 16" using h(1) by simp
  note w16 = small_offset [OF this]
  have lt: "\<not> of_nat n \<le> (of_nat (k - first_valid w) :: size_t)"
    unfolding word_le_nat_alt w16(1) using f h(1) by (simp add: unat_of_nat)
  show ?thesis
    unfolding learned_data_chunk_def whb_get_cacheline_def f(1) Let_def
    using lt w16 f(3) whb_ok_reads(4) [OF w] k
    by (simp add: off chunk_defs trained_chunk_def ChunkInfo_default_def set_flag_def whb_get_pc_def Let_def)
qed

definition trained_addr :: "FeCfg \<Rightarrow> WriteHistoryBufferEntry \<Rightarrow> Addr_t \<Rightarrow> ChunkInfo" where
  "trained_addr fc w a = (let cs = cl_dataChunks (whb_cacheLine w); k = the (first_addr w a) in
     \<lparr>ci_generatingPC = whb_pc w, ci_genPCTimeOfInsertion = whb_genTick w,
      ci_dataFieldOffset = of_nat (k - first_valid w), ci_isComplete = True, ci_chunkType = CT_ADDR,
      ci_content = cacheline_align (ucast (chunk_data (cs ! k) + fc_shl32 fc (chunk_data (cs ! (k + 1))))),
      ci_owner_key = 0, ci_flags = 0x806, ci_timeOfGen = 0\<rparr>)"

lemma first_addrD: "first_addr w a = Some k \<Longrightarrow> k < 15 \<and> addr_match (cl_dataChunks (whb_cacheLine w)) a k"
  by (auto simp: first_addr_def first_index_Some)

lemma learned_addr_chunk_ref:
  assumes w: "whb_ok w" and k: "first_addr w a = Some k"
  shows "learned_addr_chunk fc (int k) w = Inr (trained_addr fc w a)"
proof -
  let ?cs = "cl_dataChunks (whb_cacheLine w)"
  have h: "k < 15" "ci_chunkType (?cs ! k) = CT_DATA" "ci_chunkType (?cs ! (k + 1)) = CT_DATA"
    using first_addrD [OF k] by (auto simp: addr_match_def)
  then have k16: "k < 16" by simp
  have pc: "whb_pc w \<noteq> 0" using w by (simp add: whb_ok_def)
  from first_valid_ok [OF w k16 h(2)] have f: "find_first_valid_index (whb_cacheLine w) = Inr (of_nat (first_valid w))"
    "first_valid w \<le> k" by auto
  note rd = whb_ok_reads [OF w]
  have off: "of_nat k - of_nat (first_valid w) = (of_nat (k - first_valid w) :: size_t)"
    using f(2) by (simp add: of_nat_diff)
  have "k - first_valid w < 16" using k16 by simp
  note ne = small_offset [OF this]
  have "chunk_ok (?cs ! k)" "chunk_ok (?cs ! (k + 1))" using rd(2,3) h(1) by (auto simp: list_all_length)
  then have "get_data (?cs ! k) = Inr (chunk_data (?cs ! k))" "get_data (?cs ! (k + 1)) = Inr (chunk_data (?cs ! (k + 1)))"
    using h(2,3) by auto
  then show ?thesis
    unfolding learned_addr_chunk_def whb_get_cacheline_def f(1) Let_def
    using ne rd(3,4) pc k h(1) f(1)
    by (simp add: off mk_ChunkInfo_def whb_get_pc_def set_target_addr_def set_generating_pc_def set_gen_pc_in_tick_def
        trained_addr_def ChunkInfo_default_def set_flag_def Let_def)
qed

section \<open>One history entry\<close>

definition next_chunk :: "Addr_t \<Rightarrow> WriteHistoryBufferEntry \<Rightarrow> ChunkInfo \<Rightarrow> ChunkInfo \<Rightarrow> ChunkInfo" where
  "next_chunk a w dc c = (if ci_chunkType dc = CT_DATA \<and> \<not> ci_isComplete c \<and> first_data w (chunk_data dc) \<noteq> None
     then trained_chunk a w (chunk_data dc) else c)"

definition hit :: "WriteHistoryBufferEntry \<Rightarrow> ChunkInfo \<Rightarrow> ChunkInfo \<Rightarrow> bool" where
  "hit w dc c = (ci_chunkType dc = CT_DATA \<and> \<not> ci_isComplete c \<and> first_data w (chunk_data dc) \<noteq> None)"

text \<open>Between two iterations a chunk of the entry is untouched or learned.\<close>

definition scan_ok :: "ChunkInfo list \<Rightarrow> LearnState \<Rightarrow> bool" where
  "scan_ok cs s = (length (pte_dataChunks (ls_entry s)) = 16 \<and>
     (\<forall>i<16. pte_dataChunks (ls_entry s) ! i = ChunkInfo_default \<or>
        ci_chunkType (cs ! i) = CT_DATA \<and> ci_isComplete (pte_dataChunks (ls_entry s) ! i)) \<and>
     ls_set_2 s = ci_isComplete (pte_dataChunks (ls_entry s) ! 2))"

definition learn_chunk_ref :: "whb \<Rightarrow> Addr_t \<Rightarrow> ChunkInfo list \<Rightarrow> WriteHistoryBufferEntry \<Rightarrow> nat \<Rightarrow> LearnState \<Rightarrow> LearnState" where
  "learn_chunk_ref q a cs w i s =
     (let c = pte_dataChunks (ls_entry s) ! i; d = chunk_data (cs ! i) in
      if hit w (cs ! i) c
      then s\<lparr>ls_entry := (ls_entry s)\<lparr>pte_dataChunks := (pte_dataChunks (ls_entry s))[i := trained_chunk a w d]\<rparr>,
             ls_dataPredFound := True, ls_set_2 := (i = 2 \<or> ls_set_2 s), ls_usedWHBIndices := use_index s,
             ls_hashQueue := ls_hashQueue s @ (if d \<noteq> 0 then [whb_pathHash w] else []),
             ls_pcCaptureDistance := ls_pcCaptureDistance s @ [length (fq_queue q) - ls_cnt s]\<rparr>
      else s)"

lemma trained_chunk_simps [simp]: "ci_isComplete (trained_chunk a w d)" "ci_chunkType (trained_chunk a w d) = CT_DATA"
  by (simp_all add: trained_chunk_def)

lemma default_chunk_simps [simp]: "\<not> ci_isComplete ChunkInfo_default" "ci_chunkType ChunkInfo_default = CT_INVALID"
  "set_chunk_type CT_INVALID ChunkInfo_default = ChunkInfo_default"
  by (simp_all add: ChunkInfo_default_def set_chunk_type_def)

lemma learn_chunk_ok:
  assumes q: "fq_inv q" and w: "whb_ok w" and cs: "length cs = 16" "list_all chunk_ok cs" and s: "scan_ok cs s" and i: "i < 16"
  shows "learn_chunk q a cs w i s = Inr (learn_chunk_ref q a cs w i s)"
proof -
  let ?xs = "pte_dataChunks (ls_entry s)"
  let ?d = "chunk_data (cs ! i)"
  have len: "length ?xs = 16" and two: "ls_set_2 s = get_completion (?xs ! 2)"
    and c: "?xs ! i = ChunkInfo_default \<or> ci_chunkType (cs ! i) = CT_DATA \<and> ci_isComplete (?xs ! i)"
    using s i by (auto simp: scan_ok_def get_completion_def)
  have dc: "chunk_ok (cs ! i)" using cs i by (auto simp: list_all_length)
  have sz: "fq_get_size q = Inr (length (fq_queue q))" using q by (simp add: fq_get_size_def fq_inv_def)
  have two': "assertE (ls_set_2 s = get_completion (?xs ! 2)) ''set_2'' = Inr ()" using two by simp
  note off = get_data_offset_ref [OF w, of ?d]
  consider (inv) "ci_chunkType (cs ! i) \<noteq> CT_DATA" "?xs ! i = ChunkInfo_default"
    | (old) "ci_chunkType (cs ! i) = CT_DATA" "ci_isComplete (?xs ! i)"
    | (none) "ci_chunkType (cs ! i) = CT_DATA" "?xs ! i = ChunkInfo_default" "first_data w ?d = None"
    | (some) k where "ci_chunkType (cs ! i) = CT_DATA" "?xs ! i = ChunkInfo_default" "first_data w ?d = Some k"
    using c by (cases "first_data w ?d") auto
  then show ?thesis
  proof cases
    case inv
    then have "learn_chunk q a cs w i s = Inr (s\<lparr>ls_entry := (ls_entry s)\<lparr>pte_dataChunks := ?xs[i := ?xs ! i]\<rparr>\<rparr>)"
      using len cs i two' dc by (simp add: learn_chunk_def)
    moreover have "s\<lparr>ls_entry := (ls_entry s)\<lparr>pte_dataChunks := ?xs[i := ?xs ! i]\<rparr>\<rparr> = s"
      unfolding list_update_id by (cases s) (cases "ls_entry s", simp)
    ultimately show ?thesis using inv(1) by (simp add: learn_chunk_ref_def hit_def)
  next
    case old
    then show ?thesis
      using len cs i two' dc off
      by (simp add: learn_chunk_def learn_chunk_ref_def hit_def get_completion_def whb_get_cacheline_def)
  next
    case none
    then show ?thesis
      using len cs i two' dc off
      by (simp add: learn_chunk_def learn_chunk_ref_def hit_def get_completion_def whb_get_cacheline_def)
  next
    case some
    have "learn_hit q a w ?d (int k) i s = Inr (learn_chunk_ref q a cs w i s)"
      using some len i learned_data_chunk_ref [OF w some(3)] whb_ok_reads(5) [OF w]
      by (simp add: learn_hit_def sz learn_chunk_ref_def hit_def Let_def)
    then show ?thesis
      using some len cs i two' dc off
      by (simp add: learn_chunk_def get_completion_def whb_get_cacheline_def)
  qed
qed

lemma learn_chunk_ref_scan_ok: "scan_ok cs s \<Longrightarrow> i < 16 \<Longrightarrow> scan_ok cs (learn_chunk_ref q a cs w i s)"
  by (auto simp: scan_ok_def learn_chunk_ref_def Let_def nth_list_update hit_def)

text \<open>The loop over the chunks of the line.\<close>

definition after_chunks :: "nat \<Rightarrow> Addr_t \<Rightarrow> ChunkInfo list \<Rightarrow> WriteHistoryBufferEntry \<Rightarrow> LearnState \<Rightarrow> LearnState \<Rightarrow> bool" where
  "after_chunks m a cs w s t =
     (let xs = pte_dataChunks (ls_entry s); H = (\<lambda>i. i < m \<and> hit w (cs ! i) (xs ! i)) in
      ls_cnt t = ls_cnt s \<and> ls_lastTick t = ls_lastTick s \<and> ls_addrPredFound t = ls_addrPredFound s \<and>
      (\<exists>ys. ls_entry t = (ls_entry s)\<lparr>pte_dataChunks := ys\<rparr> \<and> length ys = 16 \<and>
         (\<forall>i<16. ys ! i = (if i < m then next_chunk a w (cs ! i) (xs ! i) else xs ! i))) \<and>
      ls_dataPredFound t = (ls_dataPredFound s \<or> (\<exists>i. H i)) \<and>
      set (ls_usedWHBIndices t) = set (ls_usedWHBIndices s) \<union> (if \<exists>i. H i then {ls_cnt s} else {}) \<and>
      (\<exists>n. ls_hashQueue t = ls_hashQueue s @ replicate n (whb_pathHash w) \<and>
         (n \<noteq> 0 \<longleftrightarrow> (\<exists>i. H i \<and> chunk_data (cs ! i) \<noteq> 0))))"

lemma after_chunks_0: "length (pte_dataChunks (ls_entry s)) = 16 \<Longrightarrow> after_chunks 0 a cs w s s"
  unfolding after_chunks_def Let_def
  by (auto intro!: exI [of _ "pte_dataChunks (ls_entry s)"])

lemma set_use_index: "set (use_index s) = set (ls_usedWHBIndices s) \<union> {ls_cnt s}"
  by (auto simp: use_index_def)

lemma after_chunks_Suc:
  assumes t: "after_chunks m a cs w s t" and m: "m < 16"
  shows "after_chunks (Suc m) a cs w s (learn_chunk_ref q a cs w m t)"
proof -
  let ?xs = "pte_dataChunks (ls_entry s)"
  let ?H = "hit w (cs ! m) (?xs ! m)"
  from t obtain ys n where ys: "ls_entry t = (ls_entry s)\<lparr>pte_dataChunks := ys\<rparr>" "length ys = 16"
      "\<forall>i<16. ys ! i = (if i < m then next_chunk a w (cs ! i) (?xs ! i) else ?xs ! i)"
    and n: "ls_hashQueue t = ls_hashQueue s @ replicate n (whb_pathHash w)"
      "n \<noteq> 0 \<longleftrightarrow> (\<exists>i<m. hit w (cs ! i) (?xs ! i) \<and> chunk_data (cs ! i) \<noteq> 0)"
    unfolding after_chunks_def Let_def by blast
  have ym: "ys ! m = ?xs ! m" using ys(3) m by simp
  have split: "(\<exists>i. i < Suc m \<and> P i) \<longleftrightarrow> (\<exists>i. i < m \<and> P i) \<or> P m" for P by (auto simp: less_Suc_eq)
  let ?zs = "if ?H then ys[m := trained_chunk a w (chunk_data (cs ! m))] else ys"
  let ?k = "if ?H \<and> chunk_data (cs ! m) \<noteq> 0 then Suc n else n"
  have zs: "ls_entry (learn_chunk_ref q a cs w m t) = (ls_entry s)\<lparr>pte_dataChunks := ?zs\<rparr>" "length ?zs = 16"
    using ys(1,2) ym by (auto simp: learn_chunk_ref_def Let_def)
  have el: "\<forall>i<16. ?zs ! i = (if i < Suc m then next_chunk a w (cs ! i) (?xs ! i) else ?xs ! i)"
    using ys(2,3) ym by (auto simp: less_Suc_eq next_chunk_def hit_def nth_list_update)
  have hq: "ls_hashQueue (learn_chunk_ref q a cs w m t) = ls_hashQueue s @ replicate ?k (whb_pathHash w)"
    using ys(1) ym n(1) by (auto simp: learn_chunk_ref_def Let_def replicate_append_same)
  have k: "?k \<noteq> 0 \<longleftrightarrow> (\<exists>i. i < Suc m \<and> hit w (cs ! i) (?xs ! i) \<and> chunk_data (cs ! i) \<noteq> 0)"
    unfolding split using n(2) by auto
  have "\<exists>ys. ls_entry (learn_chunk_ref q a cs w m t) = (ls_entry s)\<lparr>pte_dataChunks := ys\<rparr> \<and> length ys = 16 \<and>
      (\<forall>i<16. ys ! i = (if i < Suc m then next_chunk a w (cs ! i) (?xs ! i) else ?xs ! i))"
    using zs el by blast
  moreover have "\<exists>n. ls_hashQueue (learn_chunk_ref q a cs w m t) = ls_hashQueue s @ replicate n (whb_pathHash w) \<and>
      (n \<noteq> 0 \<longleftrightarrow> (\<exists>i. (i < Suc m \<and> hit w (cs ! i) (?xs ! i)) \<and> chunk_data (cs ! i) \<noteq> 0))"
    using hq k by blast
  ultimately show ?thesis
    using t ys(1) ym unfolding after_chunks_def Let_def split
    by (auto simp: learn_chunk_ref_def Let_def set_use_index)
qed

lemma learn_chunks_ok:
  assumes q: "fq_inv q" and w: "whb_ok w" and cs: "length cs = 16" "list_all chunk_ok cs" and s: "scan_ok cs s"
  shows "\<exists>t. fold_res (learn_chunk q a cs w) [0..<16] s = Inr t \<and> scan_ok cs t \<and> after_chunks 16 a cs w s t"
proof -
  have "\<exists>t. fold_res (learn_chunk q a cs w) [0..<m] s = Inr t \<and> scan_ok cs t \<and> after_chunks m a cs w s t" if "m \<le> 16" for m
    using that
  proof (induction m)
    case 0
    then show ?case using s by (auto simp: scan_ok_def intro: after_chunks_0)
  next
    case (Suc m)
    then obtain t where t: "fold_res (learn_chunk q a cs w) [0..<m] s = Inr t" "scan_ok cs t" "after_chunks m a cs w s t" by auto
    with Suc.prems learn_chunk_ok [OF q w cs t(2)] learn_chunk_ref_scan_ok [OF t(2)] after_chunks_Suc [OF t(3)]
    show ?case by (simp add: fold_res_append)
  qed
  then show ?thesis by simp
qed

section \<open>The scan equals the reference\<close>

text \<open>The first usable write of the history with a property.\<close>

definition source :: "FeCfg \<Rightarrow> Globals \<Rightarrow> WriteHistoryBufferEntry list \<Rightarrow> (WriteHistoryBufferEntry \<Rightarrow> bool) \<Rightarrow> nat option" where
  "source fc g ws P = first_index (\<lambda>w. whb_usable fc g w = Inr True \<and> P w) ws"

abbreviation data_source :: "FeCfg \<Rightarrow> Globals \<Rightarrow> WriteHistoryBufferEntry list \<Rightarrow> DataChunk \<Rightarrow> nat option" where
  "data_source fc g ws d \<equiv> source fc g ws (\<lambda>w. first_data w d \<noteq> None)"

abbreviation addr_source :: "FeCfg \<Rightarrow> Globals \<Rightarrow> WriteHistoryBufferEntry list \<Rightarrow> Addr_t \<Rightarrow> nat option" where
  "addr_source fc g ws a \<equiv> source fc g ws (\<lambda>w. first_addr w a \<noteq> None)"

text \<open>The write whose path hash will trigger the prediction.\<close>

abbreviation trigger :: "FeCfg \<Rightarrow> Globals \<Rightarrow> WriteHistoryBufferEntry list \<Rightarrow> Addr_t \<Rightarrow> ChunkInfo list \<Rightarrow> nat option" where
  "trigger fc g ws a cs \<equiv> source fc g ws (\<lambda>w. first_addr w a \<noteq> None \<or>
     (\<exists>i<16. ci_chunkType (cs ! i) = CT_DATA \<and> chunk_data (cs ! i) \<noteq> 0 \<and> first_data w (chunk_data (cs ! i)) \<noteq> None))"

definition ref_chunk :: "FeCfg \<Rightarrow> Globals \<Rightarrow> WriteHistoryBufferEntry list \<Rightarrow> Addr_t \<Rightarrow> ChunkInfo \<Rightarrow> ChunkInfo" where
  "ref_chunk fc g ws a c = (if ci_chunkType c \<noteq> CT_DATA then ChunkInfo_default
     else case data_source fc g ws (chunk_data c) of
            None \<Rightarrow> ChunkInfo_default
          | Some k \<Rightarrow> trained_chunk a (ws ! k) (chunk_data c))"

definition ref_addr :: "FeCfg \<Rightarrow> Globals \<Rightarrow> WriteHistoryBufferEntry list \<Rightarrow> Addr_t \<Rightarrow> ChunkInfo" where
  "ref_addr fc g ws a = (case addr_source fc g ws a of None \<Rightarrow> ChunkInfo_default | Some k \<Rightarrow> trained_addr fc (ws ! k) a)"

lemma first_index_snoc: "first_index P (xs @ [x]) =
    (case first_index P xs of Some k \<Rightarrow> Some k | None \<Rightarrow> if P x then Some (length xs) else None)"
  by (induction xs) (auto split: option.splits)

lemma source_snoc: "source fc g (ws @ [w]) P =
    (case source fc g ws P of Some k \<Rightarrow> Some k
     | None \<Rightarrow> if whb_usable fc g w = Inr True \<and> P w then Some (length ws) else None)"
  by (simp add: source_def first_index_snoc)

lemma source_lt: "source fc g ws P = Some k \<Longrightarrow> k < length ws \<and> whb_usable fc g (ws ! k) = Inr True \<and> P (ws ! k)"
  by (auto simp: source_def first_index_Some)

lemma whb_usable_ok: "pc_conf_ok g \<Longrightarrow> \<exists>b. whb_usable fc g w = Inr b"
  using conf_get_val by (fastforce simp: whb_usable_def pc_conf_ok_def split: option.splits)

lemma ref_chunk_complete: "ci_isComplete (ref_chunk fc g ws a c) \<longleftrightarrow>
    ci_chunkType c = CT_DATA \<and> data_source fc g ws (chunk_data c) \<noteq> None"
  by (auto simp: ref_chunk_def split: option.splits)

lemma ref_chunk_snoc: "ref_chunk fc g (ws @ [w]) a c =
    (if whb_usable fc g w = Inr True then next_chunk a w c (ref_chunk fc g ws a c) else ref_chunk fc g ws a c)"
  using source_lt [of fc g ws "\<lambda>w. first_data w (chunk_data c) \<noteq> None"]
  by (auto simp: ref_chunk_def source_snoc next_chunk_def nth_append split: option.splits)

lemma ref_addr_snoc: "ref_addr fc g (ws @ [w]) a =
    (if whb_usable fc g w = Inr True \<and> addr_source fc g ws a = None \<and> first_addr w a \<noteq> None then trained_addr fc w a
     else ref_addr fc g ws a)"
  using source_lt [of fc g ws "\<lambda>w. first_addr w a \<noteq> None"]
  by (auto simp: ref_addr_def source_snoc nth_append split: option.splits)

text \<open>The state of the scan after the writes \<open>us\<close>.\<close>

definition scanned :: "FeCfg \<Rightarrow> Globals \<Rightarrow> Tick \<Rightarrow> Addr_t \<Rightarrow> ChunkInfo list \<Rightarrow> WriteHistoryBufferEntry list \<Rightarrow> LearnState \<Rightarrow> bool" where
  "scanned fc g now a cs us s = (ls_cnt s = length us \<and> ls_set_2 s = ci_isComplete (ref_chunk fc g us a (cs ! 2)) \<and>
     ls_entry s = (mk_PTE (fc_pt fc) now)\<lparr>pte_addrChunk := ref_addr fc g us a, pte_dataChunks := map (ref_chunk fc g us a) cs\<rparr> \<and>
     ls_addrPredFound s = (addr_source fc g us a \<noteq> None) \<and>
     ls_dataPredFound s = (\<exists>i<16. ci_isComplete (ref_chunk fc g us a (cs ! i))) \<and>
     (\<forall>k. k \<in> set (ls_usedWHBIndices s) \<longleftrightarrow> addr_source fc g us a = Some k \<or>
        (\<exists>i<16. ci_chunkType (cs ! i) = CT_DATA \<and> data_source fc g us (chunk_data (cs ! i)) = Some k)) \<and>
     (case trigger fc g us a cs of None \<Rightarrow> ls_hashQueue s = []
      | Some k \<Rightarrow> \<exists>hs. ls_hashQueue s = whb_pathHash (us ! k) # hs) \<and>
     (ls_lastTick s = 0 \<or> ls_lastTick s \<in> whb_genTick ` set us))"

lemma scanned_Nil:
  assumes "length cs = 16"
  shows "scanned fc g now a cs [] (LearnState_init (fc_pt fc) now)"
proof -
  have r: "ref_chunk fc g [] a c = ChunkInfo_default" for c by (simp add: ref_chunk_def source_def)
  have "map (ref_chunk fc g [] a) cs = replicate 16 ChunkInfo_default"
    by (rule nth_equalityI) (simp_all add: assms r)
  then show ?thesis
    by (simp add: scanned_def LearnState_init_def r source_def ref_addr_def mk_PTE_def)
qed

lemma scanned_scan_ok:
  assumes "length cs = 16" and "scanned fc g now a cs us s"
  shows "scan_ok cs s"
proof -
  have "ref_chunk fc g us a c = ChunkInfo_default \<or> ci_chunkType c = CT_DATA \<and> ci_isComplete (ref_chunk fc g us a c)" for c
    by (auto simp: ref_chunk_def split: option.splits)
  then show ?thesis using assms by (simp add: scan_ok_def scanned_def)
qed

text \<open>A write that may not be used changes nothing but the count.\<close>

lemma scanned_skip:
  assumes s: "scanned fc g now a cs us s" and u: "whb_usable fc g w = Inr False"
  shows "scanned fc g now a cs (us @ [w]) (s\<lparr>ls_cnt := ls_cnt s + 1\<rparr>)"
proof -
  have src: "source fc g (us @ [w]) P = source fc g us P" for P
    by (simp add: source_snoc u split: option.splits)
  have r: "ref_chunk fc g (us @ [w]) a c = ref_chunk fc g us a c" "ref_addr fc g (us @ [w]) a = ref_addr fc g us a" for c
    by (simp_all add: ref_chunk_snoc ref_addr_snoc u)
  have f: "ref_chunk fc g (us @ [w]) a = ref_chunk fc g us a" by (rule ext) (rule r)
  have nth: "trigger fc g us a cs = Some k \<Longrightarrow> (us @ [w]) ! k = us ! k" for k
    using source_lt by (fastforce simp: nth_append)
  show ?thesis
    using s nth unfolding scanned_def src r f by (auto split: option.splits)
qed

definition after_addr :: "FeCfg \<Rightarrow> Addr_t \<Rightarrow> WriteHistoryBufferEntry \<Rightarrow> LearnState \<Rightarrow> LearnState \<Rightarrow> bool" where
  "after_addr fc a w s t =
     (let new = (\<not> ls_addrPredFound s \<and> first_addr w a \<noteq> None) in
      ls_cnt t = ls_cnt s \<and> ls_lastTick t = ls_lastTick s \<and> ls_set_2 t = ls_set_2 s \<and>
      ls_addrPredFound t = (ls_addrPredFound s \<or> new) \<and> ls_dataPredFound t = ls_dataPredFound s \<and>
      ls_entry t = (if new then (ls_entry s)\<lparr>pte_addrChunk := trained_addr fc w a\<rparr> else ls_entry s) \<and>
      set (ls_usedWHBIndices t) = set (ls_usedWHBIndices s) \<union> (if new then {ls_cnt s} else {}) \<and>
      ls_hashQueue t = ls_hashQueue s @ (if new then [whb_pathHash w] else []))"

lemma learn_addr_ok:
  assumes q: "fq_inv q" and w: "whb_ok w"
  shows "\<exists>t. learn_addr fc q a w s = Inr t \<and> after_addr fc a w s t"
proof (cases "ls_addrPredFound s")
  case True
  then show ?thesis by (simp add: learn_addr_def after_addr_def)
next
  case False
  have sz: "fq_get_size q = Inr (length (fq_queue q))" using q by (simp add: fq_get_size_def fq_inv_def)
  show ?thesis
  proof (cases "first_addr w a")
    case None
    then show ?thesis using False get_addr_offset_ref [OF w, of a]
      by (simp add: learn_addr_def after_addr_def whb_get_cacheline_def)
  next
    case (Some k)
    have "ci_chunkType (trained_addr fc w a) = CT_ADDR" by (simp add: trained_addr_def Let_def)
    then show ?thesis
      using False Some get_addr_offset_ref [OF w, of a] learned_addr_chunk_ref [OF w Some] whb_ok_reads(5) [OF w]
      by (simp add: learn_addr_def after_addr_def whb_get_cacheline_def sz pte_set_addr_chunk_def set_use_index Let_def)
  qed
qed

text \<open>A usable write.\<close>

lemma after_chunks_all:
  assumes t: "after_chunks 16 a cs w s t" and R: "\<forall>i<16. pte_dataChunks (ls_entry s) ! i = R i"
  shows "ls_cnt t = ls_cnt s" "ls_lastTick t = ls_lastTick s" "ls_addrPredFound t = ls_addrPredFound s"
    "ls_dataPredFound t = (ls_dataPredFound s \<or> (\<exists>i<16. hit w (cs ! i) (R i)))"
    "set (ls_usedWHBIndices t) = set (ls_usedWHBIndices s) \<union> (if \<exists>i<16. hit w (cs ! i) (R i) then {ls_cnt s} else {})"
    "\<exists>ys. ls_entry t = (ls_entry s)\<lparr>pte_dataChunks := ys\<rparr> \<and> length ys = 16 \<and>
       (\<forall>i<16. ys ! i = next_chunk a w (cs ! i) (R i))"
    "\<exists>n. ls_hashQueue t = ls_hashQueue s @ replicate n (whb_pathHash w) \<and>
       (n \<noteq> 0 \<longleftrightarrow> (\<exists>i<16. hit w (cs ! i) (R i) \<and> chunk_data (cs ! i) \<noteq> 0))"
proof -
  have H: "(\<exists>i. (i < 16 \<and> hit w (cs ! i) (pte_dataChunks (ls_entry s) ! i)) \<and> P i) = (\<exists>i<16. hit w (cs ! i) (R i) \<and> P i)" for P
    using R by auto
  have H1: "(\<exists>i. i < 16 \<and> hit w (cs ! i) (pte_dataChunks (ls_entry s) ! i)) = (\<exists>i<16. hit w (cs ! i) (R i))"
    using R by auto
  have N: "(\<forall>i<16. ys ! i = (if i < 16 then next_chunk a w (cs ! i) (pte_dataChunks (ls_entry s) ! i) else pte_dataChunks (ls_entry s) ! i)) =
      (\<forall>i<16. ys ! i = next_chunk a w (cs ! i) (R i))" for ys
    using R by auto
  note T = t [unfolded after_chunks_def Let_def H H1 N]
  show "ls_cnt t = ls_cnt s" "ls_lastTick t = ls_lastTick s" "ls_addrPredFound t = ls_addrPredFound s"
    "ls_dataPredFound t = (ls_dataPredFound s \<or> (\<exists>i<16. hit w (cs ! i) (R i)))"
    "set (ls_usedWHBIndices t) = set (ls_usedWHBIndices s) \<union> (if \<exists>i<16. hit w (cs ! i) (R i) then {ls_cnt s} else {})"
    "\<exists>ys. ls_entry t = (ls_entry s)\<lparr>pte_dataChunks := ys\<rparr> \<and> length ys = 16 \<and>
       (\<forall>i<16. ys ! i = next_chunk a w (cs ! i) (R i))"
    "\<exists>n. ls_hashQueue t = ls_hashQueue s @ replicate n (whb_pathHash w) \<and>
       (n \<noteq> 0 \<longleftrightarrow> (\<exists>i<16. hit w (cs ! i) (R i) \<and> chunk_data (cs ! i) \<noteq> 0))"
    using T by blast+
qed

text \<open>How the sources grow by a usable write.\<close>

lemma source_use:
  assumes u: "whb_usable fc g w = Inr True"
  shows "source fc g (us @ [w]) P = Some k \<longleftrightarrow> source fc g us P = Some k \<or> (source fc g us P = None \<and> P w \<and> k = length us)"
  using u by (auto simp: source_snoc split: option.splits)

lemma trigger_queue:
  assumes u: "whb_usable fc g w = Inr True"
    and S: "case trigger fc g us a cs of None \<Rightarrow> hs = [] | Some k \<Rightarrow> \<exists>r. hs = whb_pathHash (us ! k) # r"
    and n: "n \<noteq> 0 \<longleftrightarrow> (\<exists>i<16. hit w (cs ! i) (ref_chunk fc g us a (cs ! i)) \<and> chunk_data (cs ! i) \<noteq> 0)"
    and new: "new \<longleftrightarrow> addr_source fc g us a = None \<and> first_addr w a \<noteq> None"
  shows "case trigger fc g (us @ [w]) a cs of None \<Rightarrow> hs @ (if new then [whb_pathHash w] else []) @ replicate n (whb_pathHash w) = []
      | Some k \<Rightarrow> \<exists>r. hs @ (if new then [whb_pathHash w] else []) @ replicate n (whb_pathHash w) = whb_pathHash ((us @ [w]) ! k) # r"
proof (cases "trigger fc g us a cs")
  case (Some k)
  then show ?thesis using S source_lt [OF Some] by (auto simp: source_snoc nth_append)
next
  case None
  have un: "\<not> ci_isComplete (ref_chunk fc g us a (cs ! i))" if "i < 16" "chunk_data (cs ! i) \<noteq> 0" for i
    using None that unfolding ref_chunk_complete source_def first_index_None by fastforce
  have ad: "addr_source fc g us a = None" using None unfolding source_def first_index_None by auto
  have "n \<noteq> 0 \<longleftrightarrow> (\<exists>i<16. ci_chunkType (cs ! i) = CT_DATA \<and> chunk_data (cs ! i) \<noteq> 0 \<and> first_data w (chunk_data (cs ! i)) \<noteq> None)"
    unfolding n hit_def using un by blast
  then show ?thesis
    using None S u ad new by (cases n) (auto simp: source_snoc)
qed

lemma scanned_use:
  assumes cs: "length cs = 16" and s: "scanned fc g now a cs us s" and u: "whb_usable fc g w = Inr True"
    and s1: "after_addr fc a w (s\<lparr>ls_lastTick := whb_genTick w\<rparr>) s1" and t: "after_chunks 16 a cs w s1 t"
    and ok: "scan_ok cs t"
  shows "scanned fc g now a cs (us @ [w]) (t\<lparr>ls_cnt := ls_cnt t + 1\<rparr>)"
proof -
  let ?new = "addr_source fc g us a = None \<and> first_addr w a \<noteq> None"
  let ?R = "\<lambda>i. ref_chunk fc g us a (cs ! i)" and ?R' = "\<lambda>i. ref_chunk fc g (us @ [w]) a (cs ! i)"
  let ?H = "\<lambda>i. hit w (cs ! i) (?R i)"
  note S = s [unfolded scanned_def]
  have af: "ls_addrPredFound s = (addr_source fc g us a \<noteq> None)" using S by blast
  have new: "(\<not> ls_addrPredFound s \<and> first_addr w a \<noteq> None) = ?new" using af by simp
  note A = s1 [unfolded after_addr_def Let_def, simplified, unfolded new [simplified]]
  have e1: "ls_entry s1 = (mk_PTE (fc_pt fc) now)\<lparr>pte_addrChunk := ref_addr fc g (us @ [w]) a, pte_dataChunks := map (ref_chunk fc g us a) cs\<rparr>"
    using S A by (simp add: ref_addr_snoc u)
  have xs: "\<forall>i<16. pte_dataChunks (ls_entry s1) ! i = ?R i" using cs e1 by simp
  have Rn: "?R' i = next_chunk a w (cs ! i) (?R i)" for i by (simp add: ref_chunk_snoc u)
  note T = after_chunks_all [OF t xs]
  obtain ys where ys: "ls_entry t = (ls_entry s1)\<lparr>pte_dataChunks := ys\<rparr>" "length ys = 16"
    "\<forall>i<16. ys ! i = next_chunk a w (cs ! i) (?R i)" using T(6) by blast
  obtain n where n: "ls_hashQueue t = ls_hashQueue s1 @ replicate n (whb_pathHash w)"
    "n \<noteq> 0 \<longleftrightarrow> (\<exists>i<16. ?H i \<and> chunk_data (cs ! i) \<noteq> 0)" using T(7) by blast
  have yeq: "ys = map (ref_chunk fc g (us @ [w]) a) cs"
    by (rule nth_equalityI) (use ys(2,3) cs Rn in auto)
  have complete: "ci_isComplete (?R' i) \<longleftrightarrow> ci_isComplete (?R i) \<or> ?H i" for i
    unfolding Rn next_chunk_def hit_def by auto
  have src: "data_source fc g (us @ [w]) (chunk_data (cs ! i)) = Some k \<longleftrightarrow>
      data_source fc g us (chunk_data (cs ! i)) = Some k \<or> (?H i \<and> k = length us)" if "ci_chunkType (cs ! i) = CT_DATA" for i k
    unfolding source_use [OF u] hit_def ref_chunk_complete using that by auto
  have used: "k \<in> set (ls_usedWHBIndices t) \<longleftrightarrow> addr_source fc g (us @ [w]) a = Some k \<or>
      (\<exists>i<16. ci_chunkType (cs ! i) = CT_DATA \<and> data_source fc g (us @ [w]) (chunk_data (cs ! i)) = Some k)" for k
  proof -
    have c: "ls_cnt s = length us" "ls_cnt s1 = length us" using S A by auto
    have u1: "set (ls_usedWHBIndices s1) = set (ls_usedWHBIndices s) \<union> (if ?new then {length us} else {})"
      using A c(1) by (simp split: if_splits)
    have us: "k \<in> set (ls_usedWHBIndices s) \<longleftrightarrow> addr_source fc g us a = Some k \<or>
        (\<exists>i<16. ci_chunkType (cs ! i) = CT_DATA \<and> data_source fc g us (chunk_data (cs ! i)) = Some k)" using S by blast
    have "k \<in> set (ls_usedWHBIndices t) \<longleftrightarrow> (addr_source fc g us a = Some k \<or> (?new \<and> k = length us)) \<or>
        (\<exists>i<16. ci_chunkType (cs ! i) = CT_DATA \<and> (data_source fc g us (chunk_data (cs ! i)) = Some k \<or> (?H i \<and> k = length us)))"
    proof -
      have "k \<in> set (ls_usedWHBIndices t) \<longleftrightarrow> k \<in> set (ls_usedWHBIndices s) \<or> (?new \<and> k = length us) \<or> ((\<exists>i<16. ?H i) \<and> k = length us)"
      proof -
        have i: "k \<in> A \<union> (if P then {x} else {}) \<longleftrightarrow> k \<in> A \<or> (P \<and> k = x)" for A P and x :: nat by simp
        have "k \<in> set (ls_usedWHBIndices t) \<longleftrightarrow> k \<in> set (ls_usedWHBIndices s1) \<or> ((\<exists>i<16. ?H i) \<and> k = length us)"
          unfolding T(5) [unfolded c(2)] by (rule i)
        moreover have "k \<in> set (ls_usedWHBIndices s1) \<longleftrightarrow> k \<in> set (ls_usedWHBIndices s) \<or> (?new \<and> k = length us)"
          unfolding u1 by (rule i)
        ultimately show ?thesis by blast
      qed
      then show ?thesis unfolding us hit_def by blast
    qed
    then show ?thesis unfolding source_use [OF u, of us "\<lambda>w. first_addr w a \<noteq> None"] using src by auto
  qed
  have h0: "case trigger fc g us a cs of None \<Rightarrow> ls_hashQueue s = [] | Some k \<Rightarrow> \<exists>r. ls_hashQueue s = whb_pathHash (us ! k) # r"
    using S by blast
  have h1: "ls_hashQueue t = ls_hashQueue s @ (if ?new then [whb_pathHash w] else []) @ replicate n (whb_pathHash w)"
    using n(1) A by simp
  have hq: "case trigger fc g (us @ [w]) a cs of None \<Rightarrow> ls_hashQueue t = []
      | Some k \<Rightarrow> \<exists>hs. ls_hashQueue t = whb_pathHash ((us @ [w]) ! k) # hs"
    unfolding h1 by (rule trigger_queue [OF u h0 n(2) refl])
  have t2: "ls_set_2 t = ci_isComplete (?R' 2)" using ok ys(1) yeq cs by (simp add: scan_ok_def)
  have af': "ls_addrPredFound t = (addr_source fc g (us @ [w]) a \<noteq> None)"
    using T(3) A af u by (auto simp: source_snoc split: option.splits)
  have df: "ls_dataPredFound t = (\<exists>i<16. ci_isComplete (?R' i))"
    unfolding T(4) complete using A S by auto
  have e: "ls_entry t = (mk_PTE (fc_pt fc) now)\<lparr>pte_addrChunk := ref_addr fc g (us @ [w]) a, pte_dataChunks := map (ref_chunk fc g (us @ [w]) a) cs\<rparr>"
    unfolding ys(1) e1 yeq by simp
  have lt: "ls_cnt t = length us" "ls_lastTick t = whb_genTick w" using T(1,2) A S by auto
  show ?thesis
    unfolding scanned_def using e af' df used hq t2 lt by (simp cong: option.case_cong)
qed

section \<open>Properties of the scan\<close>

lemma learn_step_scanned:
  assumes q: "fq_inv q" and w: "whb_ok w" and g: "pc_conf_ok g" and cs: "length cs = 16" "list_all chunk_ok cs"
    and s: "scanned fc g now a cs us s" and ticks: "\<forall>v\<in>set us. whb_genTick v \<le> whb_genTick w"
  shows "\<exists>t. learn_step fc g q a cs w s = Inr t \<and> scanned fc g now a cs (us @ [w]) t"
proof -
  obtain b where b: "whb_usable fc g w = Inr b" using whb_usable_ok [OF g] by blast
  show ?thesis
  proof (cases b)
    case False
    then show ?thesis using b scanned_skip [OF s] by (simp add: learn_step_def)
  next
    case True
    have tick: "\<not> ls_lastTick s > whb_genTick w"
      using s ticks by (auto simp: scanned_def not_less)
    let ?s = "s\<lparr>ls_lastTick := whb_genTick w\<rparr>"
    obtain s1 where s1: "learn_addr fc q a w ?s = Inr s1" "after_addr fc a w ?s s1"
      using learn_addr_ok [OF q w] by blast
    have "scan_ok cs s1"
      using scanned_scan_ok [OF cs(1) s] s1(2) by (auto simp: scan_ok_def after_addr_def Let_def)
    from learn_chunks_ok [OF q w cs this] obtain t where t: "fold_res (learn_chunk q a cs w) [0..<16] s1 = Inr t"
      "scan_ok cs t" "after_chunks 16 a cs w s1 t" by blast
    have "learn_step fc g q a cs w s = Inr (t\<lparr>ls_cnt := ls_cnt t + 1\<rparr>)"
      unfolding learn_step_def using b True tick s1(1) t(1) whb_ok_reads(4) [OF w] by simp
    moreover have "whb_usable fc g w = Inr True" using b True by simp
    ultimately show ?thesis
      using scanned_use [OF cs(1) s _ s1(2) t(3,2)] by blast
  qed
qed

lemma learn_scan_scanned:
  assumes q: "history_ok q" and g: "pc_conf_ok g" and cs: "length cs = 16" "list_all chunk_ok cs"
  shows "\<exists>s. learn_scan fc g now q a cs = Inr s \<and> scanned fc g now a cs (fq_queue q) s"
proof -
  have "\<exists>s. fold_res (learn_step fc g q a cs) us (LearnState_init (fc_pt fc) now) = Inr s \<and> scanned fc g now a cs us s"
    if "list_all whb_ok us" "sorted (map whb_genTick us)" for us
    using that
  proof (induction us rule: rev_induct)
    case Nil
    then show ?case using scanned_Nil [OF cs(1)] by simp
  next
    case (snoc w us)
    then obtain s where s: "fold_res (learn_step fc g q a cs) us (LearnState_init (fc_pt fc) now) = Inr s"
      "scanned fc g now a cs us s" by (auto simp: sorted_append)
    have "\<forall>v\<in>set us. whb_genTick v \<le> whb_genTick w" using snoc.prems(2) by (auto simp: sorted_append)
    from learn_step_scanned [OF _ _ g cs s(2) this, of q] snoc.prems(1) q s(1) show ?case
      by (auto simp: history_ok_def fold_res_append)
  qed
  then show ?thesis using q by (simp add: learn_scan_def history_ok_def)
qed

section \<open>Entering the result\<close>

lemma missing_chunks_ok:
  assumes cs: "length cs = 16" "list_all chunk_ok cs" and fs: "length fs = 16" "list_all chunk_ok fs"
  shows "\<exists>n. missing_chunks cs fs = Inr n \<and>
    (n = 0 \<longleftrightarrow> (\<forall>i<16. ci_chunkType (cs ! i) = CT_DATA \<longrightarrow> ci_chunkType (fs ! i) = CT_DATA))"
proof -
  define b where "b = (\<lambda>i (n :: nat). bindE (bindE (arr_get cs i) is_valid) (\<lambda>v. if \<not> v then Inr n
       else bindE (bindE (arr_get fs i) is_invalid) (\<lambda>b. if \<not> b then Inr n
            else bindE (bindE (arr_get cs i) get_data) (\<lambda>_. Inr (n + 1)))))"
  have step: "b i n = Inr (if ci_chunkType (cs ! i) = CT_DATA \<and> ci_chunkType (fs ! i) \<noteq> CT_DATA then n + 1 else n)" if "i < 16" for i n
  proof -
    have "chunk_ok (cs ! i)" "chunk_ok (fs ! i)" using that cs fs by (auto simp: list_all_length)
    then show ?thesis using that cs(1) fs(1) by (simp add: b_def)
  qed
  have "\<exists>n. fold_res b [0..<m] 0 = Inr n \<and>
      (n = 0 \<longleftrightarrow> (\<forall>i<m. ci_chunkType (cs ! i) = CT_DATA \<longrightarrow> ci_chunkType (fs ! i) = CT_DATA))" if "m \<le> 16" for m
    using that
  proof (induction m)
    case 0
    then show ?case by simp
  next
    case (Suc m)
    have "m \<le> 16" using Suc.prems by simp
    from Suc.IH [OF this] obtain n where n: "fold_res b [0..<m] 0 = Inr n"
      "n = 0 \<longleftrightarrow> (\<forall>i<m. ci_chunkType (cs ! i) = CT_DATA \<longrightarrow> ci_chunkType (fs ! i) = CT_DATA)" by blast
    let ?n = "if ci_chunkType (cs ! m) = CT_DATA \<and> ci_chunkType (fs ! m) \<noteq> CT_DATA then n + 1 else n"
    have "fold_res b [0..<Suc m] 0 = Inr ?n"
      using n(1) step [of m n] Suc.prems by (simp add: fold_res_append)
    moreover have "?n = 0 \<longleftrightarrow> (\<forall>i<Suc m. ci_chunkType (cs ! i) = CT_DATA \<longrightarrow> ci_chunkType (fs ! i) = CT_DATA)"
      unfolding All_less_Suc using n(2) by simp
    ultimately show ?case by (intro exI [of _ ?n] conjI)
  qed
  from this [OF order_refl] show ?thesis unfolding missing_chunks_def b_def .
qed

lemma mark_used:
  assumes "fq_inv q" and "\<forall>k\<in>set ks. k < length (fq_queue q)"
  shows "\<exists>ws. markIHBEntriesAsUsed ks q = Inr (q\<lparr>fq_queue := ws\<rparr>) \<and> length ws = length (fq_queue q) \<and>
    (\<forall>k<length ws. ws ! k = (if k \<in> set ks then whb_use (fq_queue q ! k) else fq_queue q ! k))"
  using assms
proof (induction ks arbitrary: q)
  case Nil
  then show ?case by (auto simp: markIHBEntriesAsUsed_def intro!: exI [of _ "fq_queue q"])
next
  case (Cons k ks)
  let ?q = "q\<lparr>fq_queue := (fq_queue q)[k := whb_use (fq_queue q ! k)]\<rparr>"
  have "fq_inv ?q" using Cons.prems(1) by (simp add: fq_inv_def)
  moreover have "\<forall>j\<in>set ks. j < length (fq_queue ?q)" using Cons.prems(2) by simp
  ultimately obtain ws where ws: "markIHBEntriesAsUsed ks ?q = Inr (?q\<lparr>fq_queue := ws\<rparr>)" "length ws = length (fq_queue q)"
    "\<forall>j<length ws. ws ! j = (if j \<in> set ks then whb_use (fq_queue ?q ! j) else fq_queue ?q ! j)"
    using Cons.IH [of ?q] by auto
  have "markIHBEntriesAsUsed (k # ks) q = markIHBEntriesAsUsed ks ?q"
    using Cons.prems fq_get_cases [OF Cons.prems(1), of k] by (simp add: markIHBEntriesAsUsed_def)
  moreover have "whb_use (whb_use w) = whb_use w" for w by (simp add: whb_use_def)
  then have "\<forall>j<length ws. ws ! j = (if j \<in> set (k # ks) then whb_use (fq_queue q ! j) else fq_queue q ! j)"
    using ws(2,3) Cons.prems(2) by (auto simp: nth_list_update)
  ultimately show ?case using ws(1,2) by (intro exI [of _ ws]) simp
qed

lemma whb_use_ok: "whb_ok (whb_use w) = whb_ok w" "whb_genTick (whb_use w) = whb_genTick w"
  by (simp_all add: whb_ok_def whb_use_def)

lemma history_ok_used:
  assumes q: "history_ok q" and len: "length ws = length (fq_queue q)"
    and ws: "\<forall>k<length ws. ws ! k = (if P k then whb_use (fq_queue q ! k) else fq_queue q ! k)"
  shows "history_ok (q\<lparr>fq_queue := ws\<rparr>)"
proof -
  have "map whb_genTick ws = map whb_genTick (fq_queue q)"
    by (rule nth_equalityI) (use len ws whb_use_ok(2) in auto)
  moreover have "list_all whb_ok ws"
    using q len ws by (auto simp: list_all_length history_ok_def whb_use_ok(1))
  ultimately show ?thesis using q len by (simp add: history_ok_def fq_inv_def)
qed

text \<open>Everything of the line occurs in usable writes of the history.\<close>

definition explained :: "FeCfg \<Rightarrow> Globals \<Rightarrow> WriteHistoryBufferEntry list \<Rightarrow> Addr_t \<Rightarrow> ChunkInfo list \<Rightarrow> bool" where
  "explained fc g ws a cs = (addr_source fc g ws a \<noteq> None \<and>
     (\<forall>i<16. ci_chunkType (cs ! i) = CT_DATA \<longrightarrow> data_source fc g ws (chunk_data (cs ! i)) \<noteq> None))"

text \<open>The entry that a fully explained line gives.\<close>

definition learned_entry :: "FeCfg \<Rightarrow> Globals \<Rightarrow> Tick \<Rightarrow> WriteHistoryBufferEntry list \<Rightarrow> Addr_t \<Rightarrow> CacheLine \<Rightarrow> hash_t \<Rightarrow> PredictorTableEntry" where
  "learned_entry fc g now ws a cl h = pte_set_hash h (pte_set_original_cacheline cl ((mk_PTE (fc_pt fc) now)
     \<lparr>pte_addrChunk := ref_addr fc g ws a, pte_dataChunks := map (ref_chunk fc g ws a) (cl_dataChunks cl)\<rparr>))"

lemma ref_chunk_ok: "chunk_ok (ref_chunk fc g ws a c)"
  by (auto simp: ref_chunk_def trained_chunk_def chunk_ok_def is_flag_set_def split: option.splits)

lemma ref_chunk_type: "ci_chunkType (ref_chunk fc g ws a c) = CT_DATA \<longleftrightarrow>
    ci_chunkType c = CT_DATA \<and> data_source fc g ws (chunk_data c) \<noteq> None"
  by (auto simp: ref_chunk_def split: option.splits)

definition rewards_ok :: "PTCfg \<Rightarrow> bool" where
  "rewards_ok cfg = (0 \<le> pc_addrReward cfg \<and> 0 \<le> pc_dataReward cfg)"

lemma learned_entry_ok:
  assumes "rewards_ok (fc_pt fc)" and "length (cl_dataChunks cl) = 16"
  shows "elem_ok (learned_entry fc g now ws a cl h)" "pte_hash (learned_entry fc g now ws a cl h) = h"
  using assms
  by (auto simp: elem_ok_def learned_entry_def pte_set_hash_def pte_set_original_cacheline_def mk_PTE_def rewards_ok_def
      conf_inv_def mk_Confidence_def list_all_iff ref_chunk_ok)

lemma learn_enter:
  assumes ls: "scanned fc g now a (cl_dataChunks cl) ws ls" and cl: "cl_ok cl" "\<exists>i<16. ci_chunkType (cl_dataChunks cl ! i) = CT_DATA"
    and d: "d \<longleftrightarrow> (\<forall>i<16. ci_chunkType (cl_dataChunks cl ! i) = CT_DATA \<longrightarrow> data_source fc g ws (chunk_data (cl_dataChunks cl ! i)) \<noteq> None)"
    and rw: "rewards_ok (fc_pt fc)" and t: "prt_inv (fe_predictorTable fe)" and ct: "conf_table_ok g"
  shows "if explained fc g ws a (cl_dataChunks cl)
    then \<exists>k g' t'. trigger fc g ws a (cl_dataChunks cl) = Some k \<and>
      prt_add (learned_entry fc g now ws a cl (whb_pathHash (ws ! k))) (g, fe_predictorTable fe) = Inr (g', t') \<and>
      enter_scan cl ls d (g, fe) = Inr (g', fe\<lparr>fe_pWritesFoundInWHB := fe_pWritesFoundInWHB fe + 1, fe_predictorTable := t'\<rparr>)
    else enter_scan cl ls d (g, fe) = Inr (g, fe)"
proof -
  let ?cs = "cl_dataChunks cl"
  have len: "length ?cs = 16" using cl(1) by (simp add: cl_ok_def)
  note S = ls [unfolded scanned_def]
  have ex: "explained fc g ws a ?cs \<longleftrightarrow> ls_addrPredFound ls \<and> d" using S d by (auto simp: explained_def)
  show ?thesis
  proof (cases "explained fc g ws a ?cs")
    case False
    then have "\<not> (ls_addrPredFound ls \<and> d)" using ex by simp
    then show ?thesis using False by (simp only: enter_scan_def if_True if_False not_False_eq_True)
  next
    case True
    then have fd: "ls_addrPredFound ls" d using ex by auto
    have "trigger fc g ws a ?cs \<noteq> None"
      using True unfolding explained_def source_def first_index_None by blast
    then obtain k where k: "trigger fc g ws a ?cs = Some k" by blast
    obtain hs where hs: "ls_hashQueue ls = whb_pathHash (ws ! k) # hs" using S k by auto
    let ?h = "whb_pathHash (ws ! k)"
    let ?e = "learned_entry fc g now ws a cl ?h"
    note el = learned_entry_ok [OF rw len]
    obtain i where i: "i < 16" "ci_chunkType (?cs ! i) = CT_DATA" using cl(2) by blast
    then have "ci_chunkType (ref_chunk fc g ws a (?cs ! i)) = CT_DATA" using True by (auto simp: ref_chunk_type explained_def)
    then have "ref_chunk fc g ws a (?cs ! i) \<in> set (filter (\<lambda>c. ci_chunkType c = CT_DATA) (map (ref_chunk fc g ws a) ?cs))"
      using i(1) len by auto
    then have "length (filter (\<lambda>c. ci_chunkType c = CT_DATA) (map (ref_chunk fc g ws a) ?cs)) \<noteq> 0" by fastforce
    then have vc: "\<exists>n. valid_count (map (ref_chunk fc g ws a) ?cs) = Inr n \<and> n \<noteq> 0"
      using valid_count_ok [of "map (ref_chunk fc g ws a) ?cs"] ref_chunk_ok by auto
    have eq: "pte_set_hash ?h (pte_set_original_cacheline cl (ls_entry ls)) = ?e"
      using S by (simp add: learned_entry_def)
    from prt_add_run [OF el(1) t ct] obtain g' t' where pa: "prt_add ?e (g, fe_predictorTable fe) = Inr (g', t')" by blast
    have "addToPredictorTable ?h (pte_set_original_cacheline cl (ls_entry ls)) (g, fe_predictorTable fe) = Inr (g', t')"
      using vc pa eq S by (auto simp: addToPredictorTable_def pte_set_original_cacheline_def)
    then have "enter_scan cl ls d (g, fe) = Inr (g', fe\<lparr>fe_pWritesFoundInWHB := fe_pWritesFoundInWHB fe + 1, fe_predictorTable := t'\<rparr>)"
      using fd hs by (simp add: enter_scan_def)
    then show ?thesis using True k pa by auto
  qed
qed

text \<open>Processing a line touches the history, the two predictors and the statistics only.\<close>

definition learn_frame_fe :: "Frontend \<Rightarrow> Frontend \<Rightarrow> bool" where
  "learn_frame_fe fe fe' = (fe_pendingTable fe' = fe_pendingTable fe \<and> fe_parents fe' = fe_parents fe \<and>
     fe_nextParent fe' = fe_nextParent fe \<and> fe_cacheLineAccumulator fe' = fe_cacheLineAccumulator fe \<and>
     fe_lastWriteTickToAddr fe' = fe_lastWriteTickToAddr fe)"

lemma line_invalid_ok:
  assumes "list_all chunk_ok (cl_dataChunks cl)"
  shows "all_invalid cl = Inr (\<forall>c\<in>set (cl_dataChunks cl). ci_chunkType c \<noteq> CT_DATA)"
proof -
  have "fold_res (\<lambda>c r. bindE (is_valid c) (\<lambda>v. Inr (if v then False else r))) cs r = Inr (r \<and> (\<forall>c\<in>set cs. ci_chunkType c \<noteq> CT_DATA))"
    if "list_all chunk_ok cs" for cs r
    using that by (induction cs arbitrary: r) auto
  from this [OF assms] show ?thesis by (simp add: all_invalid_def)
qed

lemma gen_ticks_ok: "list_all whb_ok ws \<Longrightarrow> \<exists>ts. map_res whb_get_gen_tick ws = Inr ts"
  by (induction ws) (auto simp: whb_ok_reads(4))

lemma processLastAccLine_ok:
  assumes en: "g_predictorEnabled g" and f: "um_find (fe_cacheLineAccumulator fe) a = Some cl" and cl: "cl_ok cl"
    and some: "\<exists>i<16. ci_chunkType (cl_dataChunks cl ! i) = CT_DATA" and q: "history_ok (fe_writeHistoryBuffer fe)"
    and pc: "pc_conf_ok g" and ct: "conf_table_ok g" and t: "prt_inv (fe_predictorTable fe)" and ap: "ap_inv (fe_addrPredictor fe)"
    and rw: "rewards_ok (fc_pt fc)"
    and ws: "ws = fq_queue (fe_writeHistoryBuffer fe)" and cs: "cs = cl_dataChunks cl"
  shows "\<exists>g' fe' ws'. processLastAccLine fc now a (g, fe) = Inr (g', fe') \<and> learn_frame_fe fe fe' \<and>
    set_last_seen_addr a (fe_addrPredictor fe) = Inr (fe_addrPredictor fe') \<and>
    fe_writeHistoryBuffer fe' = (fe_writeHistoryBuffer fe)\<lparr>fq_queue := ws'\<rparr> \<and> length ws' = length ws \<and>
    (\<forall>k<length ws'. ws' ! k = (if addr_source fc g ws a = Some k \<or>
         (\<exists>i<16. ci_chunkType (cs ! i) = CT_DATA \<and> data_source fc g ws (chunk_data (cs ! i)) = Some k)
       then whb_use (ws ! k) else ws ! k)) \<and>
    (if explained fc g ws a cs
     then \<exists>k. trigger fc g ws a cs = Some k \<and>
        prt_add (learned_entry fc g now ws a cl (whb_pathHash (ws ! k))) (g, fe_predictorTable fe) = Inr (g', fe_predictorTable fe')
     else g' = g \<and> fe_predictorTable fe' = fe_predictorTable fe)"
proof -
  have cs16: "length cs = 16" "list_all chunk_ok cs" using cl by (auto simp: cl_ok_def cs)
  have inv: "all_invalid cl = Inr False"
    using line_invalid_ok [of cl] cs16 some by (fastforce simp: cs in_set_conv_nth)
  obtain z where z: "all_zeros cl = Inr z"
    using all_zeros_loop_total [OF cs16(2)] by (auto simp: all_zeros_def cs)
  obtain ap' where ap': "set_last_seen_addr a (fe_addrPredictor fe) = Inr ap'" using set_last_seen_addr_ok [OF ap] by blast
  obtain ts where ts: "map_res whb_get_gen_tick (fq_queue (fe_writeHistoryBuffer fe)) = Inr ts"
    using gen_ticks_ok q by (auto simp: history_ok_def)
  from learn_scan_scanned [OF q pc cs16] obtain ls where ls: "learn_scan fc g now (fe_writeHistoryBuffer fe) a (cl_dataChunks cl) = Inr ls"
    "scanned fc g now a (cl_dataChunks cl) ws ls" unfolding cs ws by blast
  note S = ls(2) [unfolded scanned_def]
  have fs: "pte_dataChunks (ls_entry ls) = map (ref_chunk fc g ws a) cs" using S by (simp add: cs)
  have fs16: "length (map (ref_chunk fc g ws a) cs) = 16" "list_all chunk_ok (map (ref_chunk fc g ws a) cs)"
    using cs16(1) ref_chunk_ok by (auto simp: list_all_iff)
  from missing_chunks_ok [OF cs16 fs16] obtain n where n: "missing_chunks cs (map (ref_chunk fc g ws a) cs) = Inr n"
    "n = 0 \<longleftrightarrow> (\<forall>i<16. ci_chunkType (cs ! i) = CT_DATA \<longrightarrow> data_source fc g ws (chunk_data (cs ! i)) \<noteq> None)"
    using cs16(1) by (auto simp: ref_chunk_type)
  let ?d = "ls_dataPredFound ls \<and> n = 0"
  have dd: "?d \<longleftrightarrow> (\<forall>i<16. ci_chunkType (cs ! i) = CT_DATA \<longrightarrow> data_source fc g ws (chunk_data (cs ! i)) \<noteq> None)"
  proof -
    have "ls_dataPredFound ls \<longleftrightarrow> (\<exists>i<16. ci_isComplete (ref_chunk fc g ws a (cs ! i)))" using S by (simp add: cs)
    then have "n = 0 \<Longrightarrow> ls_dataPredFound ls" using n(2) some by (auto simp: ref_chunk_complete cs)
    then show ?thesis using n(2) by blast
  qed
  define fe1 where "fe1 = count_scan ls ?d n (fe\<lparr>fe_pmAccumulatorFlushes := fe_pmAccumulatorFlushes fe + 1, fe_addrPredictor := ap',
      fe_zeroCachelines := fe_zeroCachelines fe + of_bool z\<rparr>)"
  have fe1: "fe_predictorTable fe1 = fe_predictorTable fe" "fe_writeHistoryBuffer fe1 = fe_writeHistoryBuffer fe"
    "fe_addrPredictor fe1 = ap'" "learn_frame_fe fe fe1"
    by (simp_all add: fe1_def count_scan_def learn_frame_fe_def)
  have t1: "prt_inv (fe_predictorTable fe1)" using t fe1(1) by simp
  have "fq_inv (fe_writeHistoryBuffer fe)" using q by (simp add: history_ok_def)
  moreover have "\<forall>k\<in>set (ls_usedWHBIndices ls). k < length (fq_queue (fe_writeHistoryBuffer fe))"
    using S source_lt unfolding ws by (metis (no_types, lifting))
  ultimately obtain ws' where m: "markIHBEntriesAsUsed (ls_usedWHBIndices ls) (fe_writeHistoryBuffer fe) = Inr ((fe_writeHistoryBuffer fe)\<lparr>fq_queue := ws'\<rparr>)"
    "length ws' = length ws" "\<forall>k<length ws'. ws' ! k = (if k \<in> set (ls_usedWHBIndices ls) then whb_use (ws ! k) else ws ! k)"
    using mark_used unfolding ws by blast
  have used: "k \<in> set (ls_usedWHBIndices ls) \<longleftrightarrow> addr_source fc g ws a = Some k \<or>
      (\<exists>i<16. ci_chunkType (cs ! i) = CT_DATA \<and> data_source fc g ws (chunk_data (cs ! i)) = Some k)" for k
    using S unfolding cs by blast
  have run: "processLastAccLine fc now a (g, fe) = bindE (enter_scan cl ls ?d (g, fe1)) (\<lambda>(g, fe2).
      bindE (markIHBEntriesAsUsed (ls_usedWHBIndices ls) (fe_writeHistoryBuffer fe2)) (\<lambda>q'. Inr (g, fe2\<lparr>fe_writeHistoryBuffer := q'\<rparr>)))"
    using en f inv ap' z ts ls(1) n(1) by (simp add: processLastAccLine_def Let_def fs fe1_def cs [symmetric])
  note E = learn_enter [OF ls(2) cl some dd [unfolded cs] rw t1 ct]
  show ?thesis
  proof (cases "explained fc g ws a cs")
    case False
    then have "enter_scan cl ls ?d (g, fe1) = Inr (g, fe1)" using E by (simp add: cs)
    then have "processLastAccLine fc now a (g, fe) = Inr (g, fe1\<lparr>fe_writeHistoryBuffer := (fe_writeHistoryBuffer fe)\<lparr>fq_queue := ws'\<rparr>\<rparr>)"
      using run m(1) fe1(2) by simp
    then show ?thesis using False fe1 m(2,3) ap' used
      by (intro exI [of _ g] exI [of _ "fe1\<lparr>fe_writeHistoryBuffer := (fe_writeHistoryBuffer fe)\<lparr>fq_queue := ws'\<rparr>\<rparr>"] exI [of _ ws'])
         (simp add: learn_frame_fe_def)
  next
    case True
    then obtain k g' t' where k: "trigger fc g ws a cs = Some k"
      "prt_add (learned_entry fc g now ws a cl (whb_pathHash (ws ! k))) (g, fe_predictorTable fe) = Inr (g', t')"
      "enter_scan cl ls ?d (g, fe1) = Inr (g', fe1\<lparr>fe_pWritesFoundInWHB := fe_pWritesFoundInWHB fe1 + 1, fe_predictorTable := t'\<rparr>)"
      using E fe1(1) by (auto simp: cs)
    let ?fe = "fe1\<lparr>fe_pWritesFoundInWHB := fe_pWritesFoundInWHB fe1 + 1, fe_predictorTable := t',
        fe_writeHistoryBuffer := (fe_writeHistoryBuffer fe)\<lparr>fq_queue := ws'\<rparr>\<rparr>"
    have "processLastAccLine fc now a (g, fe) = Inr (g', ?fe)"
      using run k(3) m(1) fe1(2) by simp
    then show ?thesis using True k(1,2) fe1 m(2,3) ap' used
      by (intro exI [of _ g'] exI [of _ ?fe] exI [of _ ws']) (simp add: learn_frame_fe_def)
  qed
qed

section \<open>Properties\<close>

text \<open>C16: Searching the history write by write for the address and for all sixteen chunks at once, with flags
  for what was found, gives what sixteen independent searches give: for every chunk of the line the first
  usable write that holds its datum, for the address the first usable write that holds its two halves.  The
  search never aborts on a well-formed history; it reports what it found, marks exactly the writes it used,
  and the hash it uses as the key is the one of the first write that gave the address or a datum other
  than zero.\<close>

theorem scan_equals_reference:
  assumes "history_ok q" and "pc_conf_ok g" and "length cs = 16" and "list_all chunk_ok cs"
  shows "\<exists>s. learn_scan fc g now q a cs = Inr s \<and>
    ls_entry s = (mk_PTE (fc_pt fc) now)\<lparr>pte_addrChunk := ref_addr fc g (fq_queue q) a,
      pte_dataChunks := map (ref_chunk fc g (fq_queue q) a) cs\<rparr> \<and>
    ls_addrPredFound s = (addr_source fc g (fq_queue q) a \<noteq> None) \<and>
    ls_dataPredFound s = (\<exists>i<16. ci_isComplete (ref_chunk fc g (fq_queue q) a (cs ! i))) \<and>
    (\<forall>k. k \<in> set (ls_usedWHBIndices s) \<longleftrightarrow> addr_source fc g (fq_queue q) a = Some k \<or>
       (\<exists>i<16. ci_chunkType (cs ! i) = CT_DATA \<and> data_source fc g (fq_queue q) (chunk_data (cs ! i)) = Some k)) \<and>
    (case trigger fc g (fq_queue q) a cs of None \<Rightarrow> ls_hashQueue s = []
     | Some k \<Rightarrow> \<exists>hs. ls_hashQueue s = whb_pathHash (fq_queue q ! k) # hs)"
  using learn_scan_scanned [OF assms, of fc now a] unfolding scanned_def by blast

definition example_whb :: "PC_t \<Rightarrow> Tick \<Rightarrow> DataChunk list \<Rightarrow> WriteHistoryBufferEntry" where
  "example_whb pc t ds = \<lparr>whb_id = Some t, whb_pc = pc,
     whb_cacheLine = (CacheLine_default t)\<lparr>cl_dataChunks := map data_chunk ds @ replicate (16 - length ds) ChunkInfo_default\<rparr>,
     whb_genTick = t, whb_pathHash = pc, whb_size = Some (of_nat (length ds)), whb_hasGenTick = True, whb_isUsed = False,
     whb_hasPathHash = True, whb_hasSize = True\<rparr>"

lemma example_whb_ok:
  assumes "length ds \<le> 16" and "pc \<noteq> 0"
  shows "whb_ok (example_whb pc t ds)"
proof -
  have "\<exists>f n. f + n \<le> 16 \<and> whb_size (example_whb pc t ds) = Some (of_nat n) \<and>
      (\<forall>j<16. ci_chunkType (cl_dataChunks (whb_cacheLine (example_whb pc t ds)) ! j) = CT_DATA \<longleftrightarrow> f \<le> j \<and> j < f + n)"
    using assms(1) by (intro exI [of _ 0] exI [of _ "length ds"]) (auto simp: example_whb_def nth_append)
  then show ?thesis using assms by (auto simp: whb_ok_def example_whb_def cl_ok_def list_all_iff)
qed

text \<open>Two stores: a pointer to the line \<open>0x10000001000\<close>, and the datum 5.\<close>

definition example_history :: whb where
  "example_history = \<lparr>fq_sz = 4, fq_queue = [example_whb 0x400010 3 [0x1000, 0x100], example_whb 0x400020 5 [5]],
     fq_ds = (mk_DataStore ''whb'')\<lparr>ds_totalInsertions := 2\<rparr>\<rparr>"

lemma example_history_ok: "history_ok example_history"
proof -
  have "whb_genTick (example_whb pc t ds) = t" for pc t ds by (simp add: example_whb_def)
  then show ?thesis by (simp add: history_ok_def example_history_def fq_inv_def mk_DataStore_def example_whb_ok)
qed

lemma example_usable: "whb_usable fc Globals_init (example_whb pc t ds) = Inr True"
  by (simp add: whb_usable_def Globals_init_def whb_is_used_def example_whb_def)

definition example_chunks :: "ChunkInfo list" where
  "example_chunks = data_chunk 5 # replicate 15 ChunkInfo_default"

lemma example_chunks_ok: "length example_chunks = 16" "list_all chunk_ok example_chunks"
  by (simp_all add: example_chunks_def list_all_iff)

lemma example_pc_conf: "pc_conf_ok Globals_init"
  by (simp add: pc_conf_ok_def Globals_init_def)

lemma example_sources:
  "data_source fc Globals_init (fq_queue example_history) 5 = Some 1"
  "addr_source fc Globals_init (fq_queue example_history) 0x10000001000 = Some 0"
proof -
  have "first_data (example_whb 0x400010 3 [0x1000, 0x100]) 5 = None"
    by (auto simp: first_data_def example_whb_def first_index_None nth_append nth_Cons split: nat.splits)
  moreover have "first_data (example_whb 0x400020 5 [5]) 5 = Some 0"
    by (simp add: first_data_def example_whb_def)
  ultimately show "data_source fc Globals_init (fq_queue example_history) 5 = Some 1"
    by (simp add: source_def example_history_def example_usable)
  have al: "cacheline_align 0x10000001000 = 0x10000001000" "cacheline_align 0x1000 = 0x1000" by code_simp+
  have "addr_match (cl_dataChunks (whb_cacheLine (example_whb 0x400010 3 [0x1000, 0x100]))) 0x10000001000 0"
    by (simp add: addr_match_def example_whb_def al)
  then have "first_addr (example_whb 0x400010 3 [0x1000, 0x100]) 0x10000001000 \<noteq> None"
    unfolding first_addr_def first_index_None by (auto intro!: exI [of _ 0])
  then show "addr_source fc Globals_init (fq_queue example_history) 0x10000001000 = Some 0"
    by (simp add: source_def example_history_def example_usable)
qed

theorem scan_equals_reference_witness:
  "\<exists>s. learn_scan example_fecfg Globals_init 9 example_history 0x10000001000 example_chunks = Inr s \<and>
     ls_addrPredFound s \<and> ls_dataPredFound s \<and> pte_dataChunks (ls_entry s) ! 0 = trained_chunk 0x10000001000 (example_whb 0x400020 5 [5]) 5 \<and>
     0 \<in> set (ls_usedWHBIndices s) \<and> 1 \<in> set (ls_usedWHBIndices s)"
proof -
  obtain s where s: "learn_scan example_fecfg Globals_init 9 example_history 0x10000001000 example_chunks = Inr s"
    and e: "ls_entry s = (mk_PTE (fc_pt example_fecfg) 9)\<lparr>pte_addrChunk := ref_addr example_fecfg Globals_init (fq_queue example_history) 0x10000001000,
      pte_dataChunks := map (ref_chunk example_fecfg Globals_init (fq_queue example_history) 0x10000001000) example_chunks\<rparr>"
    and af: "ls_addrPredFound s = (addr_source example_fecfg Globals_init (fq_queue example_history) 0x10000001000 \<noteq> None)"
    and df: "ls_dataPredFound s = (\<exists>i<16. ci_isComplete (ref_chunk example_fecfg Globals_init (fq_queue example_history) 0x10000001000 (example_chunks ! i)))"
    and u: "\<forall>k. k \<in> set (ls_usedWHBIndices s) \<longleftrightarrow> addr_source example_fecfg Globals_init (fq_queue example_history) 0x10000001000 = Some k \<or>
       (\<exists>i<16. ci_chunkType (example_chunks ! i) = CT_DATA \<and> data_source example_fecfg Globals_init (fq_queue example_history) (chunk_data (example_chunks ! i)) = Some k)"
    using scan_equals_reference [OF example_history_ok example_pc_conf example_chunks_ok, of example_fecfg 9 "0x10000001000"] by blast
  have c0: "example_chunks ! 0 = data_chunk 5" by (simp add: example_chunks_def)
  have r0: "ref_chunk example_fecfg Globals_init (fq_queue example_history) 0x10000001000 (data_chunk 5) =
      trained_chunk 0x10000001000 (example_whb 0x400020 5 [5]) 5"
    by (simp add: ref_chunk_def example_sources [simplified]) (simp add: example_history_def)
  have "ls_dataPredFound s" unfolding df by (intro exI [of _ 0]) (simp add: c0 r0)
  moreover have "pte_dataChunks (ls_entry s) ! 0 = trained_chunk 0x10000001000 (example_whb 0x400020 5 [5]) 5"
    using e example_chunks_ok(1) by (simp add: c0 r0)
  moreover have "1 \<in> set (ls_usedWHBIndices s)"
    using u example_sources(1) [of example_fecfg] c0 by (metis data_chunk_simps(2,3) zero_less_numeral)
  ultimately show ?thesis using s af u example_sources(2) by auto
qed

lemma invalid_count_ok: "list_all chunk_ok (cl_dataChunks cl) \<Longrightarrow> \<exists>n. invalid_chunk_count cl = Inr n"
proof -
  have "\<exists>n. fold_res (\<lambda>c n. bindE (is_invalid c) (\<lambda>b. Inr (if b then n + 1 else n))) cs (k :: nat) = Inr n"
    if "list_all chunk_ok cs" for cs k
    using that by (induction cs arbitrary: k) auto
  then show "list_all chunk_ok (cl_dataChunks cl) \<Longrightarrow> ?thesis" by (simp add: invalid_chunk_count_def)
qed

text \<open>What the search leaves marked in the history.\<close>

definition marked :: "FeCfg \<Rightarrow> Globals \<Rightarrow> Addr_t \<Rightarrow> ChunkInfo list \<Rightarrow> WriteHistoryBufferEntry list \<Rightarrow> WriteHistoryBufferEntry list \<Rightarrow> bool" where
  "marked fc g a cs ws ws' = (length ws' = length ws \<and> (\<forall>k<length ws'. ws' ! k =
     (if addr_source fc g ws a = Some k \<or>
         (\<exists>i<16. ci_chunkType (cs ! i) = CT_DATA \<and> data_source fc g ws (chunk_data (cs ! i)) = Some k)
      then whb_use (ws ! k) else ws ! k)))"

lemma write_back_ok:
  assumes va: "getVaddr (pk_req pkt) = Inr vaddr" and a: "a = cacheline_align vaddr"
    and en: "g_predictorEnabled g" and f: "um_find (fe_cacheLineAccumulator fe) a = Some cl" and cl: "cl_ok cl"
    and some: "\<exists>i<16. ci_chunkType (cl_dataChunks cl ! i) = CT_DATA" and q: "history_ok (fe_writeHistoryBuffer fe)"
    and pc: "pc_conf_ok g" and ct: "conf_table_ok g" and t: "prt_inv (fe_predictorTable fe)" and ap: "ap_inv (fe_addrPredictor fe)"
    and rw: "rewards_ok (fc_pt fc)" and ws: "ws = fq_queue (fe_writeHistoryBuffer fe)"
  shows "\<exists>g' fe'. fe_handleNonVolatileWrite fc w pkt True (g, fe) = Inr (g', fe') \<and>
    fe_cacheLineAccumulator fe' = um_erase a (fe_cacheLineAccumulator fe) \<and>
    fe_pendingTable fe' = fe_pendingTable fe \<and> fe_parents fe' = fe_parents fe \<and> fe_nextParent fe' = fe_nextParent fe \<and>
    fe_lastWriteTickToAddr fe' = fe_lastWriteTickToAddr fe \<and>
    set_last_seen_addr a (fe_addrPredictor fe) = Inr (fe_addrPredictor fe') \<and>
    (\<exists>ws'. fe_writeHistoryBuffer fe' = (fe_writeHistoryBuffer fe)\<lparr>fq_queue := ws'\<rparr> \<and> marked fc g a (cl_dataChunks cl) ws ws') \<and>
    (if explained fc g ws a (cl_dataChunks cl)
     then \<exists>k. trigger fc g ws a (cl_dataChunks cl) = Some k \<and>
        prt_add (learned_entry fc g (w_now w) ws a cl (whb_pathHash (ws ! k))) (g, fe_predictorTable fe) = Inr (g', fe_predictorTable fe')
     else g' = g \<and> fe_predictorTable fe' = fe_predictorTable fe)"
proof -
  let ?fe = "fe\<lparr>fe_clwbCountInclInv := fe_clwbCountInclInv fe + 1,
      fe_addrChangesBwClwb := fe_addrChangesBwClwb fe @ [fe_addrChangesSinceClwb fe], fe_addrChangesSinceClwb := 0,
      fe_clwbCount := fe_clwbCount fe + 1\<rparr>"
  have cs: "list_all chunk_ok (cl_dataChunks cl)" "length (cl_dataChunks cl) = 16" using cl by (auto simp: cl_ok_def)
  have inv: "all_invalid cl = Inr False"
    using line_invalid_ok [OF cs(1)] some cs(2) by (fastforce simp: in_set_conv_nth)
  obtain n where n: "invalid_chunk_count cl = Inr n" using invalid_count_ok [OF cs(1)] by blast
  have h: "um_find (fe_cacheLineAccumulator ?fe) a = Some cl" "history_ok (fe_writeHistoryBuffer ?fe)"
    "prt_inv (fe_predictorTable ?fe)" "ap_inv (fe_addrPredictor ?fe)" "ws = fq_queue (fe_writeHistoryBuffer ?fe)"
    using f q t ap ws by simp_all
  from processLastAccLine_ok [OF en h(1) cl some h(2) pc ct h(3,4) rw h(5) refl, of "w_now w"] obtain g' fe' ws' where
    r: "processLastAccLine fc (w_now w) a (g, ?fe) = Inr (g', fe')" "learn_frame_fe ?fe fe'"
      "set_last_seen_addr a (fe_addrPredictor ?fe) = Inr (fe_addrPredictor fe')"
      "fe_writeHistoryBuffer fe' = (fe_writeHistoryBuffer ?fe)\<lparr>fq_queue := ws'\<rparr>"
      "marked fc g a (cl_dataChunks cl) ws ws'"
      "if explained fc g ws a (cl_dataChunks cl)
       then \<exists>k. trigger fc g ws a (cl_dataChunks cl) = Some k \<and>
          prt_add (learned_entry fc g (w_now w) ws a cl (whb_pathHash (ws ! k))) (g, fe_predictorTable ?fe) = Inr (g', fe_predictorTable fe')
       else g' = g \<and> fe_predictorTable fe' = fe_predictorTable ?fe"
    unfolding marked_def by blast
  let ?fe' = "fe'\<lparr>fe_invChunkCountSampler := fe_invChunkCountSampler fe' @ [n], fe_cacheLineAccumulator := um_erase a (fe_cacheLineAccumulator fe')\<rparr>"
  have fr: "fe_cacheLineAccumulator fe' = fe_cacheLineAccumulator fe" "fe_pendingTable fe' = fe_pendingTable fe"
    "fe_parents fe' = fe_parents fe" "fe_nextParent fe' = fe_nextParent fe" "fe_lastWriteTickToAddr fe' = fe_lastWriteTickToAddr fe"
    using r(2) by (simp_all add: learn_frame_fe_def)
  have "fe_handleNonVolatileWrite fc w pkt True (g, fe) = Inr (g', ?fe')"
    using va f inv r(1) fr(1) n by (simp add: fe_handleNonVolatileWrite_def write_back_def Let_def a)
  then show ?thesis
    using r(3-6) fr by (intro exI [of _ g'] exI [of _ ?fe'] conjI exI [of _ ws']) (simp_all cong: if_cong)
qed

text \<open>C15: Writing a line back trains the predictor and never aborts.  The line leaves the accumulator and its
  address goes to the address predictor.  When the address and every chunk of the line occur in usable
  writes of the history, the entry that records these writes is in the predictor table under the path hash
  of the trigger, unless an entry that is not stale is there already; otherwise the table stays as it is.
  The writes that were used are marked and will not be used again; the history and the table stay
  well-formed.\<close>

theorem write_back_learns:
  assumes va: "getVaddr (pk_req pkt) = Inr vaddr" and a: "a = cacheline_align vaddr"
    and en: "g_predictorEnabled g" and f: "um_find (fe_cacheLineAccumulator fe) a = Some cl" and cl: "cl_ok cl"
    and some: "\<exists>i<16. ci_chunkType (cl_dataChunks cl ! i) = CT_DATA" and q: "history_ok (fe_writeHistoryBuffer fe)"
    and pc: "pc_conf_ok g" and ct: "conf_table_ok g" and t: "prt_inv (fe_predictorTable fe)" and ap: "ap_inv (fe_addrPredictor fe)"
    and rw: "rewards_ok (fc_pt fc)" and ws: "ws = fq_queue (fe_writeHistoryBuffer fe)"
  shows "\<exists>g' fe'. fe_handleNonVolatileWrite fc w pkt True (g, fe) = Inr (g', fe') \<and>
    fe_cacheLineAccumulator fe' = um_erase a (fe_cacheLineAccumulator fe) \<and>
    ap_lastSeenAddr (fe_addrPredictor fe') = a \<and> ap_inv (fe_addrPredictor fe') \<and>
    history_ok (fe_writeHistoryBuffer fe') \<and> marked fc g a (cl_dataChunks cl) ws (fq_queue (fe_writeHistoryBuffer fe')) \<and>
    prt_inv (fe_predictorTable fe') \<and>
    (if explained fc g ws a (cl_dataChunks cl)
     then \<exists>k e. trigger fc g ws a (cl_dataChunks cl) = Some k \<and>
        um_find (prt_predictorTable (fe_predictorTable fe')) (whb_pathHash (ws ! k)) = Some e \<and>
        (case survivors g (fe_predictorTable fe) (whb_pathHash (ws ! k)) of
           None \<Rightarrow> e = pte_set_order (prt_currentOrder (fe_predictorTable fe)) (learned_entry fc g (w_now w) ws a cl (whb_pathHash (ws ! k)))
         | Some old \<Rightarrow> kept_entry old e)
     else g' = g \<and> fe_predictorTable fe' = fe_predictorTable fe)"
proof -
  obtain g' fe' ws' where r: "fe_handleNonVolatileWrite fc w pkt True (g, fe) = Inr (g', fe')"
    "fe_cacheLineAccumulator fe' = um_erase a (fe_cacheLineAccumulator fe)"
    "set_last_seen_addr a (fe_addrPredictor fe) = Inr (fe_addrPredictor fe')"
    "fe_writeHistoryBuffer fe' = (fe_writeHistoryBuffer fe)\<lparr>fq_queue := ws'\<rparr>" "marked fc g a (cl_dataChunks cl) ws ws'"
    "if explained fc g ws a (cl_dataChunks cl)
     then \<exists>k. trigger fc g ws a (cl_dataChunks cl) = Some k \<and>
        prt_add (learned_entry fc g (w_now w) ws a cl (whb_pathHash (ws ! k))) (g, fe_predictorTable fe) = Inr (g', fe_predictorTable fe')
     else g' = g \<and> fe_predictorTable fe' = fe_predictorTable fe"
    using write_back_ok [OF assms] by blast
  have ap': "ap_lastSeenAddr (fe_addrPredictor fe') = a" "ap_inv (fe_addrPredictor fe')"
    using set_last_seen_addr_ok [OF ap, of a] r(3) by auto
  note mm = r(5) [unfolded marked_def ws]
  have hist: "history_ok (fe_writeHistoryBuffer fe')"
    unfolding r(4) by (rule history_ok_used [OF q conjunct1 [OF mm] conjunct2 [OF mm]])
  have m: "marked fc g a (cl_dataChunks cl) ws (fq_queue (fe_writeHistoryBuffer fe'))" using r(4,5) by simp
  have len: "length (cl_dataChunks cl) = 16" using cl by (simp add: cl_ok_def)
  show ?thesis
  proof (cases "explained fc g ws a (cl_dataChunks cl)")
    case False
    then show ?thesis using r ap' hist m t by (intro exI [of _ g'] exI [of _ fe']) simp
  next
    case True
    then obtain k where k: "trigger fc g ws a (cl_dataChunks cl) = Some k"
      "prt_add (learned_entry fc g (w_now w) ws a cl (whb_pathHash (ws ! k))) (g, fe_predictorTable fe) = Inr (g', fe_predictorTable fe')"
      using r(6) by auto
    note el = learned_entry_ok [OF rw len, of g "w_now w" ws a "whb_pathHash (ws ! k)"]
    from prt_add_run [OF el(1) t ct, unfolded el(2)] obtain g2 t2 e where e2:
      "prt_add (learned_entry fc g (w_now w) ws a cl (whb_pathHash (ws ! k))) (g, fe_predictorTable fe) = Inr (g2, t2)" "prt_inv t2"
      "um_find (prt_predictorTable t2) (whb_pathHash (ws ! k)) = Some e"
      "case survivors g (fe_predictorTable fe) (whb_pathHash (ws ! k)) of
         None \<Rightarrow> e = pte_set_order (prt_currentOrder (fe_predictorTable fe)) (learned_entry fc g (w_now w) ws a cl (whb_pathHash (ws ! k)))
       | Some old \<Rightarrow> kept_entry old e" by blast
    have "t2 = fe_predictorTable fe'" using e2(1) k(2) by simp
    note e = e2(2-) [unfolded this]
    from e(2,3) have "\<exists>k e. trigger fc g ws a (cl_dataChunks cl) = Some k \<and>
        um_find (prt_predictorTable (fe_predictorTable fe')) (whb_pathHash (ws ! k)) = Some e \<and>
        (case survivors g (fe_predictorTable fe) (whb_pathHash (ws ! k)) of
           None \<Rightarrow> e = pte_set_order (prt_currentOrder (fe_predictorTable fe)) (learned_entry fc g (w_now w) ws a cl (whb_pathHash (ws ! k)))
         | Some old \<Rightarrow> kept_entry old e)" using k(1) by blast
    then show ?thesis using r(1,2) ap' hist m e(1) True by (intro exI [of _ g'] exI [of _ fe']) simp
  qed
qed

definition example_learner :: Frontend where
  "example_learner = example_frontend\<lparr>fe_writeHistoryBuffer := example_history,
     fe_cacheLineAccumulator := [(0x10000001000, (CacheLine_default 5)\<lparr>cl_dataChunks := example_chunks\<rparr>)]\<rparr>"

lemma example_explained: "explained fc Globals_init (fq_queue example_history) 0x10000001000 example_chunks"
proof -
  have "data_source fc Globals_init (fq_queue example_history) (chunk_data (example_chunks ! i)) \<noteq> None"
    if "i < 16" "ci_chunkType (example_chunks ! i) = CT_DATA" for i
    using that example_sources(1) [of fc] by (cases i) (simp_all add: example_chunks_def)
  then show ?thesis using example_sources(2) [of fc] unfolding explained_def by blast
qed

lemma source_head: "whb_usable fc g w = Inr True \<Longrightarrow> P w \<Longrightarrow> source fc g (w # ws) P = Some 0"
  by (simp add: source_def)

lemma example_trigger: "trigger fc Globals_init (fq_queue example_history) 0x10000001000 cs = Some 0"
proof -
  have f: "first_addr (example_whb 0x400010 3 [0x1000, 0x100]) 0x10000001000 \<noteq> None"
    using source_lt [OF example_sources(2) [of fc]] by (simp add: example_history_def)
  have q: "fq_queue example_history = example_whb 0x400010 3 [0x1000, 0x100] # [example_whb 0x400020 5 [5]]"
    by (simp add: example_history_def)
  show ?thesis unfolding q by (rule source_head [OF example_usable]) (rule disjI1 [OF f])
qed

definition example_enabled :: Globals where
  "example_enabled = Globals_init\<lparr>g_predictorEnabled := True\<rparr>"

lemma example_enabled_sources: "source fc example_enabled ws P = source fc Globals_init ws P"
  by (simp add: source_def whb_usable_def example_enabled_def)

theorem write_back_learns_witness:
  "\<exists>g' fe' e. fe_handleNonVolatileWrite example_fecfg (example_world 9) (example_pkt 0x10000001000 []) True (example_enabled, example_learner) = Inr (g', fe') \<and>
     fe_cacheLineAccumulator fe' = [] \<and> um_find (prt_predictorTable (fe_predictorTable fe')) 0x400010 = Some e \<and>
     pte_dataChunks e ! 0 = trained_chunk 0x10000001000 (example_whb 0x400020 5 [5]) 5"
proof -
  let ?a = "0x10000001000 :: Addr_t" and ?ws = "fq_queue example_history"
  let ?cl = "(CacheLine_default 5)\<lparr>cl_dataChunks := example_chunks\<rparr>"
  have va: "getVaddr (pk_req (example_pkt ?a [])) = Inr ?a"
    by (simp add: example_pkt_def packet_defs)
  have al: "?a = cacheline_align ?a" by code_simp
  have en: "g_predictorEnabled example_enabled" by (simp add: example_enabled_def)
  have f: "um_find (fe_cacheLineAccumulator example_learner) ?a = Some ?cl" by (simp add: example_learner_def um_find_def)
  have cl: "cl_ok ?cl" using example_chunks_ok by (simp add: cl_ok_def)
  have some: "\<exists>i<16. ci_chunkType (cl_dataChunks ?cl ! i) = CT_DATA" by (intro exI [of _ 0]) (simp add: example_chunks_def)
  have q: "history_ok (fe_writeHistoryBuffer example_learner)" using example_history_ok by (simp add: example_learner_def)
  have pcc: "pc_conf_ok example_enabled" using example_pc_conf by (simp add: pc_conf_ok_def example_enabled_def)
  have ct: "conf_table_ok example_enabled" by (simp add: conf_table_ok_def example_enabled_def Globals_init_def um_find_def)
  have t: "prt_inv (fe_predictorTable example_learner)" using example_frontend_ok(3) by (simp add: example_learner_def)
  have ap: "ap_inv (fe_addrPredictor example_learner)"
    by (simp add: example_learner_def example_frontend_def mk_Frontend_def mk_AddrPredictor_def ap_inv_def mk_SimpleFixedSizeQueue_def)
  have rw: "rewards_ok (fc_pt example_fecfg)" by (simp add: rewards_ok_def example_fecfg_def example_ptcfg_def)
  have ws: "?ws = fq_queue (fe_writeHistoryBuffer example_learner)" by (simp add: example_learner_def)
  have empty: "prt_predictorTable (fe_predictorTable example_learner) = []"
    by (simp add: example_learner_def example_frontend_def mk_Frontend_def mk_PredictorTable_def)
  then have none: "survivors example_enabled (fe_predictorTable example_learner) h = None" for h
    by (simp add: survivors_def um_find_def)
  from write_back_learns [OF va al en f cl some q pcc ct t ap rw ws, of "example_world 9"] obtain g' fe' e k where
    r: "fe_handleNonVolatileWrite example_fecfg (example_world 9) (example_pkt ?a []) True (example_enabled, example_learner) = Inr (g', fe')"
    "fe_cacheLineAccumulator fe' = um_erase ?a (fe_cacheLineAccumulator example_learner)"
    "trigger example_fecfg example_enabled ?ws ?a example_chunks = Some k"
    "um_find (prt_predictorTable (fe_predictorTable fe')) (whb_pathHash (?ws ! k)) = Some e"
    "e = pte_set_order (prt_currentOrder (fe_predictorTable example_learner)) (learned_entry example_fecfg example_enabled (w_now (example_world 9)) ?ws ?a ?cl (whb_pathHash (?ws ! k)))"
    using example_explained [of example_fecfg] none unfolding explained_def example_enabled_sources by auto
  have "k = 0" using r(3) example_trigger [of example_fecfg] unfolding example_enabled_sources by simp
  then have "whb_pathHash (?ws ! k) = 0x400010" by (simp add: example_history_def example_whb_def)
  moreover have "pte_dataChunks e ! 0 = trained_chunk ?a (example_whb 0x400020 5 [5]) 5"
    using example_chunks_ok(1) example_sources(1) [of example_fecfg]
    by (simp add: r(5) learned_entry_def pte_set_order_def pte_set_hash_def pte_set_original_cacheline_def ref_chunk_def example_enabled_sources example_chunks_def example_history_def)
  moreover have "um_erase ?a (fe_cacheLineAccumulator example_learner) = []" by (simp add: example_learner_def um_erase_def)
  ultimately show ?thesis using r(1,2,4) by auto
qed

end
