(* ===== verification/Frontend_Predict.thy ===== *)
theory Frontend_Predict
  imports Frontend_Learning
begin

text \<open>
  Prediction, in \<open>predictor_frontend.cc\<close>: a write whose path is in the predictor table promotes its entry
  to the pending table, every write feeds the pending table, and a completed prediction goes to the back
  end.  \<open>predictorHandleRequest\<close> is the entry point.  The two average table sizes, a second distribution
  with the samples of \<open>writebackDistStat\<close> and the text printed on the way are left out.
\<close>

section \<open>Promotion\<close>

text \<open>\<open>allInvalid\<close>, and the local copy of the data, which nothing reads.\<close>

definition check_promoted :: "PredictorTableEntry \<Rightarrow> unit res" where
  "check_promoted e =
     bindE (fold_res (\<lambda>c r. if r then is_invalid c else Inr False) (pte_dataChunks e) True) (\<lambda>allInvalid.
     bindE (panic_if allInvalid ''All data chunks in the completed entry from predictor table are invalid'') (\<lambda>_.
     bindE (map_res (\<lambda>c. bindE (is_valid c) (\<lambda>v. if v then get_data c else Inr 0)) (pte_dataChunks e)) (\<lambda>_. Inr ())))"

definition parent_chunk :: "ChunkInfo \<Rightarrow> ChunkInfo \<Rightarrow> ChunkInfo res" where
  "parent_chunk c p =
     bindE (is_valid c) (\<lambda>v.
     if v then bindE (get_generating_pc c) (\<lambda>pc. Inr (set_generating_pc pc (set_chunk_type CT_DATA p))) else Inr p)"

definition new_parent :: "Tick \<Rightarrow> PredictorTableEntry \<Rightarrow> PendingTableEntryParent res" where
  "new_parent now e =
     bindE (map_res (\<lambda>(c, p). parent_chunk c p) (zip (pte_dataChunks e) (cl_dataChunks (CacheLine_default now)))) (\<lambda>cs.
     bindE (pte_get_hash e) (\<lambda>h.
     bindE (pte_get_original_cacheline e) (\<lambda>orig.
     Inr (pp_set_original_cacheline orig (pp_set_generator_hash h
            ((mk_Parent now)\<lparr>pp_cacheline := (CacheLine_default now)\<lparr>cl_dataChunks := cs\<rparr>\<rparr>))))))"

text \<open>A constant zero goes into the line of the parent, which is not told that the chunk is complete.\<close>

definition const_0_chunk :: "Tick \<Rightarrow> nat \<Rightarrow> PendingTableEntryParent \<Rightarrow> PendingTableEntryParent res" where
  "const_0_chunk now i p =
     bindE (arr_get (cl_dataChunks (pp_cacheline p)) i) (\<lambda>c.
     bindE (set_data 0 (set_chunk_type CT_DATA (set_time_of_gen now c))) (\<lambda>c1.
     bindE (arr_set (cl_dataChunks (pp_cacheline p)) i (set_generating_pc (- 1) c1)) (\<lambda>cs.
     Inr (p\<lparr>pp_cacheline := (pp_cacheline p)\<lparr>cl_dataChunks := cs\<rparr>\<rparr>))))"

definition promote_chunk :: "Tick \<Rightarrow> nat \<Rightarrow> PredictorTableEntry \<Rightarrow> nat \<Rightarrow> Frontend \<Rightarrow> Frontend res" where
  "promote_chunk now ptr e i fe =
     bindE (arr_get (pte_dataChunks e) i) (\<lambda>c.
     bindE (is_valid c) (\<lambda>v.
     if \<not> v then Inr fe
     else if is_const_0_pred c
     then bindE (deref (fe_parents fe) (Some ptr)) (\<lambda>(a, p).
          bindE (const_0_chunk now i p) (\<lambda>p'.
          Inr (fe\<lparr>fe_parents := (fe_parents fe)(a \<mapsto> p'), fe_constant0Prediction := fe_constant0Prediction fe + 1\<rparr>)))
     else let c1 = set_chunk_type CT_DATA c in
          bindE (assertE (has_data_field_offset c1) ''has_data_field_offset'') (\<lambda>_.
          bindE (get_generating_pc c1) (\<lambda>pc.
          bindE (assertE (pc \<noteq> 0) ''get_generating_pc'') (\<lambda>_.
          bindE (pt_add (mk_PendTableChunkInfo c1 (Some ptr) (int i)) (fe_writeHistoryBuffer fe)
                   (fe_parents fe, fe_pendingTable fe)) (\<lambda>(h, pt).
          Inr (fe\<lparr>fe_parents := h, fe_pendingTable := pt\<rparr>)))))))"

definition promote :: "FeCfg \<Rightarrow> Tick \<Rightarrow> hash_t \<Rightarrow> Frontend \<Rightarrow> Frontend res" where
  "promote fc now h fe =
     bindE (get_with_hash (fc_pt fc) now h (fe_predictorTable fe)) (\<lambda>e.
     bindE (check_promoted e) (\<lambda>_.
     bindE (new_parent now e) (\<lambda>p.
     let ptr = fe_nextParent fe;
         fe1 = fe\<lparr>fe_parents := (fe_parents fe)(ptr \<mapsto> p), fe_nextParent := ptr + 1\<rparr> in
     bindE (assertE (has_data_field_offset (pte_addrChunk e)) ''has_data_field_offset'') (\<lambda>_.
     bindE (pt_add (mk_PendTableChunkInfo (pte_addrChunk e) (Some ptr) 0) (fe_writeHistoryBuffer fe1)
              (fe_parents fe1, fe_pendingTable fe1)) (\<lambda>(hp, pt).
     fold_res (promote_chunk now ptr e) [0..<DATA_CHUNK_COUNT] (fe1\<lparr>fe_parents := hp, fe_pendingTable := pt\<rparr>))))))"

section \<open>Completed predictions\<close>

text \<open>The tracker of constant chunks overrides a chunk that the trained line had.\<close>

definition const_prediction :: "(size_t, constChunkLocator) umap \<Rightarrow> size_t \<times> constChunkLocator \<Rightarrow> CompletedWriteEntry \<Rightarrow>
    CompletedWriteEntry res" where
  "const_prediction m x e =
     (if \<not> cc_timesFound (snd x) > 0 then Inr e
      else bindE (cw_get_orig_cacheline e) (\<lambda>orig.
        bindE (arr_get (cl_dataChunks orig) (unat (fst x))) (\<lambda>oc.
        bindE (is_valid oc) (\<lambda>v.
        if \<not> v then Inr e
        else bindE (get_data oc) (\<lambda>_.
             bindE (um_at m (fst x)) (\<lambda>loc.
             bindE (arr_get (cl_dataChunks (cw_cacheline e)) (unat (fst x))) (\<lambda>c.
             bindE (set_data (cc_lastData loc) (set_chunk_type CT_DATA c)) (\<lambda>c1.
             bindE (arr_set (cl_dataChunks (cw_cacheline e)) (unat (fst x)) (set_constant_pred c1)) (\<lambda>cs.
             Inr (e\<lparr>cw_cacheline := (cw_cacheline e)\<lparr>cl_dataChunks := cs\<rparr>\<rparr>)))))))))) "

definition handleConstPredictions :: "Globals \<Rightarrow> CompletedWriteEntry \<Rightarrow> CompletedWriteEntry res" where
  "handleConstPredictions g e =
     bindE (cw_get_generator_hash e) (\<lambda>h.
     case um_find (g_constPredTracker g) h of
       None \<Rightarrow> Inr e
     | Some m \<Rightarrow> fold_res (const_prediction m) m e)"

definition completed_entry :: "Tick \<Rightarrow> PendingTableEntryParent \<Rightarrow> CompletedWriteEntry res" where
  "completed_entry now p =
     bindE (get_target_addr (pp_addr p)) (\<lambda>addr.
     bindE (pp_get_generator_hash p) (\<lambda>h.
     bindE (pp_get_original_cacheline p) (\<lambda>orig.
     bindE (get_time_of_gen (pp_addr p)) (\<lambda>ta.
     bindE (cl_get_time_of_gen (pp_cacheline p)) (\<lambda>td.
     Inr (cw_set_time_of_creation now (cw_set_time_of_data_gen td (cw_set_time_of_addr_gen ta
            (cw_set_orig_cacheline orig (mk_CompletedWriteEntry now addr (pp_cacheline p) h))))))))))"

definition send_write :: "World \<Rightarrow> parents \<Rightarrow> nat \<Rightarrow> Globals \<times> nat \<Rightarrow> (Globals \<times> nat) res" where
  "send_write w h a s =
     bindE (deref h (Some a)) (\<lambda>(_, p).
     bindE (completed_entry (w_now w) p) (\<lambda>e.
     bindE (handleConstPredictions (fst s) e) (\<lambda>e1.
     bindE (panic_if_not (cw_has_addr e1) ''has_addr'') (\<lambda>_.
     bindE (addCompletedWrite (w_now w) (w_meta w) (w_pageTable w) e1 (fst s)) (\<lambda>g.
     Inr (g, snd s + 1))))))"

text \<open>The loop after the last write pops the queue as long as it is empty.\<close>

definition sendWritesToBackend :: "World \<Rightarrow> nat list \<Rightarrow> Globals \<times> Frontend \<Rightarrow> (Globals \<times> Frontend) res" where
  "sendWritesToBackend w completedEntries s =
     bindE (fold_res (send_write w (fe_parents (snd s))) completedEntries (fst s, fe_predictedWriteCount (snd s))) (\<lambda>(g, n).
     if completedEntries = [] then Inl (Undefined ''pop_front of an empty queue'')
     else Inr (g, (snd s)\<lparr>fe_predictedWriteCount := n\<rparr>))"

section \<open>Feeding the pending table\<close>

definition retarget :: "Addr_t \<Rightarrow> nat \<Rightarrow> parents \<Rightarrow> parents res" where
  "retarget addr a h =
     bindE (deref h (Some a)) (\<lambda>(_, p).
     bindE (get_target_addr (pp_addr p)) (\<lambda>_.
     bindE (set_target_addr addr (pp_addr p)) (\<lambda>c.
     Inr (h(a \<mapsto> p\<lparr>pp_addr := c\<rparr>)))))"

definition override_addrs :: "FeCfg \<Rightarrow> AddrPredictor \<Rightarrow> nat list \<Rightarrow> parents \<Rightarrow> parents res" where
  "override_addrs fc ap ws h =
     bindE (can_pred_addr ap) (\<lambda>b.
     if b \<and> \<not> fc_disableFancyAddrPred fc
     then fold_res (\<lambda>a h. bindE (predict_addr ap) (\<lambda>addr. retarget addr a h)) ws h
     else Inr h)"

text \<open>The writes the packet completes.  The line built from the packet is not used.\<close>

definition feed_pending :: "Tick \<Rightarrow> Packet \<Rightarrow> PC_t \<Rightarrow> Addr_t \<Rightarrow> DataChunk list \<Rightarrow> nat \<Rightarrow> Frontend \<Rightarrow> (nat list \<times> Frontend) res" where
  "feed_pending now pkt pc addr src chunkCount fe =
     (if \<not> pt_has_pc_waiting (fe_pendingTable fe) pc then Inr ([], fe)
      else bindE (map_res (arr_get src) [0..<chunkCount]) (\<lambda>_.
        bindE (getAddr pkt) (\<lambda>_.
        bindE (fold_res (\<lambda>i cs. bindE (arr_get src i) (\<lambda>d. store_chunk (i + chunk_offset addr) d cs)) [0..<chunkCount]
                 (cl_dataChunks (CacheLine_default now))) (\<lambda>_.
        bindE (update_entry_state now pc src chunkCount (fe_parents fe, fe_pendingTable fe)) (\<lambda>(ws, h, pt).
        Inr (ws, fe\<lparr>fe_parents := h, fe_pendingTable := pt\<rparr>))))))"

definition updatePendingTable :: "FeCfg \<Rightarrow> World \<Rightarrow> Packet \<Rightarrow> Globals \<times> Frontend \<Rightarrow> (Globals \<times> Frontend) res" where
  "updatePendingTable fc w pkt s =
     bindE (assertE (hasVaddr (pk_req pkt) \<and> hasPC (pk_req pkt)) ''hasVaddr, hasPC'') (\<lambda>_.
     bindE (getPC (pk_req pkt)) (\<lambda>pc.
     bindE (getVaddr (pk_req pkt)) (\<lambda>addr.
     bindE (getPtr pkt) (\<lambda>pktData.
     bindE (req_getSize (pk_req pkt)) (\<lambda>len.
     bindE (feed_pending (w_now w) pkt pc addr pktData (len div 4) (snd s)) (\<lambda>(predictedWrites, fe).
     if predictedWrites = [] then Inr (fst s, fe)
     else bindE (override_addrs fc (fe_addrPredictor fe) predictedWrites (fe_parents fe)) (\<lambda>h.
          bindE (sendWritesToBackend w predictedWrites (fst s, fe\<lparr>fe_parents := h\<rparr>)) (\<lambda>(g, fe1).
          bindE (map_res (\<lambda>a. bindE (deref h (Some a)) (\<lambda>(_, p). pp_get_generator_hash p)) predictedWrites) (\<lambda>hs.
          Inr (g, fe1\<lparr>fe_genHash := fe_genHash fe1 @ hs\<rparr>))))))))))"

section \<open>Requests\<close>

definition sample_writeback :: "Tick \<Rightarrow> Addr_t \<Rightarrow> bool \<Rightarrow> Frontend \<Rightarrow> Frontend" where
  "sample_writeback now addr isClwb fe =
     (if \<not> is_vaddr_pm addr then fe
      else if isClwb
        then (case um_find (fe_writebackDistMap fe) (cacheline_align addr) of
                None \<Rightarrow> fe
              | Some t \<Rightarrow> fe\<lparr>fe_writebackDistStat := fe_writebackDistStat fe @ [(now - t) div 1000]\<rparr>)
        else fe\<lparr>fe_writebackDistMap := um_put (cacheline_align addr) now (fe_writebackDistMap fe)\<rparr>)"

definition predict_write :: "FeCfg \<Rightarrow> World \<Rightarrow> Packet \<Rightarrow> Globals \<times> Frontend \<Rightarrow> (Globals \<times> Frontend) res" where
  "predict_write fc w pkt s =
     bindE (getPC (pk_req pkt)) (\<lambda>pc.
     bindE (getSize pkt) (\<lambda>_.
     bindE (getPtr pkt) (\<lambda>_.
     bindE (update_ihb pkt (fst s, fe_predictorTable (snd s))) (\<lambda>(triggered, g, t).
     let fe1 = (snd s)\<lparr>fe_predictorTable := t\<rparr> in
     bindE (if triggered
            then fold_res (promote fc (w_now w)) (prt_lastFoundHashes t)
                   (fe1\<lparr>fe_predictorTablePromotions := fe_predictorTablePromotions fe1 + 1\<rparr>)
            else Inr fe1) (\<lambda>fe2.
     bindE (updatePendingTable fc w pkt (g, fe2)) (\<lambda>(g', fe3).
     bindE (get_completed_parent (fe_parents fe3) (fe_pendingTable fe3) pc) (\<lambda>_.
     Inr (g', fe3))))))))"

definition handleWrite :: "FeCfg \<Rightarrow> World \<Rightarrow> Packet \<Rightarrow> Globals \<times> Frontend \<Rightarrow> (Globals \<times> Frontend) res" where
  "handleWrite fc w pkt s =
     bindE (getVaddr (pk_req pkt)) (\<lambda>addr.
     bindE (is_vaddr_clwb pkt) (\<lambda>isClwb.
     bindE (getSize pkt) (\<lambda>_.
     let s1 = (fst s, sample_writeback (w_now w) addr isClwb (snd s)) in
     bindE (if is_vaddr_pm addr \<and> (isClwb \<or> (hasData pkt \<and> isWrite pkt))
            then fe_handleNonVolatileWrite fc w pkt isClwb s1 else Inr s1) (\<lambda>s2.
     bindE (if (is_vaddr_volatile addr \<or> is_vaddr_pm addr) \<and> \<not> isClwb
            then predict_write fc w pkt s2 else Inr s2) (\<lambda>s3.
     bindE (panic_if (\<not> is_vaddr_pm addr \<and> \<not> is_vaddr_volatile addr) ''Unable to map address'') (\<lambda>_.
     Inr s3))))))"

definition fe_predictorHandleRequest :: "FeCfg \<Rightarrow> World \<Rightarrow> Packet \<Rightarrow> Globals \<times> Frontend \<Rightarrow> (Globals \<times> Frontend) res" where
  "fe_predictorHandleRequest fc w pkt s =
     bindE (fe_dumpTrace fc (w_now w) pkt (snd s)) (\<lambda>fe.
     if \<not> g_predictorEnabled (fst s) \<or> \<not> g_usePredictor (fst s) then Inr (fst s, fe)
     else
       bindE (collectPktStatistics (w_now w) pkt fe) (\<lambda>fe1.
       bindE (getSize pkt) (\<lambda>sz.
       bindE (getPC (pk_req pkt)) (\<lambda>_.
       bindE (is_vaddr_clwb pkt) (\<lambda>isClwb.
       bindE (if canAddToWhb pkt then updateWriteHistoryBuffer (w_now w) pkt fe1 else Inr fe1) (\<lambda>fe2.
       if (isWrite pkt \<and> (sz = 8 \<or> sz = 4)) \<or> isClwb
       then handleWrite fc w pkt (fst s, fe2) else Inr (fst s, fe2)))))))"

end
