(* ===== verification/Frontend_Inv.thy ===== *)
theory Frontend_Inv
  imports Frontend_Predict
begin

text \<open>
  Well-formed predictions of the front end: entries of the predictor table that can be promoted, parents
  and the entries that wait for them in the pending table, completed predictions.  Training, promotion,
  completion and the override of addresses keep them well-formed and do not abort.
\<close>

section \<open>Entries that can be promoted\<close>

text \<open>A chunk that waits for a store of its program counter; \<open>sz pc\<close> is the width, in chunks, of the stores
  of the instruction at \<open>pc\<close>.\<close>

definition waits :: "(PC_t \<Rightarrow> nat) \<Rightarrow> ChunkInfo \<Rightarrow> bool" where
  "waits sz c = (has_generating_pc c \<and> ci_generatingPC c \<noteq> 0 \<and> has_data_field_offset c \<and> \<not> is_whb_search c \<and>
     unat (ci_dataFieldOffset c) < sz (ci_generatingPC c))"

definition waits_addr :: "(PC_t \<Rightarrow> nat) \<Rightarrow> ChunkInfo \<Rightarrow> bool" where
  "waits_addr sz c = (waits sz c \<and> ci_chunkType c = CT_ADDR \<and> unat (ci_dataFieldOffset c) + 1 < sz (ci_generatingPC c))"

definition promotable :: "(PC_t \<Rightarrow> nat) \<Rightarrow> PredictorTableEntry \<Rightarrow> bool" where
  "promotable sz e = (waits_addr sz (pte_addrChunk e) \<and> cl_ok (pte_originalCacheLine e) \<and>
     length (pte_dataChunks e) = 16 \<and> list_all chunk_ok (pte_dataChunks e) \<and>
     (\<forall>i<16. has_chunk (pte_dataChunks e ! i) = has_chunk (cl_dataChunks (pte_originalCacheLine e) ! i)) \<and>
     (\<forall>i<16. has_chunk (pte_dataChunks e ! i) \<longrightarrow> waits sz (pte_dataChunks e ! i)) \<and>
     (\<exists>i<16. has_chunk (pte_dataChunks e ! i)))"

lemma waits_like: "chunk_like c c' \<Longrightarrow> waits sz c' = waits sz c"
  using chunk_like_flag [of c c'] chunk_like_fields [of c c']
  by (simp add: waits_def has_generating_pc_def has_data_field_offset_def is_whb_search_def)

lemma promotable_chunks:
  assumes e: "promotable sz e" and cs: "list_all2 chunk_like (pte_dataChunks e) cs" "list_all chunk_ok cs"
  shows "promotable sz (e\<lparr>pte_dataChunks := cs\<rparr>)"
proof -
  have len: "length cs = 16" using e list_all2_lengthD [OF cs(1)] by (simp add: promotable_def)
  have l: "chunk_like (pte_dataChunks e ! i) (cs ! i)" if "i < 16" for i
    using list_all2_nthD2 [OF cs(1), of i] len that by simp
  have "has_chunk (cs ! i) = has_chunk (pte_dataChunks e ! i)" "waits sz (cs ! i) = waits sz (pte_dataChunks e ! i)" if "i < 16" for i
    using chunk_like_fields(1) [OF l [OF that]] waits_like [OF l [OF that]] by simp_all
  then show ?thesis using e len cs(2) by (auto simp: promotable_def)
qed

lemma promotable_same:
  assumes "pte_addrChunk e' = pte_addrChunk e" "pte_originalCacheLine e' = pte_originalCacheLine e" "pte_dataChunks e' = pte_dataChunks e"
  shows "promotable sz e' = promotable sz e"
  using assms by (simp add: promotable_def)

lemma promotable_kept: "promotable sz old \<Longrightarrow> kept_entry old e \<Longrightarrow> promotable sz e"
proof -
  assume p: "promotable sz old" and "kept_entry old e"
  then obtain cs d where e: "e = old\<lparr>pte_dataChunks := cs, pte_dataConf := d\<rparr>" "list_all chunk_ok cs" "list_all2 chunk_like (pte_dataChunks old) cs"
    by (auto simp: kept_entry_def)
  have "promotable sz (old\<lparr>pte_dataChunks := cs\<rparr>)" by (rule promotable_chunks [OF p e(3,2)])
  then show ?thesis using promotable_same [of e "old\<lparr>pte_dataChunks := cs\<rparr>" sz] e(1) by simp
qed

lemma promotable_rewarded: "promotable sz e \<Longrightarrow> rewarded a d e e' \<Longrightarrow> promotable sz e'"
  unfolding rewarded_def Let_def using promotable_same [of e' e sz] by auto

lemma promotable_assign: "promotable sz (pte_assign e0 e) = promotable sz e"
  by (rule promotable_same) (simp_all add: pte_assign_def)

section \<open>What training enters can be promoted\<close>

text \<open>A recorded write has the width of its instruction.\<close>

definition fits :: "(PC_t \<Rightarrow> nat) \<Rightarrow> WriteHistoryBufferEntry \<Rightarrow> bool" where
  "fits sz w = (whb_ok w \<and> sz (whb_pc w) \<le> 16 \<and> whb_size w = Some (of_nat (sz (whb_pc w))))"

lemma fits_range:
  assumes w: "fits sz w" and k: "k < 16" "has_chunk (cl_dataChunks (whb_cacheLine w) ! k)"
  shows "first_valid w \<le> k \<and> k < first_valid w + sz (whb_pc w)"
proof -
  have ok: "whb_ok w" and s: "whb_size w = Some (of_nat (sz (whb_pc w)))" "sz (whb_pc w) \<le> 16" using w by (auto simp: fits_def)
  from first_valid_ok [OF ok k] obtain n where n: "first_valid w \<le> k" "whb_get_size w = Inr (of_nat n)" "k < first_valid w + n" "n \<le> 16" by auto
  have "whb_get_size w = Inr (of_nat (sz (whb_pc w)))" using ok s(1) by (simp add: whb_get_size_def whb_ok_def)
  then have "(of_nat n :: size_t) = of_nat (sz (whb_pc w))" using n(2) by simp
  then have "unat (of_nat n :: size_t) = unat (of_nat (sz (whb_pc w)) :: size_t)" by simp
  then have "n = sz (whb_pc w)" using n(4) s(2) by (simp add: unat_of_nat)
  then show ?thesis using n by simp
qed

lemma waits_trained:
  assumes w: "fits sz w" and d: "first_data w d \<noteq> None"
  shows "waits sz (trained_chunk a w d)"
proof -
  obtain k where k: "first_data w d = Some k" using d by blast
  have ok: "whb_ok w" using w by (simp add: fits_def)
  have h: "k < 16" "has_chunk (cl_dataChunks (whb_cacheLine w) ! k)" using first_dataD [OF k ok] by auto
  note r = fits_range [OF w h]
  have "unat (of_nat (k - first_valid w) :: size_t) = k - first_valid w" using small_offset(1) h(1) by simp
  then have "unat (ci_dataFieldOffset (trained_chunk a w d)) < sz (whb_pc w)" using r by (simp only: trained_chunk_def k ChunkInfo.select_convs option.sel) linarith
  then show ?thesis using ok
    by (simp add: waits_def trained_chunk_def has_generating_pc_def has_data_field_offset_def is_whb_search_def is_flag_set_def whb_ok_def)
qed

lemma waits_trained_addr:
  assumes w: "fits sz w" and d: "first_addr w a \<noteq> None"
  shows "waits_addr sz (trained_addr fc w a)"
proof -
  obtain k where k: "first_addr w a = Some k" using d by blast
  have ok: "whb_ok w" using w by (simp add: fits_def)
  have h: "k < 16" "k + 1 < 16" "has_chunk (cl_dataChunks (whb_cacheLine w) ! k)" "has_chunk (cl_dataChunks (whb_cacheLine w) ! (k + 1))"
    using first_addrD [OF k] by (auto simp: addr_match_def)
  note r = fits_range [OF w h(1,3)] fits_range [OF w h(2,4)]
  have "unat (of_nat (k - first_valid w) :: size_t) = k - first_valid w" using small_offset(1) h(1) by simp
  then have "unat (ci_dataFieldOffset (trained_addr fc w a)) + 1 < sz (whb_pc w)" using r by (simp only: trained_addr_def k Let_def ChunkInfo.select_convs option.sel) linarith
  then show ?thesis using ok
    by (simp add: waits_addr_def waits_def trained_addr_def Let_def has_generating_pc_def has_data_field_offset_def is_whb_search_def is_flag_set_def whb_ok_def)
qed

lemma promotable_learned:
  assumes ws: "list_all (fits sz) ws" and ex: "explained fc g ws a (cl_dataChunks cl)" and cl: "cl_ok cl"
    and some: "\<exists>i<16. has_chunk (cl_dataChunks cl ! i)"
  shows "promotable sz (learned_entry fc g now ws a cl h)"
proof -
  let ?e = "learned_entry fc g now ws a cl h" and ?cs = "cl_dataChunks cl"
  have len: "length ?cs = 16" using cl by (simp add: cl_ok_def)
  obtain k where k: "addr_source fc g ws a = Some k" using ex by (auto simp: explained_def)
  have "k < length ws" "first_addr (ws ! k) a \<noteq> None" using source_lt [OF k] by auto
  then have ad: "waits_addr sz (ref_addr fc g ws a)"
    using waits_trained_addr ws k by (auto simp: ref_addr_def list_all_length)
  have t: "has_chunk (ref_chunk fc g ws a (?cs ! i)) = has_chunk (?cs ! i)" if "i < 16" for i
    using ex that by (auto simp: ref_chunk_type explained_def)
  have d: "waits sz (ref_chunk fc g ws a (?cs ! i))" if i: "i < 16" "has_chunk (?cs ! i)" for i
  proof -
    obtain k where k: "data_source fc g ws (chunk_data (?cs ! i)) = Some k" using ex i by (auto simp: explained_def)
    have "k < length ws" "first_data (ws ! k) (chunk_data (?cs ! i)) \<noteq> None" using source_lt [OF k] by auto
    then show ?thesis using waits_trained ws k i(2) by (auto simp: ref_chunk_def list_all_length)
  qed
  have sel: "pte_addrChunk ?e = ref_addr fc g ws a" "pte_dataChunks ?e = map (ref_chunk fc g ws a) ?cs" "pte_originalCacheLine ?e = cl"
    by (simp_all add: learned_entry_def pte_set_hash_def pte_set_original_cacheline_def)
  have "\<exists>i<16. has_chunk (map (ref_chunk fc g ws a) ?cs ! i)" using some t len by auto
  then show ?thesis
    unfolding promotable_def sel using ad cl len t d by (simp add: list_all_iff ref_chunk_ok)
qed

section \<open>Parents\<close>

text \<open>The line of a parent has a chunk wherever the trained line has one; a chunk that is complete has its
  datum and the tick of the store that gave it, and so has a complete address.\<close>

definition parent_inv :: "PendingTableEntryParent \<Rightarrow> bool" where
  "parent_inv p = (parent_ok p \<and> pp_hasGeneratorHash p \<and> pp_hasOrigCL p \<and> cl_ok (pp_originalCacheLine p) \<and>
     (\<forall>i<16. let c = cl_dataChunks (pp_cacheline p) ! i in
        (ci_chunkType c = CT_INVALID \<or> ci_chunkType c = CT_DATA \<and> has_generating_pc c) \<and>
        (has_chunk (cl_dataChunks (pp_originalCacheLine p) ! i) \<longrightarrow> has_chunk c) \<and>
        (pp_dataComplete p ! i \<longrightarrow> is_flag_set (ci_flags c) HAS_DATA \<and> has_time_of_gen c \<and> ci_timeOfGen c \<noteq> 0)) \<and>
     (\<exists>i<16. has_chunk (cl_dataChunks (pp_cacheline p) ! i)) \<and>
     (pp_addrComplete p \<longrightarrow> ci_chunkType (pp_addr p) = CT_ADDR \<and> has_time_of_gen (pp_addr p)))"

abbreviation chunk_at :: "PendingTableEntryParent \<Rightarrow> nat \<Rightarrow> ChunkInfo" where
  "chunk_at p i \<equiv> cl_dataChunks (pp_cacheline p) ! i"

text \<open>A parent keeps its chunks.\<close>

definition keeps_chunks :: "PendingTableEntryParent \<Rightarrow> PendingTableEntryParent \<Rightarrow> bool" where
  "keeps_chunks p p' = (\<forall>i<16. has_chunk (chunk_at p i) \<longrightarrow> has_chunk (chunk_at p' i))"

lemma parent_inv_len: "parent_inv p \<Longrightarrow> length (cl_dataChunks (pp_cacheline p)) = 16 \<and> length (pp_dataComplete p) = 16"
  by (simp add: parent_inv_def parent_ok_def)

lemma parent_inv_live: "parent_inv p \<Longrightarrow> parent_live p"
  using parent_inv_len [of p] by (auto simp: parent_inv_def parent_live_def list_ex_length)

text \<open>Replacing chunk \<open>i\<close> of a parent by a data chunk.\<close>

lemma parent_inv_put:
  assumes p: "parent_inv p" and i: "i < 16" and c: "has_chunk c" "has_generating_pc c"
    and b: "b \<longrightarrow> is_flag_set (ci_flags c) HAS_DATA \<and> has_time_of_gen c \<and> ci_timeOfGen c \<noteq> 0"
    and p': "p' = p\<lparr>pp_cacheline := (pp_cacheline p)\<lparr>cl_dataChunks := (cl_dataChunks (pp_cacheline p))[i := c]\<rparr>,
      pp_dataComplete := (pp_dataComplete p)[i := b]\<rparr>"
  shows "parent_inv p'" "keeps_chunks p p'"
proof -
  note len = parent_inv_len [OF p]
  have ch: "chunk_at p' j = (if j = i then c else chunk_at p j)" "pp_dataComplete p' ! j = (if j = i then b else pp_dataComplete p ! j)"
    if "j < 16" for j using that i len by (auto simp: p' nth_list_update)
  have sel: "pp_originalCacheLine p' = pp_originalCacheLine p" "pp_hasGeneratorHash p' = pp_hasGeneratorHash p" "pp_hasOrigCL p' = pp_hasOrigCL p"
    "pp_addrComplete p' = pp_addrComplete p" "pp_addr p' = pp_addr p" by (simp_all add: p')
  have "list_all (\<lambda>c. ci_chunkType c \<noteq> CT_MAX) (cl_dataChunks (pp_cacheline p))" using p by (simp add: parent_inv_def parent_ok_def)
  then have "parent_ok p'" using len c(1) i by (auto simp: p' parent_ok_def list_all_length nth_list_update split: if_splits)
  moreover have "let c = chunk_at p' j in
        (ci_chunkType c = CT_INVALID \<or> ci_chunkType c = CT_DATA \<and> has_generating_pc c) \<and>
        (has_chunk (cl_dataChunks (pp_originalCacheLine p') ! j) \<longrightarrow> has_chunk c) \<and>
        (pp_dataComplete p' ! j \<longrightarrow> is_flag_set (ci_flags c) HAS_DATA \<and> has_time_of_gen c \<and> ci_timeOfGen c \<noteq> 0)" if j: "j < 16" for j
    using p j c b unfolding parent_inv_def Let_def sel ch [OF j] by auto
  moreover have "\<exists>j<16. has_chunk (chunk_at p' j)" using i c(1) ch(1) [OF i] by auto
  ultimately show "parent_inv p'" using p unfolding parent_inv_def sel by blast
  show "keeps_chunks p p'" using c(1) ch(1) by (auto simp: keeps_chunks_def)
qed

lemma flag_simps [simp]:
  "is_flag_set (set_flag f 0x20) 0x20" "is_flag_set (set_flag f 0x80) 0x80" "is_flag_set (set_flag f 2) 2"
  "is_flag_set (set_flag f 0x20) 2 = is_flag_set f 2" "is_flag_set (set_flag f 0x80) 2 = is_flag_set f 2"
  "is_flag_set (set_flag f 0x200) 2 = is_flag_set f 2" "is_flag_set (set_flag f 0x20) 0x80 = is_flag_set f 0x80"
  "is_flag_set (set_flag f 0x200) 0x80 = is_flag_set f 0x80" "is_flag_set (set_flag f 2) 0x80 = is_flag_set f 0x80"
  "is_flag_set (set_flag f 2) 0x20 = is_flag_set f 0x20" "is_flag_set (set_flag f 0x80) 0x20 = is_flag_set f 0x20"
  by (simp_all add: is_flag_set_set) (simp_all add: is_flag_set_def)

lemma satisfy_data_inv:
  assumes p: "parent_inv p" and e: "pe_hasParentIndex e" "0 \<le> pe_parentIndex e" "pe_parentIndex e < 16"
    and c: "has_chunk (chunk_at p (nat (pe_parentIndex e)))" and t: "t \<noteq> 0" and r: "satisfy_data t e d p = Inr p'"
  shows "parent_inv p' \<and> keeps_chunks p p'"
proof -
  let ?i = "nat (pe_parentIndex e)" and ?cs = "cl_dataChunks (pp_cacheline p)"
  let ?c = "set_time_of_gen t ((?cs ! ?i)\<lparr>ci_chunkType := CT_DATA, ci_flags := set_flag (ci_flags (?cs ! ?i)) HAS_DATA,
     ci_content := (ci_content (?cs ! ?i) AND NOT (mask 32)) OR ucast d\<rparr>)"
  note len = parent_inv_len [OF p]
  have i: "?i < 16" using e by simp
  have "satisfy_data t e d p = Inr (p\<lparr>pp_cacheline := (pp_cacheline p)\<lparr>cl_dataChunks := ?cs[?i := ?c]\<rparr>,
      pp_dataComplete := (pp_dataComplete p)[?i := True]\<rparr>)"
    using e i len by (simp add: satisfy_data_def get_parent_index_def to_index_small set_data_def set_chunk_type_def Let_def)
  then have p': "p' = p\<lparr>pp_cacheline := (pp_cacheline p)\<lparr>cl_dataChunks := ?cs[?i := ?c]\<rparr>,
      pp_dataComplete := (pp_dataComplete p)[?i := True]\<rparr>" using r by simp
  have "has_generating_pc (?cs ! ?i)" using p i c by (auto simp: parent_inv_def Let_def)
  then have "has_chunk ?c" "has_generating_pc ?c" "True \<longrightarrow> is_flag_set (ci_flags ?c) HAS_DATA \<and> has_time_of_gen ?c \<and> ci_timeOfGen ?c \<noteq> 0"
    using t by (simp_all add: set_time_of_gen_def has_generating_pc_def has_time_of_gen_def)
  from parent_inv_put [OF p i this p'] show ?thesis by blast
qed

lemma satisfy_addr_inv:
  assumes p: "parent_inv p" and r: "satisfy_addr t src n off p = Inr p'"
  shows "parent_inv p' \<and> keeps_chunks p p'"
proof -
  obtain a where "p' = p\<lparr>pp_addrComplete := True, pp_addr := set_time_of_gen t ((set_chunk_type CT_ADDR (pp_addr p))\<lparr>ci_content := a\<rparr>)\<rparr>"
    using r by (auto simp: satisfy_addr_def bindE_eq_Inr Let_def set_target_addr_def)
  then show ?thesis using p
    by (simp add: parent_inv_def parent_ok_def keeps_chunks_def set_time_of_gen_def set_chunk_type_def has_time_of_gen_def)
qed

section \<open>The pending table and its parents\<close>

definition pend_entry :: "(PC_t \<Rightarrow> nat) \<Rightarrow> parents \<Rightarrow> PC_t \<Rightarrow> PendTableChunkInfo \<Rightarrow> bool" where
  "pend_entry sz h pc e = (waits sz (pe_chunk e) \<and> ci_generatingPC (pe_chunk e) = pc \<and> pe_hasParentIndex e \<and>
     (\<exists>a p. pe_parent e = Some a \<and> h a = Some p \<and>
        (ci_chunkType (pe_chunk e) = CT_DATA \<and> 0 \<le> pe_parentIndex e \<and> pe_parentIndex e < 16 \<and>
           has_chunk (chunk_at p (nat (pe_parentIndex e))) \<or>
         waits_addr sz (pe_chunk e))))"

definition heap_inv :: "parents \<Rightarrow> bool" where
  "heap_inv h = (\<forall>a p. h a = Some p \<longrightarrow> parent_inv p)"

definition heap_grows :: "parents \<Rightarrow> parents \<Rightarrow> bool" where
  "heap_grows h h' = (dom h' = dom h \<and> (\<forall>a p. h a = Some p \<longrightarrow> (\<exists>p'. h' a = Some p' \<and> keeps_chunks p p')))"

text \<open>Counters, queues, entries and parents; no queue is longer than \<open>n\<close>.\<close>

definition pend_inv :: "(PC_t \<Rightarrow> nat) \<Rightarrow> nat \<Rightarrow> parents \<Rightarrow> PendingTable \<Rightarrow> bool" where
  "pend_inv sz n h pt = (pt_inv pt \<and> heap_inv h \<and>
     (\<forall>pc q. um_find (pt_pendingTable pt) pc = Some q \<longrightarrow> length q \<le> n \<and> (\<forall>e\<in>set q. pend_entry sz h pc e)))"

lemma heap_grows_refl [simp]: "heap_grows h h"
  by (simp add: heap_grows_def keeps_chunks_def)

lemma keeps_chunks_trans: "keeps_chunks p q \<Longrightarrow> keeps_chunks q r \<Longrightarrow> keeps_chunks p r"
  by (simp add: keeps_chunks_def)

lemma heap_growsD: "heap_grows h h' \<Longrightarrow> h a = Some p \<Longrightarrow> \<exists>p'. h' a = Some p' \<and> keeps_chunks p p'"
  by (simp add: heap_grows_def)

lemma heap_grows_trans:
  assumes "heap_grows h h'" and "heap_grows h' h''"
  shows "heap_grows h h''"
proof -
  have "\<exists>r. h'' a = Some r \<and> keeps_chunks p r" if f: "h a = Some p" for a p
  proof -
    obtain q where q: "h' a = Some q" "keeps_chunks p q" using heap_growsD [OF assms(1) f] by blast
    obtain r where "h'' a = Some r" "keeps_chunks q r" using heap_growsD [OF assms(2) q(1)] by blast
    then show ?thesis using keeps_chunks_trans [OF q(2)] by blast
  qed
  then show ?thesis using assms by (simp add: heap_grows_def)
qed

lemma heap_grows_put: "h a = Some p \<Longrightarrow> keeps_chunks p p' \<Longrightarrow> heap_grows h (h(a \<mapsto> p'))"
  by (auto simp: heap_grows_def keeps_chunks_def)

lemma heap_inv_put: "heap_inv h \<Longrightarrow> parent_inv p \<Longrightarrow> heap_inv (h(a \<mapsto> p))"
  by (simp add: heap_inv_def)

lemma pend_entry_grows:
  assumes e: "pend_entry sz h pc e" and h: "heap_grows h h'"
  shows "pend_entry sz h' pc e"
proof -
  obtain a p where a: "pe_parent e = Some a" "h a = Some p" "ci_chunkType (pe_chunk e) = CT_DATA \<and> 0 \<le> pe_parentIndex e \<and>
      pe_parentIndex e < 16 \<and> has_chunk (chunk_at p (nat (pe_parentIndex e))) \<or> waits_addr sz (pe_chunk e)"
    using e by (auto simp: pend_entry_def)
  obtain p' where "h' a = Some p'" "keeps_chunks p p'" using heap_growsD [OF h a(2)] by blast
  then show ?thesis using e a by (auto simp: pend_entry_def keeps_chunks_def)
qed

lemma pend_inv_grows: "pend_inv sz n h pt \<Longrightarrow> heap_grows h h' \<Longrightarrow> heap_inv h' \<Longrightarrow> pend_inv sz n h' pt"
  by (auto simp: pend_inv_def intro: pend_entry_grows)

lemma pend_inv_mono: "pend_inv sz n h pt \<Longrightarrow> n \<le> m \<Longrightarrow> pend_inv sz m h pt"
  by (fastforce simp: pend_inv_def)

lemma pend_add:
  assumes inv: "pend_inv sz n h pt" and e: "pend_entry sz h pc e" and n: "n + 1 < 2 ^ 64"
  shows "\<exists>pt'. pt_add e whb (h, pt) = Inr (h, pt') \<and> pend_inv sz (n + 1) h pt'"
proof -
  have pc: "get_generating_pc (pe_chunk e) = Inr pc" "\<not> is_whb_search (pe_chunk e)" "pe_hasParentIndex e"
    using e by (auto simp: pend_entry_def waits_def get_generating_pc_def)
  have pt: "pt_inv pt" and q: "\<And>pc q. um_find (pt_pendingTable pt) pc = Some q \<Longrightarrow> length q \<le> n \<and> (\<forall>e\<in>set q. pend_entry sz h pc e)"
    using inv by (auto simp: pend_inv_def)
  have w: "length (waiting pt pc) \<le> n" "\<forall>e\<in>set (waiting pt pc). pend_entry sz h pc e"
    using q [of pc] by (cases "um_find (pt_pendingTable pt) pc"; simp add: waiting_def)+
  then have "length (waiting pt pc) + 1 < 2 ^ 64" using n by simp
  from pt_add_waiting_ok [OF pt pc(1,3) this] obtain pt' C b where
    pt': "pt_add_waiting e pt = Inr pt'" "pt_inv pt'"
      "\<forall>k. um_find (pt_pendingTable pt') k = (if C \<and> k = b then None else if k = pc then Some (waiting pt pc @ [e])
         else um_find (pt_pendingTable pt) k)" by blast
  have "length x \<le> n + 1 \<and> (\<forall>e\<in>set x. pend_entry sz h k e)" if "um_find (pt_pendingTable pt') k = Some x" for k x
    using that pt'(3) w e q [of k x] by (fastforce split: if_splits)
  then have "pend_inv sz (n + 1) h pt'" using inv pt'(2) by (simp add: pend_inv_def)
  then show ?thesis using pt'(1) pc(2) by (simp add: pt_add_def)
qed

lemma update_step_heap:
  assumes "update_step t pc src n e s = Inr s'"
  shows "us_heap s' = us_heap s \<or> (\<exists>a p p'. pe_parent e = Some a \<and> us_heap s a = Some p \<and> us_heap s' = (us_heap s)(a \<mapsto> p') \<and>
    (ci_chunkType (pe_chunk e) = CT_DATA \<and> (\<exists>d. satisfy_data t e d p = Inr p') \<or>
     ci_chunkType (pe_chunk e) = CT_ADDR \<and> (\<exists>off. satisfy_addr t src n off p = Inr p')))"
  using assms
  by (auto simp: update_step_def bindE_eq_Inr Let_def deref_def split: if_splits option.splits)

lemma update_loop_heap:
  assumes "fold_res (update_step t pc src n) es s = Inr s'" and "heap_inv (us_heap s)"
    and "\<forall>e\<in>set es. pend_entry sz (us_heap s) pc e" and "t \<noteq> 0"
  shows "heap_inv (us_heap s') \<and> heap_grows (us_heap s) (us_heap s')"
  using assms(1-3)
proof (induction es arbitrary: s)
  case Nil
  then show ?case by simp
next
  case (Cons e es)
  from Cons.prems(1) obtain u where u: "update_step t pc src n e s = Inr u" "fold_res (update_step t pc src n) es u = Inr s'"
    by (auto simp: bindE_eq_Inr)
  have e: "pend_entry sz (us_heap s) pc e" using Cons.prems(3) by simp
  have "heap_inv (us_heap u) \<and> heap_grows (us_heap s) (us_heap u)"
    using update_step_heap [OF u(1)]
  proof (elim disjE exE conjE)
    assume "us_heap u = us_heap s"
    then show ?thesis using Cons.prems(2) by simp
  next
    fix a p p' d
    assume a: "pe_parent e = Some a" "us_heap s a = Some p" "us_heap u = (us_heap s)(a \<mapsto> p')"
      "ci_chunkType (pe_chunk e) = CT_DATA" "satisfy_data t e d p = Inr p'"
    have p: "parent_inv p" using Cons.prems(2) a(2) by (simp add: heap_inv_def)
    have i: "pe_hasParentIndex e" "0 \<le> pe_parentIndex e" "pe_parentIndex e < 16" "has_chunk (chunk_at p (nat (pe_parentIndex e)))"
      using e a by (auto simp: pend_entry_def waits_addr_def)
    from satisfy_data_inv [OF p i assms(4) a(5)] show ?thesis
      unfolding a(3) using heap_inv_put [OF Cons.prems(2)] heap_grows_put [of "us_heap s" a p p', OF a(2)] by blast
  next
    fix a p p' off
    assume a: "pe_parent e = Some a" "us_heap s a = Some p" "us_heap u = (us_heap s)(a \<mapsto> p')" "satisfy_addr t src n off p = Inr p'"
    have p: "parent_inv p" using Cons.prems(2) a(2) by (simp add: heap_inv_def)
    from satisfy_addr_inv [OF p a(4)] show ?thesis
      unfolding a(3) using heap_inv_put [OF Cons.prems(2)] heap_grows_put [of "us_heap s" a p p', OF a(2)] by blast
  qed
  then have g: "heap_inv (us_heap u)" "heap_grows (us_heap s) (us_heap u)" by auto
  have "\<forall>e\<in>set es. pend_entry sz (us_heap u) pc e" using Cons.prems(3) pend_entry_grows [OF _ g(2)] by auto
  from Cons.IH [OF u(2) g(1) this] show ?case using heap_grows_trans [OF g(2)] by blast
qed

lemma pend_entry_ok:
  assumes e: "pend_entry sz h pc e" and h: "heap_inv h"
  shows "Pending_Table.entry_ok h (sz pc) e" "reached (sz pc) e"
proof -
  obtain a p where a: "pe_parent e = Some a" "h a = Some p" using e by (auto simp: pend_entry_def)
  then have "live_at h a" using h parent_inv_live by (auto simp: live_at_def heap_inv_def)
  then show "Pending_Table.entry_ok h (sz pc) e"
    using e a by (auto simp: pend_entry_def Pending_Table.entry_ok_def waits_def waits_addr_def)
  show "reached (sz pc) e" using e by (auto simp: pend_entry_def reached_def waits_def)
qed

lemma pend_update:
  assumes inv: "pend_inv sz n h pt" and w: "pt_has_pc_waiting pt pc" and n: "n < 2 ^ 64" and t: "t \<noteq> 0"
    and src: "length src = sz pc"
  shows "\<exists>cps h' pt'. update_entry_state t pc src (sz pc) (h, pt) = Inr (cps, h', pt') \<and> pend_inv sz n h' pt' \<and> heap_grows h h' \<and>
    waiting pt' pc = [] \<and> (\<forall>x. x \<noteq> pc \<longrightarrow> um_find (pt_pendingTable pt') x = um_find (pt_pendingTable pt) x) \<and>
    (\<forall>a\<in>set cps. \<exists>p. h' a = Some p \<and> parent_inv p \<and> parent_done p)"
proof -
  have pt: "pt_inv pt" "heap_inv h" using inv by (auto simp: pend_inv_def)
  from w obtain q where q: "um_find (pt_pendingTable pt) pc = Some q" "q \<noteq> []"
    using pt(1) by (fastforce simp: pt_has_pc_waiting_def pt_inv_def split: option.splits)
  have qs: "length q \<le> n" "\<forall>e\<in>set q. pend_entry sz h pc e" using inv q(1) by (auto simp: pend_inv_def)
  have ok: "\<forall>e\<in>set q. Pending_Table.entry_ok h (sz pc) e" "filter (reached (sz pc)) q = q"
    using qs(2) pend_entry_ok [OF _ pt(2)] by (auto simp: filter_True)
  have len: "length q < 2 ^ 64" "sz pc \<le> length src" using qs(1) n src by auto
  from update_entry_state_run [OF pt(1) q len ok(1), of t] obtain cps h' pt' where
    r: "update_entry_state t pc src (sz pc) (h, pt) = Inr (cps, h', pt')" "pt_inv pt'"
      "\<forall>x. um_find (pt_pendingTable pt') x = (if x = pc then Some (drop (length q) q) else um_find (pt_pendingTable pt) x)"
      "set cps = {a \<in> touched (sz pc) q. done_at h' a}" unfolding ok(2) by blast
  obtain s where s: "fold_res (update_step t pc src (sz pc)) q
      \<lparr>us_heap = h, us_counts = pt_pendingVolatilePCs pt, us_completedParents = [], us_completedEntries = [], us_iter = 0\<rparr> = Inr s"
    "us_heap s = h'" using r(1) q(1) by (auto simp: update_entry_state_def bindE_eq_Inr um_at_eq_Inr)
  from update_loop_heap [OF s(1) _ _ t, of sz] pt(2) qs(2) s(2) have g: "heap_inv h'" "heap_grows h h'" by auto
  have "length x \<le> n \<and> (\<forall>e\<in>set x. pend_entry sz h' k e)" if "um_find (pt_pendingTable pt') k = Some x" for k x
    using that r(3) inv pend_entry_grows [OF _ g(2)] by (auto simp: pend_inv_def split: if_splits)
  then have "pend_inv sz n h' pt'" using r(2) g(1) by (simp add: pend_inv_def)
  moreover have "\<forall>a\<in>set cps. \<exists>p. h' a = Some p \<and> parent_inv p \<and> parent_done p"
    using r(4) g(1) by (auto simp: done_at_def heap_inv_def)
  ultimately show ?thesis using r(1,3) g(2) by (auto simp: waiting_def)
qed

section \<open>Promotion\<close>

lemma map_res_total: "\<forall>x\<in>set xs. f x = Inr (g x) \<Longrightarrow> map_res f xs = Inr (map g xs)"
  by (induction xs) auto

lemma check_promoted_ok:
  assumes "promotable sz e"
  shows "check_promoted e = Inr ()"
proof -
  have cs: "list_all chunk_ok (pte_dataChunks e)" "\<exists>c\<in>set (pte_dataChunks e). has_chunk c"
    using assms by (auto simp: promotable_def)
  have "fold_res (\<lambda>c r. if r then is_invalid c else Inr False) cs r = Inr (r \<and> \<not> (\<exists>c\<in>set cs. has_chunk c))"
    if "list_all chunk_ok cs" for cs r
    using that by (induction cs arbitrary: r) auto
  from this [OF cs(1), of True] have f: "fold_res (\<lambda>c r. if r then is_invalid c else Inr False) (pte_dataChunks e) True = Inr False"
    using cs(2) by simp
  have "map_res (\<lambda>c. bindE (is_valid c) (\<lambda>v. if v then get_data c else Inr 0)) (pte_dataChunks e) =
      Inr (map (\<lambda>c. if has_chunk c then chunk_data c else 0) (pte_dataChunks e))"
    by (rule map_res_total) (use cs(1) in \<open>auto simp: list_all_iff\<close>)
  then show ?thesis by (simp add: check_promoted_def f)
qed

lemma new_parent_ok:
  assumes e: "promotable sz e" and h: "pte_hasHash e" "pte_hasOrigCL e"
  shows "\<exists>p. new_parent now e = Inr p \<and> parent_inv p \<and> (\<forall>i<16. has_chunk (chunk_at p i) = has_chunk (pte_dataChunks e ! i)) \<and>
    pp_generatorHash p = pte_hash e \<and> pp_originalCacheLine p = pte_originalCacheLine e \<and> \<not> pp_addrComplete p \<and>
    (\<forall>i<16. \<not> pp_dataComplete p ! i)"
proof -
  let ?ds = "pte_dataChunks e" and ?c0 = ChunkInfo_default
  let ?f = "\<lambda>(c, p). if has_chunk c then set_generating_pc (ci_generatingPC c) (set_chunk_type CT_DATA p) else p"
  have ds: "length ?ds = 16" "list_all chunk_ok ?ds" "\<forall>i<16. has_chunk (?ds ! i) \<longrightarrow> waits sz (?ds ! i)" using e by (auto simp: promotable_def)
  have len: "length (cl_dataChunks (CacheLine_default now)) = 16" "\<forall>i<16. cl_dataChunks (CacheLine_default now) ! i = ?c0"
    by (simp_all add: CacheLine_default_def)
  let ?z = "zip ?ds (cl_dataChunks (CacheLine_default now))"
  have pcs: "has_chunk c \<Longrightarrow> get_generating_pc c = Inr (ci_generatingPC c)" if "c \<in> set ?ds" for c
    using that ds(1,3) by (auto simp: in_set_conv_nth waits_def get_generating_pc_def)
  have cs: "map_res (\<lambda>(c, p). parent_chunk c p) ?z = Inr (map ?f ?z)"
    by (rule map_res_total) (use ds(2) pcs in \<open>auto simp: parent_chunk_def list_all_iff dest: set_zip_leftD\<close>)
  let ?p = "pp_set_original_cacheline (pte_originalCacheLine e) (pp_set_generator_hash (pte_hash e)
      ((mk_Parent now)\<lparr>pp_cacheline := (CacheLine_default now)\<lparr>cl_dataChunks := map ?f ?z\<rparr>\<rparr>))"
  have run: "new_parent now e = Inr ?p"
    unfolding new_parent_def cs using h by (simp add: pte_get_hash_def pte_get_original_cacheline_def)
  have sel: "cl_dataChunks (pp_cacheline ?p) = map ?f ?z" "pp_dataComplete ?p = replicate 16 False" "pp_originalCacheLine ?p = pte_originalCacheLine e"
    "pp_hasGeneratorHash ?p" "pp_hasOrigCL ?p" "\<not> pp_addrComplete ?p" "pp_generatorHash ?p = pte_hash e"
    by (simp_all add: pp_set_original_cacheline_def pp_set_generator_hash_def mk_Parent_def)
  have ch: "chunk_at ?p i = (if has_chunk (?ds ! i) then set_generating_pc (ci_generatingPC (?ds ! i)) (set_chunk_type CT_DATA ?c0) else ?c0)" if "i < 16" for i
    using that ds(1) len unfolding sel(1) by simp
  have "parent_ok ?p" unfolding parent_ok_def sel(1,2) using ds(1) len
    by (auto simp: list_all_length set_generating_pc_def set_chunk_type_def)
  moreover have "\<exists>i<16. has_chunk (chunk_at ?p i)" using e ch by (auto simp: promotable_def set_generating_pc_def set_chunk_type_def)
  moreover have "cl_ok (pte_originalCacheLine e)" "\<forall>i<16. has_chunk (cl_dataChunks (pte_originalCacheLine e) ! i) = has_chunk (?ds ! i)"
    using e by (auto simp: promotable_def)
  ultimately have "parent_inv ?p" unfolding parent_inv_def Let_def sel(3)
    using sel(2,4-6) ch by (auto simp: set_generating_pc_def set_chunk_type_def has_generating_pc_def)
  moreover have "has_chunk (chunk_at ?p i) = has_chunk (?ds ! i)" if "i < 16" for i
    using ch [OF that] by (simp add: set_generating_pc_def set_chunk_type_def)
  ultimately show ?thesis using run sel by (intro exI [of _ ?p]) simp
qed

lemma const_0_chunk_inv:
  assumes p: "parent_inv p" and i: "i < 16" and t: "now \<noteq> 0"
  shows "\<exists>p'. const_0_chunk now i p = Inr p' \<and> parent_inv p' \<and> keeps_chunks p p'"
proof -
  let ?cs = "cl_dataChunks (pp_cacheline p)"
  note len = parent_inv_len [OF p]
  obtain c where c: "set_data 0 (set_chunk_type CT_DATA (set_time_of_gen now (?cs ! i))) = Inr c" "has_chunk c"
    "is_flag_set (ci_flags c) HAS_DATA" "has_time_of_gen c" "ci_timeOfGen c = now"
    by (simp add: set_data_def set_chunk_type_def set_time_of_gen_def has_time_of_gen_def Let_def)
  let ?c = "set_generating_pc (- 1) c"
  define p' where "p' = p\<lparr>pp_cacheline := (pp_cacheline p)\<lparr>cl_dataChunks := ?cs[i := ?c]\<rparr>,
      pp_dataComplete := (pp_dataComplete p)[i := pp_dataComplete p ! i]\<rparr>"
  have "const_0_chunk now i p = Inr p'" using i len c(1) by (simp add: const_0_chunk_def p'_def)
  moreover have "has_chunk ?c" "has_generating_pc ?c"
    "pp_dataComplete p ! i \<longrightarrow> is_flag_set (ci_flags ?c) HAS_DATA \<and> has_time_of_gen ?c \<and> ci_timeOfGen ?c \<noteq> 0"
    using c t by (simp_all add: set_generating_pc_def has_generating_pc_def has_time_of_gen_def)
  note parent_inv_put [OF p i this p'_def]
  ultimately show ?thesis by blast
qed

lemma promote_chunk_ok:
  assumes inv: "pend_inv sz n (fe_parents fe) (fe_pendingTable fe)" and p: "fe_parents fe ptr = Some p"
    and e: "promotable sz e" and ch: "\<forall>j<16. has_chunk (pte_dataChunks e ! j) \<longrightarrow> has_chunk (chunk_at p j)"
    and i: "i < 16" and n: "n + 1 < 2 ^ 64" and t: "now \<noteq> 0"
  shows "\<exists>h pt k. promote_chunk now ptr e i fe = Inr (fe\<lparr>fe_parents := h, fe_pendingTable := pt, fe_constant0Prediction := k\<rparr>) \<and>
    pend_inv sz (n + 1) h pt \<and> heap_grows (fe_parents fe) h"
proof -
  let ?c = "pte_dataChunks e ! i"
  have len: "length (pte_dataChunks e) = 16" and ok: "chunk_ok ?c" and w: "has_chunk ?c \<Longrightarrow> waits sz ?c"
    using e i by (auto simp: promotable_def list_all_length)
  have hi: "heap_inv (fe_parents fe)" using inv by (simp add: pend_inv_def)
  consider (skip) "\<not> has_chunk ?c" | (zero) "has_chunk ?c" "is_const_0_pred ?c" | (add) "has_chunk ?c" "\<not> is_const_0_pred ?c" by blast
  then show ?thesis
  proof cases
    case skip
    then show ?thesis using i len ok inv pend_inv_mono [OF inv]
      by (intro exI [of _ "fe_parents fe"] exI [of _ "fe_pendingTable fe"] exI [of _ "fe_constant0Prediction fe"]) (simp add: promote_chunk_def)
  next
    case zero
    have pi: "parent_inv p" using hi p by (simp add: heap_inv_def)
    from const_0_chunk_inv [OF pi i t] obtain p' where p': "const_0_chunk now i p = Inr p'" "parent_inv p'" "keeps_chunks p p'" by blast
    let ?h = "(fe_parents fe)(ptr \<mapsto> p')"
    have g: "heap_grows (fe_parents fe) ?h" using heap_grows_put p p'(3) by blast
    have "pend_inv sz (n + 1) ?h (fe_pendingTable fe)"
      using pend_inv_mono [OF pend_inv_grows [OF inv g heap_inv_put [OF hi p'(2)]], of "n + 1"] by simp
    then show ?thesis using zero i len ok p p'(1) g
      by (intro exI [of _ ?h] exI [of _ "fe_pendingTable fe"] exI [of _ "fe_constant0Prediction fe + 1"]) (simp add: promote_chunk_def deref_def)
  next
    case add
    let ?e = "mk_PendTableChunkInfo (set_chunk_type CT_DATA ?c) (Some ptr) (int i)"
    have c: "set_chunk_type CT_DATA ?c = ?c" using add by (simp add: set_chunk_type_def)
    have "pend_entry sz (fe_parents fe) (ci_generatingPC ?c) ?e"
      using w add(1) p ch i by (auto simp: pend_entry_def mk_PendTableChunkInfo_def c)
    from pend_add [OF inv this n, of "fe_writeHistoryBuffer fe"] obtain pt where
      pt: "pt_add ?e (fe_writeHistoryBuffer fe) (fe_parents fe, fe_pendingTable fe) = Inr (fe_parents fe, pt)"
        "pend_inv sz (n + 1) (fe_parents fe) pt" by blast
    have "get_generating_pc ?c = Inr (ci_generatingPC ?c)" "ci_generatingPC ?c \<noteq> 0" "has_data_field_offset ?c"
      using w [OF add(1)] by (simp_all add: waits_def get_generating_pc_def)
    then show ?thesis using add i len ok pt c
      by (intro exI [of _ "fe_parents fe"] exI [of _ pt] exI [of _ "fe_constant0Prediction fe"]) (simp add: promote_chunk_def Let_def)
  qed
qed

lemma promote_chunks_ok:
  assumes "pend_inv sz n (fe_parents fe) (fe_pendingTable fe)" and "fe_parents fe ptr = Some p"
    and e: "promotable sz e" and "\<forall>j<16. has_chunk (pte_dataChunks e ! j) \<longrightarrow> has_chunk (chunk_at p j)"
    and "\<forall>i\<in>set is. i < 16" and "n + length is < 2 ^ 64" and t: "now \<noteq> 0"
  shows "\<exists>h pt k. fold_res (promote_chunk now ptr e) is fe = Inr (fe\<lparr>fe_parents := h, fe_pendingTable := pt, fe_constant0Prediction := k\<rparr>) \<and>
    pend_inv sz (n + length is) h pt \<and> heap_grows (fe_parents fe) h"
  using assms(1,2,4-6)
proof (induction "is" arbitrary: fe n p)
  case Nil
  then show ?case
    by (intro exI [of _ "fe_parents fe"] exI [of _ "fe_pendingTable fe"] exI [of _ "fe_constant0Prediction fe"]) simp
next
  case (Cons i "is")
  have "i < 16" "n + 1 < 2 ^ 64" using Cons.prems(4,5) by auto
  from promote_chunk_ok [OF Cons.prems(1,2) e Cons.prems(3) this t] obtain h pt k where
    c: "promote_chunk now ptr e i fe = Inr (fe\<lparr>fe_parents := h, fe_pendingTable := pt, fe_constant0Prediction := k\<rparr>)"
      "pend_inv sz (n + 1) h pt" "heap_grows (fe_parents fe) h" by blast
  let ?fe = "fe\<lparr>fe_parents := h, fe_pendingTable := pt, fe_constant0Prediction := k\<rparr>"
  obtain p' where p': "h ptr = Some p'" "keeps_chunks p p'" using heap_growsD [OF c(3) Cons.prems(2)] by blast
  have "pend_inv sz (n + 1) (fe_parents ?fe) (fe_pendingTable ?fe)" "fe_parents ?fe ptr = Some p'"
    "\<forall>j<16. has_chunk (pte_dataChunks e ! j) \<longrightarrow> has_chunk (chunk_at p' j)" "\<forall>i\<in>set is. i < 16" "n + 1 + length is < 2 ^ 64"
    using c(2) p' Cons.prems(3-5) by (auto simp: keeps_chunks_def)
  from Cons.IH [OF this] obtain h2 pt2 k2 where
    r: "fold_res (promote_chunk now ptr e) is ?fe = Inr (?fe\<lparr>fe_parents := h2, fe_pendingTable := pt2, fe_constant0Prediction := k2\<rparr>)"
      "pend_inv sz (n + 1 + length is) h2 pt2" "heap_grows h h2" by auto
  then show ?case using c(1) heap_grows_trans [OF c(3) r(3)]
    by (intro exI [of _ h2] exI [of _ pt2] exI [of _ k2]) (simp add: add.commute add.left_commute)
qed

lemma pend_inv_new:
  assumes inv: "pend_inv sz n h pt" and a: "h a = None" and p: "parent_inv p"
  shows "pend_inv sz n (h(a \<mapsto> p)) pt"
proof -
  have "pend_entry sz (h(a \<mapsto> p)) pc e" if "pend_entry sz h pc e" for pc e
    using that a by (fastforce simp: pend_entry_def)
  then show ?thesis using inv p by (auto simp: pend_inv_def heap_inv_def)
qed

lemma promote_ok:
  assumes inv: "pend_inv sz n (fe_parents fe) (fe_pendingTable fe)" and fresh: "fe_parents fe (fe_nextParent fe) = None"
    and t: "prt_inv (fe_predictorTable fe)" and e: "um_find (prt_predictorTable (fe_predictorTable fe)) hsh = Some e" "promotable sz e"
    and n: "n + 17 < 2 ^ 64" and now: "now \<noteq> 0"
  shows "\<exists>h pt k. promote fc now hsh fe = Inr (fe\<lparr>fe_nextParent := fe_nextParent fe + 1, fe_parents := h, fe_pendingTable := pt,
      fe_constant0Prediction := k\<rparr>) \<and> pend_inv sz (n + 17) h pt \<and> dom h = insert (fe_nextParent fe) (dom (fe_parents fe))"
proof -
  let ?e = "pte_assign (mk_PTE (fc_pt fc) now) e" and ?ptr = "fe_nextParent fe"
  have ok: "pte_ok (prt_currentOrder (fe_predictorTable fe)) hsh e" using t e(1) by (simp add: prt_inv_def)
  have pe: "promotable sz ?e" "pte_hasHash ?e" "pte_hasOrigCL ?e"
    using e(2) ok by (simp_all add: promotable_assign pte_ok_def) (simp_all add: pte_assign_def)
  have get: "get_with_hash (fc_pt fc) now hsh (fe_predictorTable fe) = Inr ?e" using get_with_hash_run [OF t] e(1) by simp
  obtain p where p: "new_parent now ?e = Inr p" "parent_inv p" "\<forall>i<16. has_chunk (chunk_at p i) = has_chunk (pte_dataChunks ?e ! i)"
    using new_parent_ok [OF pe] by blast
  let ?h = "(fe_parents fe)(?ptr \<mapsto> p)"
  let ?a = "mk_PendTableChunkInfo (pte_addrChunk ?e) (Some ?ptr) 0"
  have ad: "waits_addr sz (pte_addrChunk ?e)" using pe(1) by (simp add: promotable_def)
  then have "pend_entry sz ?h (ci_generatingPC (pte_addrChunk ?e)) ?a"
    by (auto simp: pend_entry_def mk_PendTableChunkInfo_def waits_addr_def)
  moreover have "n + 1 < 2 ^ 64" using n by simp
  ultimately obtain pt where
    pt: "pt_add ?a (fe_writeHistoryBuffer fe) (?h, fe_pendingTable fe) = Inr (?h, pt)" "pend_inv sz (n + 1) ?h pt"
    using pend_add [OF pend_inv_new [OF inv fresh p(2)]] by blast
  let ?fe = "fe\<lparr>fe_nextParent := ?ptr + 1, fe_parents := ?h, fe_pendingTable := pt\<rparr>"
  have pre: "pend_inv sz (n + 1) (fe_parents ?fe) (fe_pendingTable ?fe)" "fe_parents ?fe ?ptr = Some p"
    "\<forall>j<16. has_chunk (pte_dataChunks ?e ! j) \<longrightarrow> has_chunk (chunk_at p j)" "\<forall>i\<in>set [0..<16]. i < (16 :: nat)"
    "n + 1 + length [0..<16] < 2 ^ 64" using pt(2) p(3) n by simp_all
  from promote_chunks_ok [OF pre(1,2) pe(1) pre(3-5) now] obtain h pt2 k where
    r: "fold_res (promote_chunk now ?ptr ?e) [0..<16] ?fe = Inr (?fe\<lparr>fe_parents := h, fe_pendingTable := pt2, fe_constant0Prediction := k\<rparr>)"
      "pend_inv sz (n + 1 + 16) h pt2" "heap_grows ?h h" by auto
  have off: "has_data_field_offset (pte_addrChunk ?e)" using ad by (simp add: waits_addr_def waits_def)
  have "promote fc now hsh fe = fold_res (promote_chunk now ?ptr ?e) [0..<16] ?fe"
    unfolding promote_def get using check_promoted_ok [OF pe(1)] p(1) off pt(1) by (simp del: upt_Suc add: Let_def)
  moreover have "dom h = insert ?ptr (dom (fe_parents fe))" using r(3) by (auto simp: heap_grows_def)
  ultimately show ?thesis using r(1,2)
    by (intro exI [of _ h] exI [of _ pt2] exI [of _ k]) (simp del: upt_Suc add: add.commute)
qed

section \<open>Completed predictions\<close>

lemma time_of_gen_ok:
  assumes "list_all (\<lambda>c. ci_chunkType c \<noteq> CT_MAX) (cl_dataChunks cl)"
    and "\<exists>c\<in>set (cl_dataChunks cl). ci_chunkType c \<noteq> CT_INVALID \<and> has_time_of_gen c \<and> ci_timeOfGen c \<noteq> 0"
  shows "\<exists>t. cl_get_time_of_gen cl = Inr t"
proof -
  let ?f = "\<lambda>c r. bindE (is_valid c) (\<lambda>v. if v \<and> has_time_of_gen c
       then bindE (get_time_of_gen c) (\<lambda>t. Inr (if r < t then t else r)) else Inr r)"
  have "\<exists>r'. fold_res ?f cs r = Inr r' \<and> r \<le> r' \<and>
      (\<forall>c\<in>set cs. ci_chunkType c \<noteq> CT_INVALID \<and> has_time_of_gen c \<longrightarrow> ci_timeOfGen c \<le> r')"
    if "list_all (\<lambda>c. ci_chunkType c \<noteq> CT_MAX) cs" for cs r
    using that
  proof (induction cs arbitrary: r)
    case Nil
    then show ?case by simp
  next
    case (Cons c cs)
    define u where "u = (if ci_chunkType c \<noteq> CT_INVALID \<and> has_time_of_gen c \<and> r < ci_timeOfGen c then ci_timeOfGen c else r)"
    have step: "?f c r = Inr u" using Cons.prems by (auto simp: u_def is_valid_def get_time_of_gen_def has_time_of_gen_def)
    have u: "r \<le> u" "ci_chunkType c \<noteq> CT_INVALID \<and> has_time_of_gen c \<longrightarrow> ci_timeOfGen c \<le> u" by (auto simp: u_def)
    obtain r' where "fold_res ?f cs u = Inr r'" "u \<le> r'"
      "\<forall>c\<in>set cs. ci_chunkType c \<noteq> CT_INVALID \<and> has_time_of_gen c \<longrightarrow> ci_timeOfGen c \<le> r'" using Cons.IH [of u] Cons.prems by auto
    then show ?case using step u by (intro exI [of _ r']) auto
  qed
  from this [OF assms(1), of 0] obtain r where r: "fold_res ?f (cl_dataChunks cl) 0 = Inr r"
    "\<forall>c\<in>set (cl_dataChunks cl). ci_chunkType c \<noteq> CT_INVALID \<and> has_time_of_gen c \<longrightarrow> ci_timeOfGen c \<le> r" by blast
  then have "r \<noteq> 0" using assms(2) by auto
  then show ?thesis using r(1) by (simp add: cl_get_time_of_gen_def)
qed

lemma parent_done_chunks:
  assumes p: "parent_inv p" and d: "parent_done p" and i: "i < 16"
  shows "gen_ok (chunk_at p i)" "has_chunk (chunk_at p i) \<Longrightarrow> has_time_of_gen (chunk_at p i) \<and> ci_timeOfGen (chunk_at p i) \<noteq> 0"
  using assms by (auto simp: parent_inv_def parent_done_def gen_ok_def chunk_ok_def Let_def)

lemma completed_entry_ok:
  assumes p: "parent_inv p" and d: "parent_done p"
  shows "\<exists>e. completed_entry now p = Inr e \<and> entry_ok e \<and> cw_addr e = ci_content (pp_addr p) \<and>
    cw_cacheline e = pp_cacheline p \<and> cw_generatorHash e = pp_generatorHash p \<and> cw_orignalCacheLine e = pp_originalCacheLine p"
proof -
  note len = parent_inv_len [OF p]
  note ch = parent_done_chunks [OF p d]
  have ad: "ci_chunkType (pp_addr p) = CT_ADDR" "has_time_of_gen (pp_addr p)" using p d by (auto simp: parent_inv_def parent_done_def)
  have mx: "list_all (\<lambda>c. ci_chunkType c \<noteq> CT_MAX) (cl_dataChunks (pp_cacheline p))" using p by (simp add: parent_inv_def parent_ok_def)
  obtain i where i: "i < 16" "has_chunk (chunk_at p i)" using p by (auto simp: parent_inv_def)
  have "chunk_at p i \<in> set (cl_dataChunks (pp_cacheline p))" using i(1) len by simp
  then have "\<exists>c\<in>set (cl_dataChunks (pp_cacheline p)). ci_chunkType c \<noteq> CT_INVALID \<and> has_time_of_gen c \<and> ci_timeOfGen c \<noteq> 0"
    using ch(2) [OF i] i(2) by (intro bexI [of _ "chunk_at p i"]) auto
  from time_of_gen_ok [OF mx this] obtain t where t: "cl_get_time_of_gen (pp_cacheline p) = Inr t" by blast
  have g: "list_all gen_ok (cl_dataChunks (pp_cacheline p))" using ch(1) len by (simp add: list_all_length)
  have o: "length (cl_dataChunks (pp_originalCacheLine p)) = 16" "list_all chunk_ok (cl_dataChunks (pp_originalCacheLine p))"
    "pp_hasGeneratorHash p" "pp_hasOrigCL p" using p by (auto simp: parent_inv_def cl_ok_def)
  let ?e = "cw_set_time_of_creation now (cw_set_time_of_data_gen t (cw_set_time_of_addr_gen (ci_timeOfGen (pp_addr p))
      (cw_set_orig_cacheline (pp_originalCacheLine p) (mk_CompletedWriteEntry now (ci_content (pp_addr p)) (pp_cacheline p) (pp_generatorHash p)))))"
  have "completed_entry now p = Inr ?e"
    using ad t o by (simp add: completed_entry_def get_target_addr_def pp_get_generator_hash_def pp_get_original_cacheline_def
        get_time_of_gen_def has_time_of_gen_def)
  moreover have "entry_ok ?e"
    using g o len by (simp add: entry_ok_def cw_defs mk_CompletedWriteEntry_def is_flag_set_set) (simp add: is_flag_set_def set_flag_def)
  ultimately show ?thesis by (simp add: cw_defs mk_CompletedWriteEntry_def)
qed

text \<open>A prediction that has a chunk wherever the trained line has one.\<close>

definition covers_line :: "CompletedWriteEntry \<Rightarrow> bool" where
  "covers_line e = (entry_ok e \<and> (\<forall>i<16. has_chunk (cl_dataChunks (cw_orignalCacheLine e) ! i) \<longrightarrow>
     has_chunk (cl_dataChunks (cw_cacheline e) ! i)))"

lemma const_prediction_ok:
  assumes e: "covers_line e" and m: "um_find m k = Some l" and k: "k < 16"
  shows "\<exists>e'. const_prediction m (k, x) e = Inr e' \<and> covers_line e' \<and> cw_addr e' = cw_addr e"
proof -
  let ?i = "unat k" and ?cs = "cl_dataChunks (cw_cacheline e)" and ?os = "cl_dataChunks (cw_orignalCacheLine e)"
  have i: "?i < 16" using k by (simp add: word_less_nat_alt)
  have eo: "length ?cs = 16" "list_all gen_ok ?cs" "length ?os = 16" "list_all chunk_ok ?os" "cw_get_orig_cacheline e = Inr (cw_orignalCacheLine e)"
    using e by (auto simp: covers_line_def entry_ok_def cw_defs)
  have oc: "chunk_ok (?os ! ?i)" "gen_ok (?cs ! ?i)" using eo i by (auto simp: list_all_length)
  show ?thesis
  proof (cases "cc_timesFound x > 0 \<and> has_chunk (?os ! ?i)")
    case False
    then show ?thesis using e eo i oc by (auto simp: const_prediction_def)
  next
    case True
    then have hc: "has_chunk (?cs ! ?i)" using e i by (simp add: covers_line_def)
    let ?c = "set_constant_pred ((?cs ! ?i)\<lparr>ci_chunkType := CT_DATA, ci_flags := set_flag (ci_flags (?cs ! ?i)) HAS_DATA,
       ci_content := (ci_content (?cs ! ?i) AND NOT (mask 32)) OR ucast (cc_lastData l)\<rparr>)"
    let ?e = "e\<lparr>cw_cacheline := (cw_cacheline e)\<lparr>cl_dataChunks := ?cs[?i := ?c]\<rparr>\<rparr>"
    have run: "const_prediction m (k, x) e = Inr ?e"
      using True eo i oc m by (simp add: const_prediction_def um_at_def set_data_def set_chunk_type_def Let_def)
    have g: "gen_ok ?c" using oc(2) hc
      by (auto simp: gen_ok_def chunk_ok_def set_constant_pred_def has_generating_pc_def is_free_prediction_def is_flag_set_set)
    have gs: "list_all gen_ok (?cs[?i := ?c])" using eo(1,2) g i by (auto simp: list_all_length nth_list_update)
    have h: "has_chunk (?cs[?i := ?c] ! j)" if "j < 16" "has_chunk (?os ! j)" for j
      using that e eo(1) i by (auto simp: covers_line_def nth_list_update set_constant_pred_def)
    have "covers_line ?e" using e gs h eo(1) by (simp add: covers_line_def entry_ok_def cw_defs)
    then show ?thesis using run by simp
  qed
qed

lemma const_predictions_loop:
  assumes "covers_line e" and x: "\<forall>x\<in>set xs. um_find m (fst x) \<noteq> None \<and> fst x < 16"
  shows "\<exists>e'. fold_res (const_prediction m) xs e = Inr e' \<and> covers_line e' \<and> cw_addr e' = cw_addr e"
proof (rule fold_res_total [where I = "\<lambda>u. covers_line u \<and> cw_addr u = cw_addr e"])
  fix y u assume "y \<in> set xs" and u: "covers_line u \<and> cw_addr u = cw_addr e"
  then obtain l where "um_find m (fst y) = Some l" "fst y < 16" using x by auto
  from const_prediction_ok [OF _ this, of u "snd y"] u
  show "\<exists>v. const_prediction m y u = Inr v \<and> covers_line v \<and> cw_addr v = cw_addr e" by auto
qed (use assms(1) in simp)

lemma handleConstPredictions_ok:
  assumes e: "covers_line e" and g: "tracker_ok g"
  shows "\<exists>e'. handleConstPredictions g e = Inr e' \<and> covers_line e' \<and> cw_addr e' = cw_addr e"
proof -
  have h: "cw_get_generator_hash e = Inr (cw_generatorHash e)" using e by (auto simp: covers_line_def entry_ok_def cw_defs)
  show ?thesis
  proof (cases "um_find (g_constPredTracker g) (cw_generatorHash e)")
    case None
    then show ?thesis using e h by (simp add: handleConstPredictions_def)
  next
    case (Some m)
    then have m: "um_wf m" "\<forall>k. um_find m k \<noteq> None \<longrightarrow> k < 16" using g by (auto simp: tracker_ok_def)
    have "\<forall>x\<in>set m. um_find m (fst x) \<noteq> None \<and> fst x < 16"
    proof
      fix x assume "x \<in> set m"
      then have "um_find m (fst x) = Some (snd x)" using m(1) by (simp add: um_find_iff)
      then show "um_find m (fst x) \<noteq> None \<and> fst x < 16" using m(2) by simp
    qed
    from const_predictions_loop [OF e this] show ?thesis using Some h by (simp add: handleConstPredictions_def)
  qed
qed

definition complete_at :: "parents \<Rightarrow> nat \<Rightarrow> bool" where
  "complete_at h a = (\<exists>p. h a = Some p \<and> parent_inv p \<and> parent_done p)"

lemma send_write_ok:
  assumes a: "complete_at h a" and g: "sink_inv (w_meta w) g"
  shows "\<exists>g'. send_write w h a (g, n) = Inr (g', n + 1) \<and> sink_inv (w_meta w) g' \<and> sink_frame g' = sink_frame g"
proof -
  obtain p where p: "h a = Some p" "parent_inv p" "parent_done p" using a by (auto simp: complete_at_def)
  obtain e where e: "completed_entry (w_now w) p = Inr e" "entry_ok e" "cw_cacheline e = pp_cacheline p" "cw_orignalCacheLine e = pp_originalCacheLine p"
    using completed_entry_ok [OF p(2,3)] by blast
  have "covers_line e" using e p(2) by (auto simp: covers_line_def parent_inv_def Let_def)
  moreover have "tracker_ok g" using g by (simp add: sink_inv_def be_inv_def learn_ok_def)
  ultimately obtain e1 where e1: "handleConstPredictions g e = Inr e1" "covers_line e1" using handleConstPredictions_ok by blast
  have ok: "entry_ok e1" "cw_has_addr e1" using e1(2) by (auto simp: covers_line_def entry_ok_def)
  from sink.send_ok [OF ok(1) g] obtain g' where
    "addCompletedWrite (w_now w) (w_meta w) (w_pageTable w) e1 g = Inr g'" "sink_inv (w_meta w) g'" "sink_frame g' = sink_frame g" by blast
  then show ?thesis using p(1) e(1) e1(1) ok(2) by (simp add: send_write_def deref_def)
qed

lemma send_writes_ok:
  assumes "\<forall>a\<in>set as. complete_at h a" and "sink_inv (w_meta w) g"
  shows "\<exists>g'. fold_res (send_write w h) as (g, n) = Inr (g', n + length as) \<and> sink_inv (w_meta w) g' \<and> sink_frame g' = sink_frame g"
  using assms
proof (induction as arbitrary: g n)
  case Nil
  then show ?case by simp
next
  case (Cons a as)
  have "complete_at h a" using Cons.prems(1) by simp
  from send_write_ok [OF this Cons.prems(2), of n] obtain g1 where
    g1: "send_write w h a (g, n) = Inr (g1, n + 1)" "sink_inv (w_meta w) g1" "sink_frame g1 = sink_frame g" by blast
  from Cons.IH [OF _ g1(2), of "n + 1"] Cons.prems(1) g1 show ?case by auto
qed

section \<open>The address predictor overrides addresses\<close>

lemma retarget_ok:
  assumes a: "complete_at h a" and h: "heap_inv h"
  shows "\<exists>h'. retarget addr a h = Inr h' \<and> heap_inv h' \<and> heap_grows h h' \<and> (\<forall>b. complete_at h b \<longrightarrow> complete_at h' b)"
proof -
  obtain p where p: "h a = Some p" "parent_inv p" "parent_done p" using a by (auto simp: complete_at_def)
  have ad: "ci_chunkType (pp_addr p) = CT_ADDR" using p(2,3) by (auto simp: parent_inv_def parent_done_def)
  let ?p = "p\<lparr>pp_addr := (pp_addr p)\<lparr>ci_content := addr\<rparr>\<rparr>"
  have inv: "parent_inv ?p" "parent_done ?p" "keeps_chunks p ?p"
    using p(2,3) by (auto simp: parent_inv_def parent_done_def parent_ok_def keeps_chunks_def has_time_of_gen_def)
  have "retarget addr a h = Inr (h(a \<mapsto> ?p))"
    using p(1) ad by (simp add: retarget_def deref_def get_target_addr_def set_target_addr_def)
  moreover have "complete_at (h(a \<mapsto> ?p)) b" if "complete_at h b" for b using that inv(1,2) by (auto simp: complete_at_def)
  ultimately show ?thesis using heap_inv_put [OF h inv(1)] heap_grows_put [of h a p ?p, OF p(1) inv(3)] by blast
qed

lemma override_addrs_ok:
  assumes ap: "ap_inv ap" "sq_queue (ap_addrDiff ap) \<noteq> []" and "\<forall>a\<in>set as. complete_at h a" and "heap_inv h"
  shows "\<exists>h'. override_addrs fc ap as h = Inr h' \<and> heap_inv h' \<and> heap_grows h h' \<and> (\<forall>a. complete_at h a \<longrightarrow> complete_at h' a)"
proof -
  obtain b where b: "can_pred_addr ap = Inr b" using can_pred_addr_iff [OF ap] by blast
  have "\<exists>x. predict_addr ap = Inr x" using b ap(2) by (auto simp: predict_addr_def sq_back_def deque_back_def)
  then obtain x where x: "predict_addr ap = Inr x" by blast
  have "\<exists>h'. fold_res (\<lambda>a h. bindE (predict_addr ap) (\<lambda>addr. retarget addr a h)) as h = Inr h' \<and> heap_inv h' \<and> heap_grows h h' \<and>
      (\<forall>a. complete_at h a \<longrightarrow> complete_at h' a)"
  proof (rule fold_res_total [where I = "\<lambda>u. heap_inv u \<and> heap_grows h u \<and> (\<forall>a. complete_at h a \<longrightarrow> complete_at u a)"])
    fix a u assume a: "a \<in> set as" and u: "heap_inv u \<and> heap_grows h u \<and> (\<forall>a. complete_at h a \<longrightarrow> complete_at u a)"
    have "complete_at u a" using a u assms(3) by blast
    from retarget_ok [OF this, of x] u obtain v where
      "retarget x a u = Inr v" "heap_inv v" "heap_grows u v" "\<forall>b. complete_at u b \<longrightarrow> complete_at v b" by blast
    then show "\<exists>v. bindE (predict_addr ap) (\<lambda>addr. retarget addr a u) = Inr v \<and> heap_inv v \<and> heap_grows h v \<and>
        (\<forall>a. complete_at h a \<longrightarrow> complete_at v a)"
      using u heap_grows_trans [of h u v] by (intro exI [of _ v]) (simp add: x)
  qed (use assms(4) in simp)
  then show ?thesis using b assms(4) by (auto simp: override_addrs_def)
qed

section \<open>A store feeds the pending table\<close>

lemma packet_line_ok:
  assumes "off + length src \<le> 16" and "length cs = 16"
  shows "\<exists>cs'. fold_res (\<lambda>i cs. bindE (arr_get src i) (\<lambda>d. store_chunk (i + off) d cs)) [0..<length src] cs = Inr cs'"
proof -
  have "\<exists>cs'. fold_res (\<lambda>i cs. bindE (arr_get src i) (\<lambda>d. store_chunk (i + off) d cs)) [0..<length src] cs = Inr cs' \<and> length cs' = 16"
  proof (rule fold_res_total)
    fix i u assume i: "i \<in> set [0..<length src]" "length (u :: ChunkInfo list) = 16"
    then have "i + off < length u" using assms(1) by simp
    from store_chunk_ok [OF this, of "src ! i"] i
    show "\<exists>v. bindE (arr_get src i) (\<lambda>d. store_chunk (i + off) d u) = Inr v \<and> length v = 16" by auto
  qed (rule assms(2))
  then show ?thesis by blast
qed

lemma feed_pending_ok:
  assumes p: "store_pkt pkt pc vaddr src" and pa: "getAddr pkt = Inr paddr" and sz: "sz pc = length src"
    and inv: "pend_inv sz n (fe_parents fe) (fe_pendingTable fe)" and n: "n < 2 ^ 64" and now: "now \<noteq> 0"
  shows "\<exists>ws h pt. feed_pending now pkt pc vaddr src (length src) fe = Inr (ws, fe\<lparr>fe_parents := h, fe_pendingTable := pt\<rparr>) \<and>
    pend_inv sz n h pt \<and> dom h = dom (fe_parents fe) \<and> (\<forall>a\<in>set ws. complete_at h a) \<and>
    (ws \<noteq> [] \<longrightarrow> waiting (fe_pendingTable fe) pc \<noteq> []) \<and> (\<forall>x. waiting pt x \<noteq> [] \<longrightarrow> waiting (fe_pendingTable fe) x \<noteq> [])"
proof (cases "pt_has_pc_waiting (fe_pendingTable fe) pc")
  case False
  then show ?thesis using inv
    by (intro exI [of _ "[]"] exI [of _ "fe_parents fe"] exI [of _ "fe_pendingTable fe"]) (simp add: feed_pending_def)
next
  case True
  have "length src = sz pc" using sz by simp
  from pend_update [OF inv True n now this] obtain cps h pt where
    u: "update_entry_state now pc src (sz pc) (fe_parents fe, fe_pendingTable fe) = Inr (cps, h, pt)" "pend_inv sz n h pt"
      "heap_grows (fe_parents fe) h" "waiting pt pc = []"
      "\<forall>x. x \<noteq> pc \<longrightarrow> um_find (pt_pendingTable pt) x = um_find (pt_pendingTable (fe_pendingTable fe)) x"
      "\<forall>a\<in>set cps. \<exists>p. h a = Some p \<and> parent_inv p \<and> parent_done p" by blast
  have map: "map_res (arr_get src) [0..<length src] = Inr (map ((!) src) [0..<length src])" by (rule map_res_total) simp
  obtain cs where cs: "fold_res (\<lambda>i cs. bindE (arr_get src i) (\<lambda>d. store_chunk (i + chunk_offset vaddr) d cs)) [0..<length src]
      (cl_dataChunks (CacheLine_default now)) = Inr cs"
    using packet_line_ok [of "chunk_offset vaddr" src "cl_dataChunks (CacheLine_default now)"] store_pkt_reads(9) [OF p]
    by (auto simp: CacheLine_default_def)
  have "waiting (fe_pendingTable fe) pc \<noteq> []"
    using True inv by (fastforce simp: pend_inv_def pt_inv_def waiting_def pt_has_pc_waiting_def split: option.splits)
  moreover have "waiting (fe_pendingTable fe) x \<noteq> []" if "waiting pt x \<noteq> []" for x
    using that u(4,5) by (cases "x = pc") (auto simp: waiting_def)
  moreover have "feed_pending now pkt pc vaddr src (length src) fe = Inr (cps, fe\<lparr>fe_parents := h, fe_pendingTable := pt\<rparr>)"
    unfolding feed_pending_def map cs using True pa u(1) sz by simp
  ultimately show ?thesis using u(2,3,6) by (auto simp: complete_at_def heap_grows_def)
qed

text \<open>Whoever predicts has seen an address: the address predictor is asked only after a line was learned.\<close>

definition addr_inv :: "Frontend \<Rightarrow> bool" where
  "addr_inv fe = (ap_inv (fe_addrPredictor fe) \<and>
     (prt_predictorTable (fe_predictorTable fe) \<noteq> [] \<or> (\<exists>pc. waiting (fe_pendingTable fe) pc \<noteq> []) \<longrightarrow>
        sq_queue (ap_addrDiff (fe_addrPredictor fe)) \<noteq> []))"

lemma updatePendingTable_ok:
  assumes p: "store_pkt pkt pc vaddr src" and pa: "getAddr pkt = Inr paddr" and sz: "sz pc = length src"
    and inv: "pend_inv sz n (fe_parents fe) (fe_pendingTable fe)" and n: "n < 2 ^ 64" and now: "w_now w \<noteq> 0"
    and ad: "addr_inv fe" and g: "sink_inv (w_meta w) g"
  shows "\<exists>g' h pt k xs. updatePendingTable fc w pkt (g, fe) =
      Inr (g', fe\<lparr>fe_parents := h, fe_pendingTable := pt, fe_predictedWriteCount := k, fe_genHash := xs\<rparr>) \<and>
    sink_inv (w_meta w) g' \<and> sink_frame g' = sink_frame g \<and> pend_inv sz n h pt \<and> dom h = dom (fe_parents fe) \<and>
    (\<forall>x. waiting pt x \<noteq> [] \<longrightarrow> waiting (fe_pendingTable fe) x \<noteq> [])"
proof -
  note rd = store_pkt_reads [OF p]
  obtain len where len: "req_getSize (pk_req pkt) = Inr len" "len div 4 = length src" using p by (auto simp: store_pkt_def)
  from feed_pending_ok [OF p pa sz inv n now] obtain ws h pt where
    f: "feed_pending (w_now w) pkt pc vaddr src (length src) fe = Inr (ws, fe\<lparr>fe_parents := h, fe_pendingTable := pt\<rparr>)"
      "pend_inv sz n h pt" "dom h = dom (fe_parents fe)" "\<forall>a\<in>set ws. complete_at h a" "ws \<noteq> [] \<longrightarrow> waiting (fe_pendingTable fe) pc \<noteq> []"
      "\<forall>x. waiting pt x \<noteq> [] \<longrightarrow> waiting (fe_pendingTable fe) x \<noteq> []" by blast
  let ?fe = "fe\<lparr>fe_parents := h, fe_pendingTable := pt\<rparr>"
  show ?thesis
  proof (cases "ws = []")
    case True
    then have "updatePendingTable fc w pkt (g, fe) = Inr (g, ?fe)"
      using rd len f(1) by (simp add: updatePendingTable_def)
    then show ?thesis using f g
      by (intro exI [of _ g] exI [of _ h] exI [of _ pt] exI [of _ "fe_predictedWriteCount fe"] exI [of _ "fe_genHash fe"]) simp
  next
    case False
    have ap: "ap_inv (fe_addrPredictor fe)" "sq_queue (ap_addrDiff (fe_addrPredictor fe)) \<noteq> []"
      using ad f(5) False by (auto simp: addr_inv_def)
    have hi: "heap_inv h" using f(2) by (simp add: pend_inv_def)
    from override_addrs_ok [OF ap f(4) hi, of fc] obtain h2 where
      h2: "override_addrs fc (fe_addrPredictor fe) ws h = Inr h2" "heap_inv h2" "heap_grows h h2" "\<forall>a. complete_at h a \<longrightarrow> complete_at h2 a" by blast
    have cw: "\<forall>a\<in>set ws. complete_at h2 a" using f(4) h2(4) by blast
    from send_writes_ok [OF cw g, of "fe_predictedWriteCount fe"] obtain g' where
      g': "fold_res (send_write w h2) ws (g, fe_predictedWriteCount fe) = Inr (g', fe_predictedWriteCount fe + length ws)"
        "sink_inv (w_meta w) g'" "sink_frame g' = sink_frame g" by blast
    have "\<forall>a\<in>set ws. bindE (deref h2 (Some a)) (\<lambda>(_, p). pp_get_generator_hash p) = Inr (pp_generatorHash (the (h2 a)))"
      using cw by (auto simp: complete_at_def deref_def parent_inv_def pp_get_generator_hash_def)
    from map_res_total [OF this] have hs: "map_res (\<lambda>a. bindE (deref h2 (Some a)) (\<lambda>(_, p). pp_get_generator_hash p)) ws =
        Inr (map (\<lambda>a. pp_generatorHash (the (h2 a))) ws)" .
    have "updatePendingTable fc w pkt (g, fe) = Inr (g', fe\<lparr>fe_parents := h2, fe_pendingTable := pt,
        fe_predictedWriteCount := fe_predictedWriteCount fe + length ws,
        fe_genHash := fe_genHash fe @ map (\<lambda>a. pp_generatorHash (the (h2 a))) ws\<rparr>)"
      using rd len f(1) False h2(1) g'(1) hs by (simp add: updatePendingTable_def sendWritesToBackend_def)
    moreover have "pend_inv sz n h2 pt" by (rule pend_inv_grows [OF f(2) h2(3,2)])
    moreover have "dom h2 = dom (fe_parents fe)" using h2(3) f(3) by (simp add: heap_grows_def)
    ultimately show ?thesis using g'(2,3) f(6) by blast
  qed
qed

end
