(* ===== verification/Frontend_Run.thy ===== *)
theory Frontend_Run
imports Frontend_Inv
begin

text \<open>
  The front end over whole runs of requests: the invariant that ties the history, the accumulator, the
  predictor table, the pending table and the address predictor together, and that every request keeps.
\<close>

section \<open>The invariant\<close>

definition hist_inv :: "(PC_t \<Rightarrow> nat) \<Rightarrow> Tick \<Rightarrow> whb \<Rightarrow> bool" where
  "hist_inv sz prev q = (history_ok q \<and> (\<forall>w\<in>set (fq_queue q). fits sz w \<and> whb_genTick w \<le> prev))"

definition table_inv :: "(PC_t \<Rightarrow> nat) \<Rightarrow> PredictorTable \<Rightarrow> bool" where
  "table_inv sz t = (prt_inv t \<and> (\<forall>h e. um_find (prt_predictorTable t) h = Some e \<longrightarrow> promotable sz e))"

definition acc_inv :: "FeCfg \<Rightarrow> Tick \<Rightarrow> Frontend \<Rightarrow> bool" where
  "acc_inv fc prev fe = (acc_ok (fe_cacheLineAccumulator fe) \<and> length (fe_cacheLineAccumulator fe) \<le> fc_CL_ACC_SIZE fc \<and>
     (\<forall>a. um_find (fe_cacheLineAccumulator fe) a \<noteq> None \<longrightarrow> um_has (fe_lastWriteTickToAddr fe) a) \<and>
     (\<forall>a cl. um_find (fe_cacheLineAccumulator fe) a = Some cl \<longrightarrow> cl_timeOfCreation cl \<le> prev))"

definition pred_inv :: "(PC_t \<Rightarrow> nat) \<Rightarrow> nat \<Rightarrow> Frontend \<Rightarrow> bool" where
  "pred_inv sz n fe = (table_inv sz (fe_predictorTable fe) \<and> pend_inv sz (17 * n) (fe_parents fe) (fe_pendingTable fe) \<and>
     (\<forall>a\<in>dom (fe_parents fe). a < fe_nextParent fe) \<and> addr_inv fe)"

text \<open>After \<open>n\<close> requests, the last one at tick \<open>prev\<close>.\<close>

definition fe_inv :: "FeCfg \<Rightarrow> (PC_t \<Rightarrow> nat) \<Rightarrow> nat \<Rightarrow> Tick \<Rightarrow> Frontend \<Rightarrow> bool" where
  "fe_inv fc sz n prev fe = (hist_inv sz prev (fe_writeHistoryBuffer fe) \<and> acc_inv fc prev fe \<and> pred_inv sz n fe)"

section \<open>Prediction\<close>

text \<open>What the front end leaves of the shared state: the switches, the latencies, and the feedback unless it is consumed.\<close>

definition same_mode :: "Globals \<Rightarrow> Globals \<Rightarrow> bool" where
  "same_mode g g' = (g_predictorEnabled g' = g_predictorEnabled g \<and> g_usePredictor g' = g_usePredictor g \<and>
     g_MAX_COMPLETED_QUEUE_LINE_SIZE g' = g_MAX_COMPLETED_QUEUE_LINE_SIZE g \<and> g_clwbLatency g' = g_clwbLatency g \<and>
     (g_correctPredictions g' = g_correctPredictions g \<or> g_correctPredictions g' = []))"

lemma same_mode_trans: "same_mode x y \<Longrightarrow> same_mode y z \<Longrightarrow> same_mode x z"
  by (auto simp: same_mode_def)

lemma sink_frame_mode: "sink_frame g' = sink_frame g \<Longrightarrow> same_mode g g'"
  unfolding same_mode_def sink_frame_def by (cases g; cases g') simp

lemma sink_inv_feedback: "sink_inv cfg g \<Longrightarrow> sink_inv cfg (g\<lparr>g_correctPredictions := []\<rparr>)"
  by (auto simp: sink_inv_def be_inv_def learn_ok_def line_ok_def conf_table_ok_def pc_conf_ok_def tracker_ok_def)

lemma table_inv_feedback:
  assumes "table_inv sz t" and "prt_inv t'"
    and f: "\<forall>h. feedback (m h) (um_find (prt_predictorTable t) h) (um_find (prt_predictorTable t') h)"
  shows "table_inv sz t'" "prt_predictorTable t' \<noteq> [] \<longrightarrow> prt_predictorTable t \<noteq> []"
proof -
  have pr: "\<exists>e0. um_find (prt_predictorTable t) h = Some e0 \<and> (promotable sz e0 \<longrightarrow> promotable sz e)" if "um_find (prt_predictorTable t') h = Some e" for h e
    using f [rule_format, of h] that promotable_rewarded by (auto simp: feedback_def split: option.splits)
  then show "table_inv sz t'" using assms(1,2) unfolding table_inv_def by blast
  show "prt_predictorTable t' \<noteq> [] \<longrightarrow> prt_predictorTable t \<noteq> []"
  proof
    assume "prt_predictorTable t' \<noteq> []"
    then obtain h e where "(h, e) \<in> set (prt_predictorTable t')" by (cases "prt_predictorTable t'") auto
    then have "um_find (prt_predictorTable t') h = Some e" using assms(2) by (simp add: prt_inv_def um_find_iff)
    then show "prt_predictorTable t \<noteq> []" using pr by fastforce
  qed
qed

lemma get_completed_parent_ok:
  assumes inv: "pend_inv sz n h pt"
  shows "\<exists>r. get_completed_parent h pt pc = Inr r"
proof -
  have hi: "heap_inv h" using inv by (simp add: pend_inv_def)
  have "\<exists>r. completed_parent_loop h q = Inr r" if "\<forall>e\<in>set q. pend_entry sz h pc e" for q
    using that
  proof (induction q)
    case Nil
    then show ?case by simp
  next
    case (Cons e q)
    obtain a p where a: "pe_parent e = Some a" "h a = Some p" using Cons.prems by (auto simp: pend_entry_def)
    then have "parent_ok p" using hi by (auto simp: heap_inv_def parent_inv_def)
    then obtain k where "allComplete p = Inr k" using allComplete_17 by blast
    then show ?case using Cons a by (auto simp: deref_def)
  qed
  then show ?thesis using inv by (auto simp: get_completed_parent_def pend_inv_def split: option.splits)
qed

text \<open>What the prediction leaves alone.\<close>

definition predict_frame :: "Frontend \<Rightarrow> Frontend \<Rightarrow> bool" where
  "predict_frame fe fe' = (fe_writeHistoryBuffer fe' = fe_writeHistoryBuffer fe \<and> fe_cacheLineAccumulator fe' = fe_cacheLineAccumulator fe \<and>
     fe_lastWriteTickToAddr fe' = fe_lastWriteTickToAddr fe)"

lemma promotion_ok:
  assumes inv: "pred_inv sz n fe" and t: "table_inv sz t" "prt_predictorTable t \<noteq> [] \<longrightarrow> prt_predictorTable (fe_predictorTable fe) \<noteq> []"
    and b: "b = prt_contains h t" "prt_lastFoundHashes t = (if b then [h] else [])"
    and n: "17 * (n + 1) < 2 ^ 64" and now: "now \<noteq> 0"
  shows "\<exists>fe'. (if b then fold_res (promote fc now) (prt_lastFoundHashes t)
        ((fe\<lparr>fe_predictorTable := t\<rparr>)\<lparr>fe_predictorTablePromotions := fe_predictorTablePromotions (fe\<lparr>fe_predictorTable := t\<rparr>) + 1\<rparr>)
      else Inr (fe\<lparr>fe_predictorTable := t\<rparr>)) = Inr fe' \<and> pred_inv sz (n + 1) fe' \<and> predict_frame fe fe'"
proof -
  have pi: "pend_inv sz (17 * n) (fe_parents fe) (fe_pendingTable fe)" "\<forall>a\<in>dom (fe_parents fe). a < fe_nextParent fe" "addr_inv fe"
    using inv by (auto simp: pred_inv_def)
  show ?thesis
  proof (cases b)
    case False
    have "pend_inv sz (17 * (n + 1)) (fe_parents fe) (fe_pendingTable fe)" by (rule pend_inv_mono [OF pi(1)]) simp
    then have "pred_inv sz (n + 1) (fe\<lparr>fe_predictorTable := t\<rparr>)"
      using t pi(2,3) by (auto simp: pred_inv_def addr_inv_def)
    then show ?thesis using False by (simp add: predict_frame_def)
  next
    case True
    let ?fe = "fe\<lparr>fe_predictorTable := t, fe_predictorTablePromotions := fe_predictorTablePromotions fe + 1\<rparr>"
    obtain e where e: "um_find (prt_predictorTable t) h = Some e" using True b(1) by (auto simp: prt_contains_def um_has_def)
    have pe: "promotable sz e" using t(1) e by (simp add: table_inv_def)
    have "fe_parents fe (fe_nextParent fe) = None" using pi(2) by blast
    then have pre: "pend_inv sz (17 * n) (fe_parents ?fe) (fe_pendingTable ?fe)" "fe_parents ?fe (fe_nextParent ?fe) = None"
      "prt_inv (fe_predictorTable ?fe)" "um_find (prt_predictorTable (fe_predictorTable ?fe)) h = Some e" "17 * n + 17 < 2 ^ 64"
      using pi(1) t(1) e n by (simp_all add: table_inv_def)
    from promote_ok [OF pre(1-4) pe pre(5) now, of fc] obtain hp pt k where
      r: "promote fc now h ?fe = Inr (?fe\<lparr>fe_nextParent := fe_nextParent fe + 1, fe_parents := hp, fe_pendingTable := pt, fe_constant0Prediction := k\<rparr>)"
        "pend_inv sz (17 * n + 17) hp pt" "dom hp = insert (fe_nextParent fe) (dom (fe_parents fe))" by auto
    let ?fe' = "?fe\<lparr>fe_nextParent := fe_nextParent fe + 1, fe_parents := hp, fe_pendingTable := pt, fe_constant0Prediction := k\<rparr>"
    have "prt_predictorTable t \<noteq> []" using e by auto
    then have "sq_queue (ap_addrDiff (fe_addrPredictor fe)) \<noteq> []" using t(2) pi(3) by (simp add: addr_inv_def)
    then have "addr_inv ?fe'" using pi(3) by (simp add: addr_inv_def)
    moreover have "\<forall>a\<in>dom (fe_parents ?fe'). a < fe_nextParent ?fe'" using pi(2) r(3) by (simp add: less_SucI)
    moreover have "pend_inv sz (17 * (n + 1)) (fe_parents ?fe') (fe_pendingTable ?fe')" using r(2) by (simp add: distrib_left add.commute)
    ultimately have "pred_inv sz (n + 1) ?fe'" using t(1) by (simp add: pred_inv_def)
    then show ?thesis using True b(2) r(1) by (intro exI [of _ ?fe']) (simp add: predict_frame_def)
  qed
qed

lemma predict_write_ok:
  assumes p: "store_pkt pkt pc vaddr src" and pa: "getAddr pkt = Inr paddr" and sz: "sz pc = length src"
    and inv: "pred_inv sz n fe" and n: "17 * (n + 1) < 2 ^ 64" and now: "w_now w \<noteq> 0"
    and g: "sink_inv (w_meta w) g" and c: "counts_small (g_correctPredictions g)"
  shows "\<exists>g' fe'. predict_write fc w pkt (g, fe) = Inr (g', fe') \<and> sink_inv (w_meta w) g' \<and> same_mode g g' \<and>
    pred_inv sz (n + 1) fe' \<and> predict_frame fe fe'"
proof -
  note rd = store_pkt_reads [OF p]
  obtain len where len: "getSize pkt = Inr len" using p by (auto simp: store_pkt_def)
  have ti: "table_inv sz (fe_predictorTable fe)" "prt_inv (fe_predictorTable fe)" using inv by (auto simp: pred_inv_def table_inv_def)
  have wf: "um_wf (g_correctPredictions g)" using g by (simp add: sink_inv_def be_inv_def learn_ok_def)
  from update_ihb_run [OF ti(2) wf c rd(3,5) len rd(7)] obtain b t h where
    u: "update_ihb pkt (g, fe_predictorTable fe) = Inr (b, g\<lparr>g_correctPredictions := []\<rparr>, t)" "prt_inv t"
      "\<forall>h. feedback (um_find (g_correctPredictions g) h) (um_find (prt_predictorTable (fe_predictorTable fe)) h) (um_find (prt_predictorTable t) h)"
      "b = prt_contains h t" "prt_lastFoundHashes t = (if b then [h] else [])" by blast
  note tf = table_inv_feedback [OF ti(1) u(2,3)]
  from promotion_ok [OF inv tf u(4,5) n now, of fc] obtain fe2 where
    pr: "(if b then fold_res (promote fc (w_now w)) (prt_lastFoundHashes t)
        ((fe\<lparr>fe_predictorTable := t\<rparr>)\<lparr>fe_predictorTablePromotions := fe_predictorTablePromotions (fe\<lparr>fe_predictorTable := t\<rparr>) + 1\<rparr>)
      else Inr (fe\<lparr>fe_predictorTable := t\<rparr>)) = Inr fe2" "pred_inv sz (n + 1) fe2" "predict_frame fe fe2" by blast
  let ?g = "g\<lparr>g_correctPredictions := []\<rparr>"
  have p2: "pend_inv sz (17 * (n + 1)) (fe_parents fe2) (fe_pendingTable fe2)" "addr_inv fe2" using pr(2) by (auto simp: pred_inv_def)
  from updatePendingTable_ok [where fc = fc, OF p pa sz p2(1) n now p2(2) sink_inv_feedback [OF g]] obtain g' hp pt k xs where
    up: "updatePendingTable fc w pkt (?g, fe2) =
        Inr (g', fe2\<lparr>fe_parents := hp, fe_pendingTable := pt, fe_predictedWriteCount := k, fe_genHash := xs\<rparr>)"
      "sink_inv (w_meta w) g'" "sink_frame g' = sink_frame ?g" "pend_inv sz (17 * (n + 1)) hp pt" "dom hp = dom (fe_parents fe2)"
      "\<forall>x. waiting pt x \<noteq> [] \<longrightarrow> waiting (fe_pendingTable fe2) x \<noteq> []" by blast
  let ?fe = "fe2\<lparr>fe_parents := hp, fe_pendingTable := pt, fe_predictedWriteCount := k, fe_genHash := xs\<rparr>"
  obtain r where r: "get_completed_parent hp pt pc = Inr r" using get_completed_parent_ok [OF up(4)] by blast
  have "predict_write fc w pkt (g, fe) = Inr (g', ?fe)"
    unfolding predict_write_def fst_conv snd_conv using rd len u(1) pr(1) up(1) r by (simp only: bindE_simps Let_def split_conv) simp
  moreover have "same_mode g g'" using sink_frame_mode [OF up(3)] by (simp add: same_mode_def)
  moreover have "pred_inv sz (n + 1) ?fe" using pr(2) up(4-6) by (auto simp: pred_inv_def addr_inv_def)
  moreover have "predict_frame fe ?fe" using pr(3) by (simp add: predict_frame_def)
  ultimately show ?thesis using up(2) by blast
qed

section \<open>Write-backs\<close>

lemma fits_use: "fits sz (whb_use w) = fits sz w"
  by (simp add: fits_def whb_use_ok) (simp add: whb_use_def)

lemma hist_inv_marked:
  assumes q: "hist_inv sz prev q" and m: "marked fc g a cs (fq_queue q) ws'"
  shows "hist_inv sz prev (q\<lparr>fq_queue := ws'\<rparr>)"
proof -
  note mm = m [unfolded marked_def]
  have hq: "history_ok q" using q by (simp add: hist_inv_def)
  have "history_ok (q\<lparr>fq_queue := ws'\<rparr>)" by (rule history_ok_used [OF hq conjunct1 [OF mm] conjunct2 [OF mm]])
  moreover have "fits sz w \<and> whb_genTick w \<le> prev" if wm: "w \<in> set ws'" for w
  proof -
    obtain k where k: "k < length ws'" "w = ws' ! k" using wm by (auto simp: in_set_conv_nth)
    have len: "length ws' = length (fq_queue q)" using mm by blast
    have "w = whb_use (fq_queue q ! k) \<or> w = fq_queue q ! k" using mm k by metis
    moreover have "fq_queue q ! k \<in> set (fq_queue q)" using k(1) len by simp
    ultimately show ?thesis using q whb_use_ok(2) fits_use by (auto simp: hist_inv_def)
  qed
  ultimately show ?thesis by (simp add: hist_inv_def)
qed

lemma table_inv_add:
  assumes t: "table_inv sz t" and el: "elem_ok e" "promotable sz e" and ct: "conf_table_ok g"
    and r: "prt_add e (g, t) = Inr (g', t')"
  shows "table_inv sz t' \<and> conf_table_ok g' \<and> g' = g\<lparr>g_confidenceTable := g_confidenceTable g'\<rparr>"
proof -
  have ti: "prt_inv t" using t by (simp add: table_inv_def)
  from prt_add_run [OF el(1) ti ct] r obtain x where
    x: "prt_inv t'" "conf_table_ok g'" "g' = g\<lparr>g_confidenceTable := g_confidenceTable g'\<rparr>"
      "\<forall>k. k \<noteq> pte_hash e \<longrightarrow> um_find (prt_predictorTable t') k = survivors g t k" "um_find (prt_predictorTable t') (pte_hash e) = Some x"
      "case survivors g t (pte_hash e) of None \<Rightarrow> x = pte_set_order (prt_currentOrder t) e | Some old \<Rightarrow> kept_entry old x" by auto
  have sv: "promotable sz y" if "survivors g t k = Some y" for k y
    using survivors_Some [OF that] t by (simp add: table_inv_def)
  have "promotable sz (pte_set_order (prt_currentOrder t) e)"
    using el(2) promotable_same [of "pte_set_order (prt_currentOrder t) e" e sz] by (simp add: pte_set_order_def)
  then have "promotable sz x"
    using x(6) promotable_kept [OF sv] by (cases "survivors g t (pte_hash e)") auto
  then have "promotable sz y" if "um_find (prt_predictorTable t') k = Some y" for k y
    using that x(4,5) sv by (cases "k = pte_hash e") auto
  then show ?thesis using x(1-3) by (simp add: table_inv_def)
qed

lemma sink_inv_conf:
  assumes "sink_inv cfg g" and "conf_table_ok g'" and g': "g' = g\<lparr>g_confidenceTable := g_confidenceTable g'\<rparr>"
  shows "sink_inv cfg g'" "same_mode g g'"
proof -
  obtain c where c: "g' = g\<lparr>g_confidenceTable := c\<rparr>" using g' by blast
  show "sink_inv cfg g'" "same_mode g g'"
    using assms(1,2) by (auto simp: c sink_inv_def be_inv_def learn_ok_def line_ok_def conf_table_ok_def pc_conf_ok_def tracker_ok_def same_mode_def)
qed

lemma fe_inv_later: "fe_inv fc sz n prev fe \<Longrightarrow> n \<le> m \<Longrightarrow> prev \<le> now \<Longrightarrow> fe_inv fc sz m now fe"
  by (fastforce simp: fe_inv_def hist_inv_def acc_inv_def pred_inv_def intro: pend_inv_mono order_trans)

lemma write_back_keeps:
  assumes va: "getVaddr (pk_req pkt) = Inr vaddr" and en: "g_predictorEnabled g" and inv: "fe_inv fc sz n prev fe"
    and g: "sink_inv (w_meta w) g" and rw: "rewards_ok (fc_pt fc)"
  shows "\<exists>g' fe'. fe_handleNonVolatileWrite fc w pkt True (g, fe) = Inr (g', fe') \<and> sink_inv (w_meta w) g' \<and> same_mode g g' \<and>
    fe_inv fc sz n prev fe'"
proof -
  let ?a = "cacheline_align vaddr" and ?acc = "fe_cacheLineAccumulator fe" and ?q = "fe_writeHistoryBuffer fe"
  let ?fe1 = "fe\<lparr>fe_clwbCountInclInv := fe_clwbCountInclInv fe + 1,
      fe_addrChangesBwClwb := fe_addrChangesBwClwb fe @ [fe_addrChangesSinceClwb fe], fe_addrChangesSinceClwb := 0\<rparr>"
  have inv1: "fe_inv fc sz n prev ?fe1" using inv by (simp add: fe_inv_def acc_inv_def pred_inv_def addr_inv_def)
  have ai: "acc_ok ?acc" using inv by (simp add: fe_inv_def acc_inv_def)
  consider (none) "um_find ?acc ?a = None" | (inv) cl where "um_find ?acc ?a = Some cl" "\<not> (\<exists>i<16. has_chunk (cl_dataChunks cl ! i))"
    | (line) cl where "um_find ?acc ?a = Some cl" "\<exists>i<16. has_chunk (cl_dataChunks cl ! i)" by blast
  then show ?thesis
  proof cases
    case none
    then have "fe_handleNonVolatileWrite fc w pkt True (g, fe) = Inr (g, ?fe1)"
      using va by (simp add: fe_handleNonVolatileWrite_def write_back_def Let_def)
    then show ?thesis using inv1 g by (simp add: same_mode_def)
  next
    case inv
    have "cl_ok cl" using ai inv(1) by (simp add: acc_ok_def acc_line_def)
    then have "all_invalid cl = Inr True" using line_invalid_ok [of cl] inv(2) by (auto simp: cl_ok_def in_set_conv_nth)
    then have "fe_handleNonVolatileWrite fc w pkt True (g, fe) = Inr (g, ?fe1)"
      using va inv(1) by (simp add: fe_handleNonVolatileWrite_def write_back_def Let_def)
    then show ?thesis using inv1 g by (simp add: same_mode_def)
  next
    case line
    have cl: "cl_ok cl" using ai line(1) by (simp add: acc_ok_def acc_line_def)
    have h: "hist_inv sz prev ?q" "history_ok ?q" "table_inv sz (fe_predictorTable fe)" "prt_inv (fe_predictorTable fe)" "ap_inv (fe_addrPredictor fe)"
      using assms(3) by (auto simp: fe_inv_def hist_inv_def pred_inv_def table_inv_def addr_inv_def)
    have gi: "pc_conf_ok g" "conf_table_ok g" using g by (auto simp: sink_inv_def be_inv_def learn_ok_def)
    from write_back_ok [OF va refl en line(1) cl line(2) h(2) gi h(4,5) rw refl, of w] obtain g' fe' ws' where
      r: "fe_handleNonVolatileWrite fc w pkt True (g, fe) = Inr (g', fe')"
        "fe_cacheLineAccumulator fe' = um_erase ?a ?acc" "fe_pendingTable fe' = fe_pendingTable fe" "fe_parents fe' = fe_parents fe"
        "fe_nextParent fe' = fe_nextParent fe" "fe_lastWriteTickToAddr fe' = fe_lastWriteTickToAddr fe"
        "set_last_seen_addr ?a (fe_addrPredictor fe) = Inr (fe_addrPredictor fe')"
        "fe_writeHistoryBuffer fe' = ?q\<lparr>fq_queue := ws'\<rparr>" "marked fc g ?a (cl_dataChunks cl) (fq_queue ?q) ws'"
        "if explained fc g (fq_queue ?q) ?a (cl_dataChunks cl)
         then \<exists>k. trigger fc g (fq_queue ?q) ?a (cl_dataChunks cl) = Some k \<and>
           prt_add (learned_entry fc g (w_now w) (fq_queue ?q) ?a cl (whb_pathHash (fq_queue ?q ! k))) (g, fe_predictorTable fe) = Inr (g', fe_predictorTable fe')
         else g' = g \<and> fe_predictorTable fe' = fe_predictorTable fe" by blast
    have hist: "hist_inv sz prev (fe_writeHistoryBuffer fe')" unfolding r(8) by (rule hist_inv_marked [OF h(1) r(9)])
    have acc: "acc_inv fc prev fe'"
    proof -
      have "length (um_erase ?a ?acc) \<le> length ?acc" using length_um_erase [of ?acc ?a] ai line(1) by (simp add: acc_ok_def)
      then show ?thesis using assms(3) acc_ok_erase [OF ai] unfolding acc_inv_def fe_inv_def r(2,6)
        by (auto simp: um_find_erase split: if_splits)
    qed
    have ap: "ap_inv (fe_addrPredictor fe')" "sq_queue (ap_addrDiff (fe_addrPredictor fe')) \<noteq> []"
      using set_last_seen_addr_ok [OF h(5), of ?a] r(7) by (auto simp: last_n_def)
    have t: "table_inv sz (fe_predictorTable fe') \<and> sink_inv (w_meta w) g' \<and> same_mode g g'"
    proof (cases "explained fc g (fq_queue ?q) ?a (cl_dataChunks cl)")
      case False
      then show ?thesis using r(10) h(3) g by (simp add: same_mode_def)
    next
      case True
      then obtain hsh where pa: "prt_add (learned_entry fc g (w_now w) (fq_queue ?q) ?a cl hsh) (g, fe_predictorTable fe) = Inr (g', fe_predictorTable fe')"
        using r(10) by auto
      have len: "length (cl_dataChunks cl) = 16" using cl by (simp add: cl_ok_def)
      have fit: "list_all (fits sz) (fq_queue ?q)" using h(1) by (simp add: hist_inv_def list_all_iff)
      from table_inv_add [OF h(3) learned_entry_ok(1) [OF rw len] promotable_learned [OF fit True cl line(2)] gi(2) pa] sink_inv_conf [OF g]
      show ?thesis by blast
    qed
    have "pred_inv sz n fe'" using assms(3) t ap r(3-5) by (simp add: fe_inv_def pred_inv_def addr_inv_def)
    then show ?thesis using r(1) hist acc t by (auto simp: fe_inv_def)
  qed
qed

section \<open>Requests\<close>

text \<open>The requests the front end sees: stores inside a line, whose width is that of their instruction;
  write-backs; and everything that neither writes nor writes back.\<close>

definition store_req :: "(PC_t \<Rightarrow> nat) \<Rightarrow> Packet \<Rightarrow> bool" where
  "store_req sz pkt = (\<exists>pc vaddr src paddr. store_pkt pkt pc vaddr src \<and> getAddr pkt = Inr paddr \<and> sz pc = length src)"

definition clwb_req :: "Packet \<Rightarrow> bool" where
  "clwb_req pkt = (is_vaddr_clwb pkt = Inr True \<and> \<not> isWrite pkt \<and> is_ok (getPC (pk_req pkt)))"

definition other_req :: "Packet \<Rightarrow> bool" where
  "other_req pkt = (is_vaddr_clwb pkt = Inr False \<and> \<not> isWrite pkt \<and> is_ok (getPC (pk_req pkt)) \<and> is_ok (getVaddr (pk_req pkt)) \<and>
     (\<exists>n. getSize pkt = Inr n \<and> (isToPOC (pk_req pkt) \<longrightarrow> n \<noteq> 4 \<and> n \<noteq> 8)))"

definition request_ok :: "(PC_t \<Rightarrow> nat) \<Rightarrow> Packet \<Rightarrow> bool" where
  "request_ok sz pkt = (store_req sz pkt \<or> clwb_req pkt \<or> other_req pkt)"

lemma store_not_clwb: "store_pkt pkt pc vaddr src \<Longrightarrow> is_vaddr_clwb pkt = Inr False"
  by (simp add: store_pkt_def is_vaddr_clwb_def)

lemma clwb_reads:
  assumes "is_vaddr_clwb pkt = Inr True"
  shows "getSize pkt = Inr 1" "\<exists>va. getVaddr (pk_req pkt) = Inr va \<and> is_vaddr_pm va" "isToPOC (pk_req pkt)" "\<not> hasData pkt"
  using assms by (auto simp: is_vaddr_clwb_def bindE_eq_Inr split: if_splits)

text \<open>The statistics and the trace.\<close>

definition stats_frame :: "Frontend \<Rightarrow> Frontend \<Rightarrow> bool" where
  "stats_frame fe fe' = (store_frame fe fe' \<and> fe_cacheLineAccumulator fe' = fe_cacheLineAccumulator fe)"

lemma fe_inv_stats: "fe_inv fc sz n prev fe \<Longrightarrow> stats_frame fe fe' \<Longrightarrow> fe_inv fc sz n prev fe'"
  by (auto simp: fe_inv_def stats_frame_def store_frame_def acc_inv_def pred_inv_def addr_inv_def)

lemma stats_frame_trans: "stats_frame x y \<Longrightarrow> stats_frame y z \<Longrightarrow> stats_frame x z"
  by (simp add: stats_frame_def store_frame_def)

lemma dump_trace_ok:
  assumes "request_ok sz pkt"
  shows "\<exists>fe'. fe_dumpTrace fc now pkt fe = Inr fe' \<and> stats_frame fe fe'"
proof -
  have fr: "stats_frame fe (fe\<lparr>fe_myFile := xs\<rparr>)" for xs by (simp add: stats_frame_def store_frame_def)
  have "\<exists>n va pc ds. getSize pkt = Inr n \<and> getVaddr (pk_req pkt) = Inr va \<and> getPC (pk_req pkt) = Inr pc \<and>
      ((isWrite pkt \<or> isToPOC (pk_req pkt)) \<and> (n = 4 \<or> n = 8) \<longrightarrow> bindE (getPtr pkt) (\<lambda>src. map_res (arr_get src) [0..<n div 4]) = Inr ds)"
    using assms unfolding request_ok_def
  proof (elim disjE)
    assume "store_req sz pkt"
    then obtain pc va src len where p: "store_pkt pkt pc va src" "getSize pkt = Inr len" "length src = len div 4"
      by (auto simp: store_req_def store_pkt_def)
    have "map_res (arr_get src) [0..<len div 4] = Inr (map ((!) src) [0..<len div 4])" by (rule map_res_total) (simp add: p(3))
    then have "bindE (getPtr pkt) (\<lambda>src. map_res (arr_get src) [0..<len div 4]) = Inr (map ((!) src) [0..<len div 4])"
      using store_pkt_reads [OF p(1)] by simp
    then show ?thesis using p(2) store_pkt_reads [OF p(1)] by blast
  next
    assume "clwb_req pkt"
    then show ?thesis using clwb_reads [of pkt] by (auto simp: clwb_req_def is_ok_iff)
  next
    assume "other_req pkt"
    then show ?thesis by (auto simp: other_req_def is_ok_iff)
  qed
  then obtain n va pc ds where r: "getSize pkt = Inr n" "getVaddr (pk_req pkt) = Inr va" "getPC (pk_req pkt) = Inr pc"
    "(isWrite pkt \<or> isToPOC (pk_req pkt)) \<and> (n = 4 \<or> n = 8) \<longrightarrow> bindE (getPtr pkt) (\<lambda>src. map_res (arr_get src) [0..<n div 4]) = Inr ds" by blast
  have fr0: "stats_frame fe fe" using fr [of "fe_myFile fe"] by simp
  show ?thesis
  proof (cases "fc_enableVolatileDump fc = [] \<or> \<not> ((isWrite pkt \<and> (n = 4 \<or> n = 8)) \<or> isToPOC (pk_req pkt))")
    case True
    then show ?thesis using r fr0 by (auto simp: fe_dumpTrace_def Let_def)
  next
    case False
    then show ?thesis using r fr by (cases "n = 4 \<or> n = 8") (auto simp: fe_dumpTrace_def Let_def)
  qed
qed

lemma statistics_ok:
  assumes va: "getVaddr (pk_req pkt) = Inr vaddr" and c: "is_vaddr_clwb pkt = Inr b" and pc: "getPC (pk_req pkt) = Inr pc"
  shows "\<exists>fe'. collectPktStatistics now pkt fe = Inr fe' \<and> stats_frame fe fe' \<and>
    (isWrite pkt \<and> \<not> b \<and> is_vaddr_pm vaddr \<longrightarrow> um_has (fe_lastWriteTickToAddr fe') (cacheline_align vaddr))"
proof (cases "(isWrite pkt \<or> b) \<and> is_vaddr_pm vaddr")
  case False
  then show ?thesis using assms by (auto simp: collectPktStatistics_def stats_frame_def store_frame_def)
next
  case True
  then show ?thesis using assms
    by (cases b; cases "um_find (fe_lastWriteTickToAddr fe) vaddr")
       (simp_all add: collectPktStatistics_def stats_frame_def store_frame_def Let_def um_has_def um_find_put)
qed

lemma sample_writeback_frame: "stats_frame fe (sample_writeback now addr b fe)"
  by (auto simp: sample_writeback_def stats_frame_def store_frame_def split: option.splits)

lemma stats_frame_has: "stats_frame fe fe' \<Longrightarrow> um_has (fe_lastWriteTickToAddr fe) a \<Longrightarrow> um_has (fe_lastWriteTickToAddr fe') a"
  by (simp add: stats_frame_def store_frame_def)

lemma last_n_subset: "set (last_n k xs) \<subseteq> set xs"
  by (simp add: last_n_def set_drop_subset)

lemma history_keeps:
  assumes p: "store_pkt pkt pc vaddr src" and sz: "sz pc = length src" and inv: "fe_inv fc sz n prev fe" and now: "prev \<le> now"
  shows "\<exists>q. updateWriteHistoryBuffer now pkt fe = Inr (fe\<lparr>fe_writeHistoryBuffer := q\<rparr>) \<and> hist_inv sz now q"
proof -
  let ?q = "fe_writeHistoryBuffer fe"
  have h: "history_ok ?q" "\<forall>w\<in>set (fq_queue ?q). whb_genTick w \<le> now" "\<forall>w\<in>set (fq_queue ?q). fits sz w"
    using inv now by (auto simp: fe_inv_def hist_inv_def)
  have ph: "sq_inv (prt_pathHistory (fe_predictorTable fe))" "sq_sz (prt_pathHistory (fe_predictorTable fe)) \<le> 64"
    using inv by (auto simp: fe_inv_def pred_inv_def table_inv_def prt_inv_def)
  have len: "length src \<le> 16" using store_pkt_reads [OF p] by simp
  from updateWriteHistoryBuffer_ok [OF p h(1,2) ph] obtain q e where
    r: "updateWriteHistoryBuffer now pkt fe = Inr (fe\<lparr>fe_writeHistoryBuffer := q\<rparr>)" "history_ok q"
      "fq_queue q = last_n (fq_sz ?q) (fq_queue ?q @ [e])" "whb_pc e = pc" "whb_genTick e = now" "whb_size e = Some (of_nat (length src))" by blast
  have "fits sz w \<and> whb_genTick w \<le> now" if wq: "w \<in> set (fq_queue q)" for w
  proof -
    have ok: "whb_ok w" using r(2) wq by (auto simp: history_ok_def list_all_iff)
    have "w \<in> set (fq_queue ?q) \<or> w = e" using wq last_n_subset [of "fq_sz ?q" "fq_queue ?q @ [e]"] by (auto simp: r(3))
    then show ?thesis using h(2,3) ok r(4-6) sz len by (auto simp: fits_def)
  qed
  then show ?thesis using r(1,2) by (auto simp: hist_inv_def)
qed

lemma acc_step_dom: "acc_step a pc off src m m' \<Longrightarrow> b \<noteq> a \<Longrightarrow> um_find m' b \<noteq> None \<Longrightarrow> um_find m b \<noteq> None"
proof
  assume st: "acc_step a pc off src m m'" and b: "b \<noteq> a" "um_find m' b \<noteq> None" "um_find m b = None"
  then obtain v where v: "b \<noteq> v \<longrightarrow> map_option set_clean (um_find m' b) = map_option set_clean (um_find m b)"
    "map_option set_clean (um_find m' v) = map_option set_clean (um_find m v) \<or> um_find m' v = None" unfolding acc_step_def by blast
  then show False using b(2,3) by (cases "b = v") auto
qed

lemma accumulate_keeps:
  assumes p: "store_pkt pkt pc vaddr src" and w: "world_ok w" and g: "sink_inv (w_meta w) g" and cap: "0 < fc_CL_ACC_SIZE fc"
    and ai: "acc_inv fc prev fe" and now: "prev < w_now w" and lw: "um_has (fe_lastWriteTickToAddr fe) (cacheline_align vaddr)"
  shows "\<exists>g' fe'. accumulate_store fc w pkt (g, fe) = Inr (g', fe') \<and> sink_inv (w_meta w) g' \<and> same_mode g g' \<and>
    g_correctPredictions g' = g_correctPredictions g \<and> store_frame fe fe' \<and> acc_inv fc (w_now w) fe'"
proof -
  let ?m = "fe_cacheLineAccumulator fe"
  have a: "acc_ok ?m" "length ?m \<le> fc_CL_ACC_SIZE fc" "\<forall>a. um_find ?m a \<noteq> None \<longrightarrow> um_has (fe_lastWriteTickToAddr fe) a"
    using ai by (simp_all add: acc_inv_def)
  have old: "\<forall>a cl. um_find ?m a = Some cl \<longrightarrow> cl_timeOfCreation cl < w_now w" using ai now unfolding acc_inv_def by fastforce
  from accumulate_store_run [OF p w a(1) g a(2) cap a(3) old] obtain g' fe' where
    r: "accumulate_store fc w pkt (g, fe) = Inr (g', fe')" "sink_inv (w_meta w) g'" "sink_frame g' = sink_frame g"
      "acc_ok (fe_cacheLineAccumulator fe')" "length (fe_cacheLineAccumulator fe') \<le> fc_CL_ACC_SIZE fc"
      "acc_step (cacheline_align vaddr) pc (chunk_offset vaddr) src ?m (fe_cacheLineAccumulator fe')" "store_frame fe fe'"
      "\<forall>a cl. um_find (fe_cacheLineAccumulator fe') a = Some cl \<longrightarrow> cl_timeOfCreation cl \<le> w_now w" by blast
  have "um_has (fe_lastWriteTickToAddr fe') b" if "um_find (fe_cacheLineAccumulator fe') b \<noteq> None" for b
  proof -
    have "um_has (fe_lastWriteTickToAddr fe) b"
      using lw a(3) acc_step_dom [OF r(6) _ that] by (cases "b = cacheline_align vaddr") auto
    then show ?thesis using r(7) by (simp add: store_frame_def)
  qed
  then have "acc_inv fc (w_now w) fe'" using r(4,5,8) by (simp add: acc_inv_def)
  moreover have "g_correctPredictions g' = g_correctPredictions g" using r(3) unfolding sink_frame_def by (cases g; cases g') simp
  ultimately show ?thesis using r(1,2,7) sink_frame_mode [OF r(3)] by blast
qed

lemma pred_inv_frame: "store_frame fe fe' \<Longrightarrow> pred_inv sz n fe \<Longrightarrow> pred_inv sz n fe'"
  by (simp add: store_frame_def pred_inv_def addr_inv_def)

text \<open>One request: it does not abort, and the invariant holds after it, of one request more.\<close>

definition kept :: "FeCfg \<Rightarrow> (PC_t \<Rightarrow> nat) \<Rightarrow> nat \<Rightarrow> World \<Rightarrow> Globals \<Rightarrow> (Globals \<times> Frontend) res \<Rightarrow> bool" where
  "kept fc sz n w g r = (\<exists>g' fe'. r = Inr (g', fe') \<and> sink_inv (w_meta w) g' \<and> same_mode g g' \<and> fe_inv fc sz (n + 1) (w_now w) fe')"

lemma keptI:
  assumes "fe_inv fc sz n prev fe" and "prev \<le> w_now w" and "sink_inv (w_meta w) g" shows "kept fc sz n w g (Inr (g, fe))"
  using assms fe_inv_later [OF assms(1), of "n + 1" "w_now w"] by (simp add: kept_def same_mode_def)

lemma handle_store_ok:
  assumes p: "store_pkt pkt pc vaddr src" and pa: "getAddr pkt = Inr paddr" and sz: "sz pc = length src" and w: "world_ok w"
    and cap: "0 < fc_CL_ACC_SIZE fc" and g: "sink_inv (w_meta w) g" and c: "counts_small (g_correctPredictions g)"
    and n: "17 * (n + 1) < 2 ^ 64" and now: "prev < w_now w"
    and h: "hist_inv sz (w_now w) (fe_writeHistoryBuffer fe)" and ai: "acc_inv fc prev fe" and pi: "pred_inv sz n fe"
    and lw: "is_vaddr_pm vaddr \<longrightarrow> um_has (fe_lastWriteTickToAddr fe) (cacheline_align vaddr)"
  shows "kept fc sz n w g (handleWrite fc w pkt (g, fe))"
proof -
  note rd = store_pkt_reads [OF p]
  obtain len where len: "getSize pkt = Inr len" using p by (auto simp: store_pkt_def)
  let ?fe1 = "sample_writeback (w_now w) vaddr False fe"
  have fr: "stats_frame fe ?fe1" by (rule sample_writeback_frame)
  then have s1: "pred_inv sz n ?fe1" "acc_inv fc prev ?fe1" "fe_writeHistoryBuffer ?fe1 = fe_writeHistoryBuffer fe"
    using pi ai pred_inv_frame [of fe ?fe1] by (auto simp: stats_frame_def store_frame_def acc_inv_def)
  have "\<exists>g2 fe2. (if is_vaddr_pm vaddr then fe_handleNonVolatileWrite fc w pkt False (g, ?fe1) else Inr (g, ?fe1)) = Inr (g2, fe2) \<and>
      sink_inv (w_meta w) g2 \<and> same_mode g g2 \<and> g_correctPredictions g2 = g_correctPredictions g \<and> store_frame ?fe1 fe2 \<and> acc_inv fc (w_now w) fe2"
  proof (cases "is_vaddr_pm vaddr")
    case True
    then have "um_has (fe_lastWriteTickToAddr ?fe1) (cacheline_align vaddr)" using lw stats_frame_has [OF fr] by blast
    from accumulate_keeps [OF p w g cap s1(2) now this] True show ?thesis by (simp add: fe_handleNonVolatileWrite_def)
  next
    case False
    have "acc_inv fc (w_now w) ?fe1" using s1(2) now unfolding acc_inv_def by fastforce
    then show ?thesis using False g by (simp add: same_mode_def store_frame_def)
  qed
  then obtain g2 fe2 where r: "(if is_vaddr_pm vaddr then fe_handleNonVolatileWrite fc w pkt False (g, ?fe1) else Inr (g, ?fe1)) = Inr (g2, fe2)"
    "sink_inv (w_meta w) g2" "same_mode g g2" "g_correctPredictions g2 = g_correctPredictions g" "store_frame ?fe1 fe2" "acc_inv fc (w_now w) fe2" by blast
  have pos: "w_now w \<noteq> 0" using now by (metis word_not_simps(1))
  have c2: "counts_small (g_correctPredictions g2)" using c r(4) by simp
  from predict_write_ok [OF p pa sz pred_inv_frame [OF r(5) s1(1)] n pos r(2) c2, of fc] obtain g3 fe3 where
    q: "predict_write fc w pkt (g2, fe2) = Inr (g3, fe3)" "sink_inv (w_meta w) g3" "same_mode g2 g3" "pred_inv sz (n + 1) fe3" "predict_frame fe2 fe3" by blast
  have "handleWrite fc w pkt (g, fe) = Inr (g3, fe3)"
    using rd len store_not_clwb [OF p] r(1) q(1) by (simp add: handleWrite_def Let_def is_vaddr_volatile_def)
  moreover have "fe_inv fc sz (n + 1) (w_now w) fe3"
    using h s1(3) r(5,6) q(4,5) by (simp add: fe_inv_def predict_frame_def store_frame_def acc_inv_def)
  ultimately show ?thesis using q(2) same_mode_trans [OF r(3) q(3)] by (auto simp: kept_def)
qed

lemma handle_clwb_ok:
  assumes p: "is_vaddr_clwb pkt = Inr True" and en: "g_predictorEnabled g" and rw: "rewards_ok (fc_pt fc)" and g: "sink_inv (w_meta w) g"
    and inv: "fe_inv fc sz n prev fe" and now: "prev \<le> w_now w"
  shows "kept fc sz n w g (handleWrite fc w pkt (g, fe))"
proof -
  obtain va where rd: "getSize pkt = Inr 1" "getVaddr (pk_req pkt) = Inr va" "is_vaddr_pm va" using clwb_reads [OF p] by blast
  let ?fe1 = "sample_writeback (w_now w) va True fe"
  have inv1: "fe_inv fc sz n prev ?fe1" by (rule fe_inv_stats [OF inv sample_writeback_frame])
  from write_back_keeps [OF rd(2) en inv1 g rw] obtain g' fe' where
    r: "fe_handleNonVolatileWrite fc w pkt True (g, ?fe1) = Inr (g', fe')" "sink_inv (w_meta w) g'" "same_mode g g'" "fe_inv fc sz n prev fe'" by blast
  have "handleWrite fc w pkt (g, fe) = Inr (g', fe')"
    using rd p r(1) by (simp add: handleWrite_def Let_def)
  then show ?thesis using r(2,3) fe_inv_later [OF r(4) _ now, of "n + 1"] by (simp add: kept_def)
qed

lemma request_reads:
  assumes "request_ok sz pkt"
  shows "\<exists>va b pc len. getVaddr (pk_req pkt) = Inr va \<and> is_vaddr_clwb pkt = Inr b \<and> getPC (pk_req pkt) = Inr pc \<and> getSize pkt = Inr len"
  using assms unfolding request_ok_def
proof (elim disjE)
  assume "store_req sz pkt"
  then obtain pc va src where p: "store_pkt pkt pc va src" by (auto simp: store_req_def)
  moreover obtain len where "getSize pkt = Inr len" using p by (auto simp: store_pkt_def)
  ultimately show ?thesis using store_pkt_reads [OF p] store_not_clwb [OF p] by blast
next
  assume "clwb_req pkt"
  then show ?thesis using clwb_reads [of pkt] by (auto simp: clwb_req_def is_ok_iff)
next
  assume "other_req pkt"
  then show ?thesis by (auto simp: other_req_def is_ok_iff)
qed

lemma request_keeps:
  assumes rq: "request_ok sz pkt" and w: "world_ok w" and cap: "0 < fc_CL_ACC_SIZE fc" and rw: "rewards_ok (fc_pt fc)"
    and g: "sink_inv (w_meta w) g" and c: "counts_small (g_correctPredictions g)" and n: "17 * (n + 1) < 2 ^ 64"
    and now: "prev < w_now w" and inv: "fe_inv fc sz n prev fe"
  shows "kept fc sz n w g (fe_predictorHandleRequest fc w pkt (g, fe))"
proof -
  from dump_trace_ok [OF rq, of fc "w_now w" fe] obtain fe0 where d: "fe_dumpTrace fc (w_now w) pkt fe = Inr fe0" "stats_frame fe fe0" by blast
  have inv0: "fe_inv fc sz n prev fe0" by (rule fe_inv_stats [OF inv d(2)])
  have le: "prev \<le> w_now w" using now by simp
  show ?thesis
  proof (cases "g_predictorEnabled g \<and> g_usePredictor g")
    case False
    then show ?thesis using d(1) keptI [where w = w, OF inv0 le g] by (auto simp: fe_predictorHandleRequest_def)
  next
    case True
    obtain va b pc len where rd: "getVaddr (pk_req pkt) = Inr va" "is_vaddr_clwb pkt = Inr b" "getPC (pk_req pkt) = Inr pc" "getSize pkt = Inr len"
      using request_reads [OF rq] by blast
    from statistics_ok [OF rd(1-3), of "w_now w" fe0] obtain fe1 where
      st: "collectPktStatistics (w_now w) pkt fe0 = Inr fe1" "stats_frame fe0 fe1"
        "isWrite pkt \<and> \<not> b \<and> is_vaddr_pm va \<longrightarrow> um_has (fe_lastWriteTickToAddr fe1) (cacheline_align va)" by blast
    have inv1: "fe_inv fc sz n prev fe1" by (rule fe_inv_stats [OF inv0 st(2)])
    have go: "fe_predictorHandleRequest fc w pkt (g, fe) =
        bindE (if isWrite pkt then updateWriteHistoryBuffer (w_now w) pkt fe1 else Inr fe1) (\<lambda>fe2.
        if (isWrite pkt \<and> (len = 8 \<or> len = 4)) \<or> b then handleWrite fc w pkt (g, fe2) else Inr (g, fe2))"
      using True d(1) st(1) rd by (simp add: fe_predictorHandleRequest_def canAddToWhb_def cong: if_cong)
    show ?thesis
    proof (cases "isWrite pkt")
      case False
      show ?thesis
      proof (cases b)
        case True
        then show ?thesis using False handle_clwb_ok [OF _ _ rw g inv1 le] rd(2) \<open>g_predictorEnabled g \<and> g_usePredictor g\<close> by (simp add: go)
      next
        case bf: False
        then show ?thesis using False keptI [where w = w, OF inv1 le g] by (simp add: go)
      qed
    next
      case wr: True
      then obtain pc vaddr src paddr where p: "store_pkt pkt pc vaddr src" "getAddr pkt = Inr paddr" "sz pc = length src"
        using rq by (auto simp: request_ok_def store_req_def clwb_req_def other_req_def)
      have bv: "\<not> b" "va = vaddr" using rd(1,2) store_not_clwb [OF p(1)] store_pkt_reads [OF p(1)] by auto
      from history_keeps [OF p(1,3) inv1 le] obtain q where
        h: "updateWriteHistoryBuffer (w_now w) pkt fe1 = Inr (fe1\<lparr>fe_writeHistoryBuffer := q\<rparr>)" "hist_inv sz (w_now w) q" by blast
      let ?fe2 = "fe1\<lparr>fe_writeHistoryBuffer := q\<rparr>"
      have i2: "hist_inv sz (w_now w) (fe_writeHistoryBuffer ?fe2)" "acc_inv fc prev ?fe2" "pred_inv sz n ?fe2"
        "is_vaddr_pm vaddr \<longrightarrow> um_has (fe_lastWriteTickToAddr ?fe2) (cacheline_align vaddr)"
        using h(2) inv1 st(3) wr bv by (auto simp: fe_inv_def acc_inv_def pred_inv_def addr_inv_def)
      show ?thesis
      proof (cases "len = 8 \<or> len = 4")
        case True
        then show ?thesis using wr h(1) handle_store_ok [OF p w cap g c n now i2] by (simp add: go)
      next
        case False
        have a: "acc_inv fc (w_now w) ?fe2" using i2(2) now unfolding acc_inv_def by fastforce
        have "fe_inv fc sz n (w_now w) ?fe2" using i2(1,3) a by (simp add: fe_inv_def)
        then show ?thesis using False wr bv h(1) keptI [where w = w, OF _ order_refl g] by (simp add: go)
      qed
    qed
  qed
qed

end
