(* ===== verification/Predictor_System.thy ===== *)
theory Predictor_System
imports Frontend_Run
begin

text \<open>
  The predictor as a whole: the front end beside the caches and the back end in front of the memory
  controller share the static members of \<open>PredictorBackend\<close> and \<open>SharedArea\<close>.  The front end puts its
  predictions there, the back end consumes them and leaves feedback, which the front end reads.  The
  pseudo instructions \<open>workbegin\<close> and \<open>workend\<close> switch both on and off.  A run is any interleaving of the
  requests of the two sides with the switches.
\<close>

section \<open>The system\<close>

text \<open>Of the two pseudo instructions only the assignment that the predictor sees is modelled; the rest
  resets statistics, prints and leaves the simulation.\<close>

definition workbegin :: "Globals \<Rightarrow> Globals" where
  "workbegin g = g\<lparr>g_predictorEnabled := True\<rparr>"

definition workend :: "Globals \<Rightarrow> Globals" where
  "workend g = g\<lparr>g_predictorEnabled := False\<rparr>"

datatype PAction =
    AtFront World Packet
  | AtBack environ Tick hash_t Packet
  | WorkBegin
  | WorkEnd

record PSys =
  ps_g :: Globals
  ps_fe :: Frontend
  ps_be :: Backend

definition psys_init :: "environ \<Rightarrow> (nat \<Rightarrow> nat) \<Rightarrow> FeCfg \<Rightarrow> string \<Rightarrow> nat \<Rightarrow> nat \<Rightarrow> PSys" where
  "psys_init env scale fc nm whbSize pendSize =
     \<lparr>ps_g = fst (mk_PredictorBackend env scale Globals_init),
      ps_fe = mk_Frontend fc nm whbSize (mk_PendingTable (nm @ ''.pend_t'') pendSize env),
      ps_be = snd (mk_PredictorBackend env scale Globals_init)\<rparr>"

definition psys_step :: "FeCfg \<Rightarrow> PAction \<Rightarrow> PSys \<Rightarrow> PSys res" where
  "psys_step fc a s = (case a of
       AtFront w pkt \<Rightarrow> bindE (fe_predictorHandleRequest fc w pkt (ps_g s, ps_fe s)) (\<lambda>(g, fe). Inr (s\<lparr>ps_g := g, ps_fe := fe\<rparr>))
     | AtBack env now junk pkt \<Rightarrow> bindE (predictorHandleRequest env now junk pkt (ps_g s, ps_be s)) (\<lambda>(g, be). Inr (s\<lparr>ps_g := g, ps_be := be\<rparr>))
     | WorkBegin \<Rightarrow> Inr (s\<lparr>ps_g := workbegin (ps_g s)\<rparr>)
     | WorkEnd \<Rightarrow> Inr (s\<lparr>ps_g := workend (ps_g s)\<rparr>))"

section \<open>Requests of the back end\<close>

text \<open>The back end sees writes of whole lines, reads, and write-backs of one byte.\<close>

definition back_ok :: "Packet \<Rightarrow> bool" where
  "back_ok pkt = (\<exists>a n pa. getAddr pkt = Inr a \<and> getSize pkt = Inr n \<and> req_getSize (pk_req pkt) = Inr n \<and> getPaddr (pk_req pkt) = Inr pa \<and>
     (if isWrite pkt then n = 64 \<and> (\<exists>ds. getPtr pkt = Inr ds) \<and> (is_paddr_pm a \<longrightarrow> (\<exists>ds. line_write pkt pa ds))
      else isToPOC (pk_req pkt) \<longrightarrow> n = 1))"

definition counts_le :: "nat \<Rightarrow> Globals \<Rightarrow> bool" where
  "counts_le k g = (\<forall>h p. um_find (g_correctPredictions g) h = Some p \<longrightarrow> unat (fst p) \<le> k \<and> unat (snd p) \<le> k)"

lemma counts_le_small:
  assumes "counts_le k g" and "um_wf (g_correctPredictions g)" and "k < 2 ^ 31"
  shows "counts_small (g_correctPredictions g)"
  using assms by (fastforce simp: counts_le_def counts_small_def list_all_iff um_find_iff)

lemma counts_le_mode: "same_mode g g' \<Longrightarrow> counts_le k g \<Longrightarrow> k \<le> k' \<Longrightarrow> counts_le k' g'"
  by (fastforce simp: same_mode_def counts_le_def)

lemma unat_Suc_le: "unat (x :: 64 word) \<le> k \<Longrightarrow> k < 2 ^ 31 \<Longrightarrow> unat (x + 1) \<le> k + 1"
  by (simp add: unat_word_ariths)

lemma counts_le_credit:
  assumes k: "counts_le k g" "k < 2 ^ 31" and s: "settled r g g'"
  shows "counts_le (k + 1) g'"
  using s k unat_Suc_le [OF _ k(2)]
  by (fastforce simp: settled_def uncredited_def credited_def counts_le_def broadcastPrediction_def count_prediction_def um_find_put
      split: option.splits if_splits)

text \<open>What the back end leaves of the shared state: everything but what it has learned and the buffer of
  predictions.\<close>

definition back_frame :: "Globals \<Rightarrow> Globals \<Rightarrow> bool" where
  "back_frame g g' = (g_predictorEnabled g' = g_predictorEnabled g \<and> g_usePredictor g' = g_usePredictor g \<and>
     g_MAX_COMPLETED_QUEUE_LINE_SIZE g' = g_MAX_COMPLETED_QUEUE_LINE_SIZE g \<and> g_clwbLatency g' = g_clwbLatency g)"

lemma handle_write_keeps:
  assumes inv: "be_inv g" and p: "line_write pkt paddr ds"
  shows "\<exists>g' be' r. handleNonVolatileWrite env now junk pkt (g, be) = Inr (g', be') \<and> be_inv g' \<and> back_frame g g' \<and> settled r g g'"
proof (cases "um_find (g_completedWrites g) paddr")
  case None
  from line_write_line [OF p] obtain cl v where l: "mk_CacheLine_pkt now pkt False = Inr cl" "valid_chunk_count cl = Inr v" by blast
  let ?be = "(count_write v paddr g be)\<lparr>be_nonPredictedPWrites := be_nonPredictedPWrites (count_write v paddr g be) + 1\<rparr>"
  obtain g' be' where r: "invalidateAllAddr env now (g, ?be) = (g', be')" by (cases "invalidateAllAddr env now (g, ?be)")
  have "back_frame g g'" using r by (auto simp: invalidateAllAddr_def back_frame_def split: if_splits)
  moreover have "handleNonVolatileWrite env now junk pkt (g, be) = Inr (g', be')"
    using None r line_write_reads(1) [OF p] l by (simp add: handleNonVolatileWrite_def)
  moreover have "settled None g g'" using invalidate_ok(3) [OF inv r] by (simp add: settled_def)
  ultimately show ?thesis using invalidate_ok(1) [OF inv r] by blast
next
  case (Some q)
  obtain t n c d where o: "outcome be = (t, n, c, d)" by (cases "outcome be") auto
  from handle_found [OF p Some o] obtain be1 where be1: "handleNonVolatileWrite env now junk pkt (g, be) = handle_predicted now junk pkt paddr q (g, be1)" by blast
  from handle_predicted_run [OF inv Some p, of now junk be1] obtain g1 be2 where
    r: "handle_predicted now junk pkt paddr q (g, be1) = finish_match paddr q (first_index (usable paddr ds) (rev q)) (g1, be2)"
      "learn_ok g1" "learn_frame g1 = learn_frame g" "settled (List.find (usable paddr ds) (rev q)) g g1" by blast
  note fr = learn_frame_eq [OF r(3)]
  have none: "newest (usable paddr ds) q j" if "first_index (usable paddr ds) (rev q) = Some i" "j = length q - 1 - i" for i j
  proof -
    have i: "i < length q" "usable paddr ds (rev q ! i)" "\<And>k. k < i \<Longrightarrow> \<not> usable paddr ds (rev q ! k)"
      using that(1) by (auto simp: first_index_Some)
    have "\<not> usable paddr ds (q ! k)" if "j < k" "k < length q" for k
      using that i(1) i(3) [of "length q - Suc k"] \<open>j = length q - 1 - i\<close> by (simp add: rev_nth)
    then show ?thesis using that(2) i(1,2) by (simp add: newest_def rev_nth)
  qed
  show ?thesis
  proof (cases "first_index (usable paddr ds) (rev q)")
    case None
    then show ?thesis using be1 r be_inv_frame [OF inv r(3,2)] fr Some
      by (intro exI [of _ g1] exI [of _ "List.find (usable paddr ds) (rev q)"]) (auto simp: finish_match_def back_frame_def)
  next
    case (Some i)
    let ?j = "length q - 1 - i"
    have nw: "newest (usable paddr ds) q ?j" by (rule none [OF Some refl])
    let ?g' = "g1\<lparr>g_completedWrites := um_put paddr (q[?j := (q ! ?j)\<lparr>cw_used := True\<rparr>]) (g_completedWrites g)\<rparr>"
    note f = finish_hit(1) [OF inv \<open>um_find (g_completedWrites g) paddr = Some q\<close> nw r(2,3), of be2]
      finish_hit(2) [OF inv \<open>um_find (g_completedWrites g) paddr = Some q\<close> nw r(2,3)]
    have ij: "length q - 1 - ?j = i" using Some by (auto simp: first_index_Some)
    have "settled x g ?g' = settled x g g1" for x
      by (simp add: settled_def uncredited_def credited_def conf_of_def fun_eq_iff split: option.splits)
    then have "settled (List.find (usable paddr ds) (rev q)) g ?g'" using r(4) by blast
    moreover have "back_frame g ?g'" using fr by (simp add: back_frame_def)
    moreover have "handleNonVolatileWrite env now junk pkt (g, be) = Inr (?g', be2)" using be1 r(1) Some f(1) ij by simp
    ultimately show ?thesis using f(2) by blast
  qed
qed

lemma back_request_keeps:
  assumes p: "back_ok pkt" and g: "sink_inv cfg g" and k: "counts_le k g" "k < 2 ^ 31"
  shows "\<exists>g' be'. predictorHandleRequest env now junk pkt (g, be) = Inr (g', be') \<and> sink_inv cfg g' \<and> counts_le (k + 1) g' \<and>
    g_clwbLatency g' = g_clwbLatency g"
proof -
  obtain a n pa where rd: "getAddr pkt = Inr a" "getSize pkt = Inr n" "req_getSize (pk_req pkt) = Inr n" "getPaddr (pk_req pkt) = Inr pa"
    and wr: "isWrite pkt \<Longrightarrow> n = 64 \<and> (\<exists>ds. getPtr pkt = Inr ds) \<and> (is_paddr_pm a \<longrightarrow> (\<exists>ds. line_write pkt pa ds))"
    and ow: "\<not> isWrite pkt \<Longrightarrow> isToPOC (pk_req pkt) \<longrightarrow> n = 1"
    using p unfolding back_ok_def by (auto split: if_splits)
  have "\<exists>be1. dumpTrace now pkt be = Inr be1"
    using rd wr ow by (cases "isWrite pkt") (auto simp: dumpTrace_def Let_def panic_if_def is_ok_iff split: if_splits)
  then obtain be1 where d: "dumpTrace now pkt be = Inr be1" by blast
  have k1: "counts_le (k + 1) g" using k(1) by (fastforce simp: counts_le_def)
  show ?thesis
  proof (cases "g_predictorEnabled g \<and> g_usePredictor g")
    case False
    then show ?thesis using g k1 by (auto simp: predictorHandleRequest_def)
  next
    case en: True
    let ?clwb = "isToPOC (pk_req pkt) \<and> n = 1"
    have run: "predictorHandleRequest env now junk pkt (g, be) =
        bindE (if is_paddr_pm a \<and> isWrite pkt \<and> \<not> ?clwb then handleNonVolatileWrite env now junk pkt (g, be1) else Inr (g, be1))
          (\<lambda>(g', be'). Inr (g', update_writeback now a ?clwb be'))"
      using en d rd by (simp add: predictorHandleRequest_def)
    show ?thesis
    proof (cases "is_paddr_pm a \<and> isWrite pkt \<and> \<not> ?clwb")
      case False
      then show ?thesis using g k1 by (auto simp: run)
    next
      case True
      then obtain ds where lw: "line_write pkt pa ds" using wr by blast
      have bi: "be_inv g" using g by (simp add: sink_inv_def)
      from handle_write_keeps [OF bi lw, of env now junk be1] obtain g' be' r where
        h: "handleNonVolatileWrite env now junk pkt (g, be1) = Inr (g', be')" "be_inv g'" "back_frame g g'" "settled r g g'" by blast
      have "sink_inv cfg g'" "g_clwbLatency g' = g_clwbLatency g" using g h(2,3) by (simp_all add: sink_inv_def back_frame_def)
      then show ?thesis using True h(1) counts_le_credit [OF k h(4)] by (simp add: run)
    qed
  qed
qed

section \<open>Runs\<close>

definition action_ok :: "(PC_t \<Rightarrow> nat) \<Rightarrow> MetaCfg \<Rightarrow> PAction \<Rightarrow> bool" where
  "action_ok sz cfg a = (case a of
       AtFront w pkt \<Rightarrow> world_ok w \<and> w_meta w = cfg \<and> request_ok sz pkt
     | AtBack env now junk pkt \<Rightarrow> back_ok pkt
     | WorkBegin \<Rightarrow> True | WorkEnd \<Rightarrow> True)"

fun front_ticks :: "PAction list \<Rightarrow> Tick list" where
  "front_ticks [] = []"
| "front_ticks (AtFront w pkt # acts) = w_now w # front_ticks acts"
| "front_ticks (a # acts) = front_ticks acts"

text \<open>The front end sees at most one request in a tick, and its clock starts after zero.\<close>

definition run_ok :: "(PC_t \<Rightarrow> nat) \<Rightarrow> MetaCfg \<Rightarrow> PAction list \<Rightarrow> bool" where
  "run_ok sz cfg acts = (list_all (action_ok sz cfg) acts \<and> sorted_wrt (<) (0 # front_ticks acts) \<and> length acts \<le> 2 ^ 31)"

definition fc_ok :: "FeCfg \<Rightarrow> bool" where
  "fc_ok fc = (0 < fc_CL_ACC_SIZE fc \<and> rewards_ok (fc_pt fc) \<and> 0 < pc_maxSize (fc_pt fc) \<and>
     0 < pc_pathHistorySize (fc_pt fc) \<and> pc_pathHistorySize (fc_pt fc) \<le> 64)"

definition psys_inv :: "FeCfg \<Rightarrow> (PC_t \<Rightarrow> nat) \<Rightarrow> MetaCfg \<Rightarrow> nat \<Rightarrow> Tick \<Rightarrow> PSys \<Rightarrow> bool" where
  "psys_inv fc sz cfg n prev s = (fe_inv fc sz n prev (ps_fe s) \<and> sink_inv cfg (ps_g s) \<and> counts_le n (ps_g s))"

lemma mk_Frontend_inv:
  assumes "fc_ok fc" and "0 < whbSize" and "0 < pendSize"
  shows "fe_inv fc sz 0 0 (mk_Frontend fc nm whbSize (mk_PendingTable pn pendSize env))"
proof -
  have "pt_pendingTable (mk_PendingTable pn pendSize env) = []" by (simp add: mk_PendingTable_def)
  then have "waiting (mk_PendingTable pn pendSize env) pc = []" for pc by (simp add: waiting_def)
  then show ?thesis
    using assms mk_FixedSizeQueue_inv [OF assms(2), of "nm @ ''.whb''"] mk_PredictorTable_inv [of "fc_pt fc" "nm @ ''.pred_t''"]
      mk_PendingTable_inv [OF assms(3), of pn env]
    by (simp add: fe_inv_def hist_inv_def acc_inv_def pred_inv_def table_inv_def pend_inv_def heap_inv_def addr_inv_def mk_Frontend_def
        history_ok_def fc_ok_def acc_ok_def mk_FixedSizeQueue_def mk_PredictorTable_def mk_PendingTable_def)
qed

lemma init_globals_ok:
  assumes "cfg_ok cfg"
  shows "sink_inv cfg (fst (mk_PredictorBackend env scale Globals_init))" "counts_le 0 (fst (mk_PredictorBackend env scale Globals_init))"
  using assms
  by (auto simp: mk_PredictorBackend_def Globals_init_def sink_inv_def be_inv_def learn_ok_def conf_table_ok_def pc_conf_ok_def
      tracker_ok_def um_wf_def um_find_def counts_le_def)

lemma sink_inv_switch: "sink_inv cfg (workbegin g) = sink_inv cfg g" "sink_inv cfg (workend g) = sink_inv cfg g"
  "counts_le k (workbegin g) = counts_le k g" "counts_le k (workend g) = counts_le k g"
  by (simp_all add: workbegin_def workend_def sink_inv_def be_inv_def learn_ok_def line_ok_def conf_table_ok_def pc_conf_ok_def
      tracker_ok_def counts_le_def)

lemma counts_le_Suc: "counts_le k g \<Longrightarrow> counts_le (Suc k) g"
  by (fastforce simp: counts_le_def)

lemma psys_step_keeps:
  assumes fc: "fc_ok fc" and a: "action_ok sz cfg a" and inv: "psys_inv fc sz cfg n prev s" and n: "n < 2 ^ 31"
    and t: "\<forall>t\<in>set (front_ticks [a]). prev < t"
  shows "\<exists>s'. psys_step fc a s = Inr s' \<and> psys_inv fc sz cfg (Suc n) (last (prev # front_ticks [a])) s'"
proof -
  have i: "fe_inv fc sz n prev (ps_fe s)" "sink_inv cfg (ps_g s)" "counts_le n (ps_g s)" using inv by (auto simp: psys_inv_def)
  have later: "fe_inv fc sz (Suc n) prev (ps_fe s)" by (rule fe_inv_later [OF i(1)]) simp_all
  show ?thesis
  proof (cases a)
    case (AtFront w pkt)
    then have w: "world_ok w" "w_meta w = cfg" "request_ok sz pkt" "prev < w_now w" using a t by (auto simp: action_ok_def)
    have wf: "um_wf (g_correctPredictions (ps_g s))" using i(2) by (simp add: sink_inv_def be_inv_def learn_ok_def)
    have n17: "17 * (n + 1) < 2 ^ 64" using n by simp
    have f: "0 < fc_CL_ACC_SIZE fc" "rewards_ok (fc_pt fc)" using fc by (auto simp: fc_ok_def)
    have g: "sink_inv (w_meta w) (ps_g s)" using i(2) w(2) by simp
    from request_keeps [OF w(3,1) f g counts_le_small [OF i(3) wf n] n17 w(4) i(1)] obtain g' fe' where
      r: "fe_predictorHandleRequest fc w pkt (ps_g s, ps_fe s) = Inr (g', fe')" "sink_inv cfg g'" "same_mode (ps_g s) g'"
        "fe_inv fc sz (n + 1) (w_now w) fe'" using w(2) by (auto simp: kept_def)
    have "counts_le (Suc n) g'" by (rule counts_le_mode [OF r(3) i(3)]) simp
    then show ?thesis using AtFront r by (simp add: psys_step_def psys_inv_def)
  next
    case (AtBack env now junk pkt)
    then have "back_ok pkt" using a by (simp add: action_ok_def)
    from back_request_keeps [OF this i(2,3) n, of env now junk "ps_be s"] obtain g' be' where
      "predictorHandleRequest env now junk pkt (ps_g s, ps_be s) = Inr (g', be')" "sink_inv cfg g'" "counts_le (n + 1) g'" by blast
    then show ?thesis using AtBack later by (simp add: psys_step_def psys_inv_def)
  next
    case WorkBegin
    then show ?thesis using later i by (simp add: psys_step_def psys_inv_def sink_inv_switch counts_le_Suc)
  next
    case WorkEnd
    then show ?thesis using later i by (simp add: psys_step_def psys_inv_def sink_inv_switch counts_le_Suc)
  qed
qed

lemma psys_run_keeps:
  assumes fc: "fc_ok fc" and "list_all (action_ok sz cfg) acts" and "psys_inv fc sz cfg n prev s" and "n + length acts \<le> 2 ^ 31"
    and "sorted_wrt (<) (prev # front_ticks acts)"
  shows "\<exists>s'. fold_res (psys_step fc) acts s = Inr s' \<and> psys_inv fc sz cfg (n + length acts) (last (prev # front_ticks acts)) s'"
  using assms(2-)
proof (induction acts arbitrary: n prev s)
  case Nil
  then show ?case by simp
next
  case (Cons a acts)
  let ?p = "last (prev # front_ticks [a])"
  have st: "sorted_wrt (<) (?p # front_ticks acts)" "\<forall>t\<in>set (front_ticks [a]). prev < t"
    using Cons.prems(4) by (cases a; auto)+
  have le: "?p = prev \<and> front_ticks (a # acts) = front_ticks acts \<or> front_ticks (a # acts) = ?p # front_ticks acts" by (cases a) auto
  have "\<exists>s'. psys_step fc a s = Inr s' \<and> psys_inv fc sz cfg (Suc n) ?p s'"
    by (rule psys_step_keeps [OF fc _ Cons.prems(2) _ st(2)]) (use Cons.prems in simp_all)
  then obtain s1 where s1: "psys_step fc a s = Inr s1" "psys_inv fc sz cfg (Suc n) ?p s1" by blast
  have "\<exists>s'. fold_res (psys_step fc) acts s1 = Inr s' \<and> psys_inv fc sz cfg (Suc n + length acts) (last (?p # front_ticks acts)) s'"
    by (rule Cons.IH [OF _ s1(2) _ st(1)]) (use Cons.prems in simp_all)
  then show ?case using s1(1) le by auto
qed

lemma psys_from_start:
  assumes "fc_ok fc" and "cfg_ok cfg" and "0 < whbSize" and "0 < pendSize" and "run_ok sz cfg acts"
  shows "\<exists>s'. fold_res (psys_step fc) acts (psys_init env scale fc nm whbSize pendSize) = Inr s' \<and>
    psys_inv fc sz cfg (length acts) (last (0 # front_ticks acts)) s'"
proof -
  have "psys_inv fc sz cfg 0 0 (psys_init env scale fc nm whbSize pendSize)"
    using mk_Frontend_inv [OF assms(1,3,4)] init_globals_ok [OF assms(2)] by (simp add: psys_inv_def psys_init_def)
  from psys_run_keeps [OF assms(1) _ this] assms(5) show ?thesis by (simp add: run_ok_def)
qed

section \<open>Properties\<close>

text \<open>C2: No request aborts.  From the freshly built front end and back end, every interleaving of at most
  \<open>2 ^ 31\<close> well-formed requests of the two sides with \<open>workbegin\<close> and \<open>workend\<close> runs to its end: no assertion
  or panic of the histories, the accumulator, the learning scan, the tables, the promotion, the pending
  writes, the buffer of predictions and the matching fires, and no container is read out of range.  The
  front end sees at most one request in a tick, and every instruction always stores the same number of
  chunks.\<close>

theorem system_never_aborts:
  assumes "fc_ok fc" and "cfg_ok cfg" and "0 < whbSize" and "0 < pendSize" and "run_ok sz cfg acts"
  shows "\<exists>s'. fold_res (psys_step fc) acts (psys_init env scale fc nm whbSize pendSize) = Inr s'"
  using psys_from_start [OF assms] by blast

text \<open>C3: The states are well-typed.  After every run that the system can make, the history holds complete
  writes in the order of their ticks, the accumulator holds aligned lines within its capacity, each with a
  tick of its last write, the predictor table holds entries that can be promoted, every pending chunk
  points to a live parent whose chunk waits for it and has a size that its instruction writes, the address
  predictor has seen an address as soon as anything can be promoted, the buffer of predictions holds
  non-empty queues of complete predictions of their line, and all confidences are in their ranges.\<close>

theorem system_well_formed:
  assumes "fc_ok fc" and "cfg_ok cfg" and "0 < whbSize" and "0 < pendSize" and "run_ok sz cfg acts"
    and "fold_res (psys_step fc) acts (psys_init env scale fc nm whbSize pendSize) = Inr s'"
  shows "fe_inv fc sz (length acts) (last (0 # front_ticks acts)) (ps_fe s') \<and> sink_inv cfg (ps_g s')"
  using psys_from_start [OF assms(1-5), of env scale nm] assms(6) by (auto simp: psys_inv_def)

section \<open>Examples\<close>

definition example_clwb :: "Addr_t \<Rightarrow> Packet" where
  "example_clwb va = (example_pkt va [])\<lparr>pk_cmd := CleanSharedReq, pk_size := 1,
     pk_req := (pk_req (example_pkt va []))\<lparr>rq_flags := DST_POC, rq_size := 1\<rparr>\<rparr>"

definition example_acts :: "PAction list" where
  "example_acts = [WorkBegin, AtFront (example_world 9) (example_pkt 0x10000001008 [5, 6]), AtBack (\<lambda>_. None) 10 0 (example_write 5),
     AtFront (example_world 12) (example_clwb 0x10000001000), WorkEnd]"

lemma example_run_ok: "run_ok (\<lambda>_. 2) example_cfg example_acts"
proof -
  have off: "chunk_offset 0x10000001008 = 2" by code_simp
  have p: "store_pkt (example_pkt 0x10000001008 [5, 6]) 0x400123 0x10000001008 [5, 6]"
    by (rule example_store) (simp add: off)
  have "getAddr (example_pkt 0x10000001008 [5, 6]) = Inr 0x10300001008" "length [5, 6 :: DataChunk] = 2"
    by (simp_all add: example_pkt_def packet_defs)
  then have "store_req (\<lambda>_. 2) (example_pkt 0x10000001008 [5, 6])"
    unfolding store_req_def using p by metis
  moreover have "clwb_req (example_clwb 0x10000001000)"
    by (simp add: clwb_req_def example_clwb_def example_pkt_def packet_defs is_vaddr_clwb_def isToPOC_def hasData_def isWrite_def
        testCmdAttrib_def is_vaddr_pm_def is_ok_iff)
  moreover have "back_ok (example_write 5)"
  proof -
    have "getAddr (example_write 5) = Inr 0x300001000" "getSize (example_write 5) = Inr 64" "req_getSize (pk_req (example_write 5)) = Inr 64"
      "getPaddr (pk_req (example_write 5)) = Inr 0x300001000" "isWrite (example_write 5)" "getPtr (example_write 5) = Inr (5 # replicate 15 0)"
      by (simp_all add: example_write_def example_pkt_def packet_defs isMaskedWrite_def isWrite_def testCmdAttrib_def)
    then show ?thesis using example_write_line [of 5] unfolding back_ok_def by auto
  qed
  moreover have "world_ok (example_world t)" "w_meta (example_world t) = example_cfg" "w_now (example_world t) = t" for t
    by (simp_all add: world_ok_def example_world_def)
  ultimately show ?thesis
    by (simp add: run_ok_def example_acts_def action_ok_def request_ok_def)
qed

lemma example_fc_ok: "fc_ok example_fecfg"
  by (simp add: fc_ok_def example_fecfg_def example_ptcfg_def rewards_ok_def)

theorem system_never_aborts_witness:
  "\<exists>s'. fold_res (psys_step example_fecfg) example_acts
      (psys_init (\<lambda>n. if n = ''USE_PREDICTOR'' then Some ''1'' else None) id example_fecfg ''pf'' 64 64) = Inr s'"
  by (rule system_never_aborts [OF example_fc_ok example_cfg_ok _ _ example_run_ok]) simp_all

theorem system_well_formed_witness:
  "\<exists>s'. fold_res (psys_step example_fecfg) example_acts
      (psys_init (\<lambda>n. if n = ''USE_PREDICTOR'' then Some ''1'' else None) id example_fecfg ''pf'' 64 64) = Inr s' \<and>
     fe_inv example_fecfg (\<lambda>_. 2) 5 12 (ps_fe s') \<and> sink_inv example_cfg (ps_g s')"
proof -
  let ?s = "psys_init (\<lambda>n. if n = ''USE_PREDICTOR'' then Some ''1'' else None) id example_fecfg ''pf'' 64 64"
  have z: "0 < (64 :: nat)" by simp
  from psys_from_start [OF example_fc_ok example_cfg_ok z z example_run_ok, of "\<lambda>n. if n = ''USE_PREDICTOR'' then Some ''1'' else None" id "''pf''"]
  obtain s' where r: "fold_res (psys_step example_fecfg) example_acts ?s = Inr s'" by blast
  have "length example_acts = 5" "last (0 # front_ticks example_acts) = 12" by (simp_all add: example_acts_def example_world_def)
  then show ?thesis using r system_well_formed [OF example_fc_ok example_cfg_ok z z example_run_ok r] by auto
qed

end
