(* ===== verification/Bridge.thy ===== *)
theory Bridge
  imports Backend_Matching
begin

text \<open>
  The two ports of \<open>gem5/src/mem/predictor_backend.cc\<close>: the predictor backend is a bridge that queues requests
  towards the memory controller and responses towards the processor, each for a delay, with bounded queues
  and a retry protocol.  The handlers are functions on the state of the bridge.  The peers of the two ports,
  the event queue and the passing of time are actions of the environment; a peer that is told to retry acts
  later, in an action of its own.  \<open>sendRetryReq\<close> is the last statement of the handlers that call it.
\<close>

record DeferredPacket =
  dp_tick :: Tick
  dp_pkt :: Packet

record BridgeCfg =
  bc_reqQueueLimit :: nat
  bc_respQueueLimit :: nat
  bc_delay :: "64 word"
  bc_clockPeriod :: Tick

text \<open>\<open>br_retriesSent\<close> counts the calls of \<open>sendRetryReq\<close>; an event is the tick it is scheduled for.\<close>

record Bridge =
  br_reqs :: "DeferredPacket list"
  br_reqEvent :: "Tick option"
  br_resps :: "DeferredPacket list"
  br_respEvent :: "Tick option"
  br_outstandingResponses :: nat
  br_retryReq :: bool
  br_retriesSent :: nat
  br_resultBufferCapacityEvictions :: nat

definition Bridge_init :: Bridge where
  "Bridge_init = \<lparr>br_reqs = [], br_reqEvent = None, br_resps = [], br_respEvent = None, br_outstandingResponses = 0,
     br_retryReq = False, br_retriesSent = 0, br_resultBufferCapacityEvictions = 0\<rparr>"

definition schedule_event :: "Tick \<Rightarrow> Tick \<Rightarrow> Tick option \<Rightarrow> Tick option res" where
  "schedule_event now when ev =
     bindE (assertE (when \<ge> now) ''when >= getCurTick()'') (\<lambda>_.
     bindE (assertE (ev = None) ''!event->scheduled()'') (\<lambda>_. Inr (Some when)))"

text \<open>\<open>edge\<close> is the first edge of the clock that is not before the current tick.\<close>

definition clockEdge :: "BridgeCfg \<Rightarrow> Tick \<Rightarrow> 64 word \<Rightarrow> Tick" where
  "clockEdge cfg edge cycles = edge + bc_clockPeriod cfg * cycles"

definition respQueueFull :: "BridgeCfg \<Rightarrow> Bridge \<Rightarrow> bool" where
  "respQueueFull cfg br = (br_outstandingResponses br = bc_respQueueLimit cfg)"

definition reqQueueFull :: "BridgeCfg \<Rightarrow> Bridge \<Rightarrow> bool" where
  "reqQueueFull cfg br = (length (br_reqs br) = bc_reqQueueLimit cfg)"

definition schedTimingReq :: "BridgeCfg \<Rightarrow> Tick \<Rightarrow> Packet \<Rightarrow> Tick \<Rightarrow> Bridge \<Rightarrow> Bridge res" where
  "schedTimingReq cfg now pkt when br =
     bindE (if br_reqs br = [] then schedule_event now when (br_reqEvent br) else Inr (br_reqEvent br)) (\<lambda>ev.
     bindE (assertE (length (br_reqs br) \<noteq> bc_reqQueueLimit cfg) ''transmitList.size() != reqQueueLimit'') (\<lambda>_.
     Inr (br\<lparr>br_reqEvent := ev, br_reqs := br_reqs br @ [\<lparr>dp_tick = when, dp_pkt = pkt\<rparr>]\<rparr>)))"

definition schedTimingResp :: "Tick \<Rightarrow> Packet \<Rightarrow> Tick \<Rightarrow> Bridge \<Rightarrow> Bridge res" where
  "schedTimingResp now pkt when br =
     bindE (if br_resps br = [] then schedule_event now when (br_respEvent br) else Inr (br_respEvent br)) (\<lambda>ev.
     Inr (br\<lparr>br_respEvent := ev, br_resps := br_resps br @ [\<lparr>dp_tick = when, dp_pkt = pkt\<rparr>]\<rparr>))"

definition receive_delay :: "Packet \<Rightarrow> Tick" where
  "receive_delay pkt = ucast (pk_headerDelay pkt + pk_payloadDelay pkt)"

definition reset_delays :: "Packet \<Rightarrow> Packet" where
  "reset_delays pkt = pkt\<lparr>pk_headerDelay := 0, pk_payloadDelay := 0\<rparr>"

definition is_metadata :: "Packet \<Rightarrow> bool" where
  "is_metadata pkt = (pk_isCounterPacket pkt \<or> pk_isVerificationCacheEviction pkt \<or> pk_isCounterCacheEviction pkt \<or>
     pk_isVerificationPacket pkt)"

text \<open>The part of the handler after the predictor has seen the request.\<close>

definition accept_req :: "BridgeCfg \<Rightarrow> Tick \<Rightarrow> Tick \<Rightarrow> Packet \<Rightarrow> Bridge \<Rightarrow> (bool \<times> Bridge) res" where
  "accept_req cfg now edge pkt br =
     (if br_retryReq br then Inr (False, br)
      else if reqQueueFull cfg br then Inr (False, br\<lparr>br_retryReq := True\<rparr>)
      else let br1 = (if \<not> needsResponse pkt then br
                      else if respQueueFull cfg br then br\<lparr>br_retryReq := True\<rparr>
                      else br\<lparr>br_outstandingResponses := br_outstandingResponses br + 1\<rparr>) in
        bindE (if br_retryReq br1 then Inr br1
               else schedTimingReq cfg now (reset_delays pkt) (clockEdge cfg edge (bc_delay cfg) + receive_delay pkt) br1) (\<lambda>br2.
        Inr (\<not> br_retryReq br2, br2)))"

definition recvTimingReq :: "BridgeCfg \<Rightarrow> environ \<Rightarrow> Tick \<Rightarrow> Tick \<Rightarrow> hash_t \<Rightarrow> Packet \<Rightarrow> (Globals \<times> Backend) \<times> Bridge \<Rightarrow>
    (bool \<times> (Globals \<times> Backend) \<times> Bridge) res" where
  "recvTimingReq cfg env now edge junk pkt s =
     (if is_metadata pkt then Inr (False, s)
      else let br = (snd s)\<lparr>br_resultBufferCapacityEvictions := unat (g_capacityEvictionStatic (fst (fst s)))\<rparr> in
        bindE (predictorHandleRequest env now junk pkt (fst s)) (\<lambda>gs.
        bindE (panic_if (cacheResponding pkt) ''Should not see packets where cache is responding'') (\<lambda>_.
        bindE (accept_req cfg now edge pkt br) (\<lambda>(b, br'). Inr (b, gs, br')))))"

definition recvTimingResp :: "BridgeCfg \<Rightarrow> Tick \<Rightarrow> Tick \<Rightarrow> Packet \<Rightarrow> Bridge \<Rightarrow> Bridge res" where
  "recvTimingResp cfg now edge pkt br =
     schedTimingResp now (reset_delays pkt) (clockEdge cfg edge (bc_delay cfg) + receive_delay pkt) br"

definition retryStalledReq :: "Bridge \<Rightarrow> Bridge" where
  "retryStalledReq br = (if br_retryReq br then br\<lparr>br_retryReq := False, br_retriesSent := br_retriesSent br + 1\<rparr> else br)"

text \<open>\<open>ok\<close> is the answer of the peer to the packet.\<close>

definition req_trySendTiming :: "BridgeCfg \<Rightarrow> Tick \<Rightarrow> Tick \<Rightarrow> bool \<Rightarrow> Bridge \<Rightarrow> Bridge res" where
  "req_trySendTiming cfg now edge ok br = (case br_reqs br of
     [] \<Rightarrow> Inl (Assert_Fail ''!transmitList.empty()'')
   | req # rest \<Rightarrow>
       bindE (assertE (dp_tick req \<le> now) ''req.tick <= curTick()'') (\<lambda>_.
       if \<not> ok then Inr br
       else bindE (case rest of
              [] \<Rightarrow> Inr (br_reqEvent br)
            | next # _ \<Rightarrow> schedule_event now (max (dp_tick next) (clockEdge cfg edge 0)) (br_reqEvent br)) (\<lambda>ev.
            Inr (retryStalledReq (br\<lparr>br_reqs := rest, br_reqEvent := ev\<rparr>)))))"

definition resp_trySendTiming :: "BridgeCfg \<Rightarrow> Tick \<Rightarrow> Tick \<Rightarrow> bool \<Rightarrow> Bridge \<Rightarrow> Bridge res" where
  "resp_trySendTiming cfg now edge ok br = (case br_resps br of
     [] \<Rightarrow> Inl (Assert_Fail ''!transmitList.empty()'')
   | resp # rest \<Rightarrow>
       bindE (assertE (dp_tick resp \<le> now) ''resp.tick <= curTick()'') (\<lambda>_.
       if \<not> ok then Inr br
       else bindE (assertE (br_outstandingResponses br \<noteq> 0) ''outstandingResponses != 0'') (\<lambda>_.
            bindE (case rest of
              [] \<Rightarrow> Inr (br_respEvent br)
            | next # _ \<Rightarrow> schedule_event now (max (dp_tick next) (clockEdge cfg edge 0)) (br_respEvent br)) (\<lambda>ev.
            let br1 = br\<lparr>br_resps := rest, br_respEvent := ev, br_outstandingResponses := br_outstandingResponses br - 1\<rparr> in
            Inr (if \<not> reqQueueFull cfg br1 then retryStalledReq br1 else br1)))))"

text \<open>\<open>peer\<close> is the latency that the memory's side answers.\<close>

definition recvAtomic :: "BridgeCfg \<Rightarrow> (Packet \<Rightarrow> Tick) \<Rightarrow> Packet \<Rightarrow> Tick res" where
  "recvAtomic cfg peer pkt =
     (if is_metadata pkt then Inr (bc_delay cfg * bc_clockPeriod cfg + peer pkt)
      else bindE (panic_if (cacheResponding pkt) ''Should not see packets where cache is responding'') (\<lambda>_.
           Inr (bc_delay cfg * bc_clockPeriod cfg + peer pkt)))"

section \<open>A bridge between its peers\<close>

text \<open>The front end and the back end are bridges with the same queues.  A \<open>Ports\<close> value holds the handlers of one
  of them, on the state \<open>'p\<close> of its predictor, and what it asks of the requests and responses it is given;
  \<open>'q\<close> and \<open>'r\<close> are the further arguments of the handlers.\<close>

record ('p, 'q, 'r) Ports =
  po_recvReq :: "'q \<Rightarrow> Tick \<Rightarrow> Tick \<Rightarrow> Packet \<Rightarrow> 'p \<times> Bridge \<Rightarrow> (bool \<times> 'p \<times> Bridge) res"
  po_recvResp :: "'r \<Rightarrow> Tick \<Rightarrow> Tick \<Rightarrow> Packet \<Rightarrow> 'p \<times> Bridge \<Rightarrow> ('p \<times> Bridge) res"
  po_sendReq :: "Tick \<Rightarrow> Tick \<Rightarrow> bool \<Rightarrow> Bridge \<Rightarrow> Bridge res"
  po_sendResp :: "Tick \<Rightarrow> Tick \<Rightarrow> bool \<Rightarrow> Bridge \<Rightarrow> Bridge res"
  po_reqOk :: "'q \<Rightarrow> Tick \<Rightarrow> Tick \<Rightarrow> Packet \<Rightarrow> 'p \<Rightarrow> bool"
  po_respOk :: "'r \<Rightarrow> Tick \<Rightarrow> Tick \<Rightarrow> Packet \<Rightarrow> 'p \<Rightarrow> bool"

text \<open>The environment: a request of the processor's side, a response of the memory's side, the two send
  events, and the retries of a peer that has refused a packet before.\<close>

datatype ('q, 'r) Action =
    RecvReq 'q Tick Tick Packet
  | RecvResp 'r Tick Tick Packet
  | FireReq Tick bool
  | RetryReq Tick Tick bool
  | FireResp Tick bool
  | RetryResp Tick Tick bool

text \<open>\<open>sy_inflight\<close> counts the requests at the memory's side that will be answered; a blocked side has been
  refused and waits for a retry; the lists record what was accepted and what was passed on.\<close>

record 'p Sys =
  sy_now :: Tick
  sy_gs :: 'p
  sy_br :: Bridge
  sy_inflight :: nat
  sy_reqBlocked :: bool
  sy_respBlocked :: bool
  sy_accepted :: "Packet list"
  sy_forwarded :: "Packet list"
  sy_received :: "Packet list"
  sy_answered :: "Packet list"

definition Sys_init :: "'p \<Rightarrow> 'p Sys" where
  "Sys_init gs = \<lparr>sy_now = 0, sy_gs = gs, sy_br = Bridge_init, sy_inflight = 0, sy_reqBlocked = False, sy_respBlocked = False,
     sy_accepted = [], sy_forwarded = [], sy_received = [], sy_answered = []\<rparr>"

definition send_req :: "(Tick \<Rightarrow> Tick \<Rightarrow> bool \<Rightarrow> Bridge \<Rightarrow> Bridge res) \<Rightarrow> Tick \<Rightarrow> Tick \<Rightarrow> bool \<Rightarrow> Bridge \<Rightarrow> 'p Sys \<Rightarrow> 'p Sys res" where
  "send_req send now edge ok br s =
     bindE (send now edge ok br) (\<lambda>br'.
     let p = dp_pkt (hd (br_reqs br)) in
     Inr (if ok then s\<lparr>sy_now := now, sy_br := br', sy_reqBlocked := False, sy_forwarded := sy_forwarded s @ [p],
                       sy_inflight := sy_inflight s + (if needsResponse p then 1 else 0)\<rparr>
          else s\<lparr>sy_now := now, sy_br := br', sy_reqBlocked := True\<rparr>))"

definition send_resp :: "(Tick \<Rightarrow> Tick \<Rightarrow> bool \<Rightarrow> Bridge \<Rightarrow> Bridge res) \<Rightarrow> Tick \<Rightarrow> Tick \<Rightarrow> bool \<Rightarrow> Bridge \<Rightarrow> 'p Sys \<Rightarrow> 'p Sys res" where
  "send_resp send now edge ok br s =
     bindE (send now edge ok br) (\<lambda>br'.
     Inr (if ok then s\<lparr>sy_now := now, sy_br := br', sy_respBlocked := False, sy_answered := sy_answered s @ [dp_pkt (hd (br_resps br))]\<rparr>
          else s\<lparr>sy_now := now, sy_br := br', sy_respBlocked := True\<rparr>))"

text \<open>An event that fires is no longer scheduled when its handler runs.\<close>

fun port_step :: "('p, 'q, 'r) Ports \<Rightarrow> ('q, 'r) Action \<Rightarrow> 'p Sys \<Rightarrow> 'p Sys res" where
  "port_step P (RecvReq x now edge pkt) s =
     bindE (po_recvReq P x now edge pkt (sy_gs s, sy_br s)) (\<lambda>(b, gs, br).
     Inr (s\<lparr>sy_now := now, sy_gs := gs, sy_br := br,
            sy_accepted := (if b then sy_accepted s @ [reset_delays pkt] else sy_accepted s)\<rparr>))"
| "port_step P (RecvResp y now edge pkt) s =
     bindE (po_recvResp P y now edge pkt (sy_gs s, sy_br s)) (\<lambda>(gs, br).
     Inr (s\<lparr>sy_now := now, sy_gs := gs, sy_br := br, sy_inflight := sy_inflight s - 1, sy_received := sy_received s @ [reset_delays pkt]\<rparr>))"
| "port_step P (FireReq edge ok) s = (case br_reqEvent (sy_br s) of
     None \<Rightarrow> Inr s | Some t \<Rightarrow> send_req (po_sendReq P) t edge ok ((sy_br s)\<lparr>br_reqEvent := None\<rparr>) s)"
| "port_step P (RetryReq now edge ok) s = send_req (po_sendReq P) now edge ok (sy_br s) s"
| "port_step P (FireResp edge ok) s = (case br_respEvent (sy_br s) of
     None \<Rightarrow> Inr s | Some t \<Rightarrow> send_resp (po_sendResp P) t edge ok ((sy_br s)\<lparr>br_respEvent := None\<rparr>) s)"
| "port_step P (RetryResp now edge ok) s = send_resp (po_sendResp P) now edge ok (sy_br s) s"

text \<open>Time passes and no scheduled event is skipped.\<close>

definition may_pass :: "Tick \<Rightarrow> 'p Sys \<Rightarrow> bool" where
  "may_pass now s = (sy_now s \<le> now \<and> pred_option (\<lambda>t. now \<le> t) (br_reqEvent (sy_br s)) \<and>
     pred_option (\<lambda>t. now \<le> t) (br_respEvent (sy_br s)))"

text \<open>What the environment may do: the clock does not wrap, the memory's side answers only what it owes, and
  a peer retries only after it has refused.\<close>

fun port_enabled :: "('p, 'q, 'r) Ports \<Rightarrow> ('q, 'r) Action \<Rightarrow> 'p Sys \<Rightarrow> bool" where
  "port_enabled P (RecvReq x now edge pkt) s = (may_pass now s \<and> po_reqOk P x now edge pkt (sy_gs s))"
| "port_enabled P (RecvResp y now edge pkt) s = (may_pass now s \<and> po_respOk P y now edge pkt (sy_gs s) \<and> 0 < sy_inflight s)"
| "port_enabled P (FireReq edge ok) s = (case br_reqEvent (sy_br s) of None \<Rightarrow> False | Some t \<Rightarrow> may_pass t s \<and> t \<le> edge)"
| "port_enabled P (RetryReq now edge ok) s = (may_pass now s \<and> now \<le> edge \<and> sy_reqBlocked s)"
| "port_enabled P (FireResp edge ok) s = (case br_respEvent (sy_br s) of None \<Rightarrow> False | Some t \<Rightarrow> may_pass t s \<and> t \<le> edge)"
| "port_enabled P (RetryResp now edge ok) s = (may_pass now s \<and> now \<le> edge \<and> sy_respBlocked s)"

inductive port_reach :: "('p, 'q, 'r) Ports \<Rightarrow> 'p Sys \<Rightarrow> 'p Sys \<Rightarrow> bool" for P where
  refl: "port_reach P s s"
| step: "port_reach P s t \<Longrightarrow> port_enabled P a t \<Longrightarrow> port_step P a t = Inr u \<Longrightarrow> port_reach P s u"

text \<open>The ports of the back end.  Its predictor may only be given requests it can handle.\<close>

definition back_ports :: "BridgeCfg \<Rightarrow> (Globals \<times> Backend, environ \<times> hash_t, unit) Ports" where
  "back_ports cfg = \<lparr>
     po_recvReq = (\<lambda>(env, junk) now edge pkt. recvTimingReq cfg env now edge junk pkt),
     po_recvResp = (\<lambda>_ now edge pkt (gs, br). bindE (recvTimingResp cfg now edge pkt br) (\<lambda>br'. Inr (gs, br'))),
     po_sendReq = req_trySendTiming cfg, po_sendResp = resp_trySendTiming cfg,
     po_reqOk = (\<lambda>(env, junk) now edge pkt gs. now \<le> clockEdge cfg edge (bc_delay cfg) + receive_delay pkt \<and>
        \<not> cacheResponding pkt \<and> is_ok (predictorHandleRequest env now junk pkt gs)),
     po_respOk = (\<lambda>_ now edge pkt _. now \<le> clockEdge cfg edge (bc_delay cfg) + receive_delay pkt)\<rparr>"

abbreviation sys_step :: "BridgeCfg \<Rightarrow> (environ \<times> hash_t, unit) Action \<Rightarrow> (Globals \<times> Backend) Sys \<Rightarrow> (Globals \<times> Backend) Sys res" where
  "sys_step cfg \<equiv> port_step (back_ports cfg)"

abbreviation enabled :: "BridgeCfg \<Rightarrow> (environ \<times> hash_t, unit) Action \<Rightarrow> (Globals \<times> Backend) Sys \<Rightarrow> bool" where
  "enabled cfg \<equiv> port_enabled (back_ports cfg)"

abbreviation reach :: "BridgeCfg \<Rightarrow> (Globals \<times> Backend) Sys \<Rightarrow> (Globals \<times> Backend) Sys \<Rightarrow> bool" where
  "reach cfg \<equiv> port_reach (back_ports cfg)"

section \<open>One direction of the bridge\<close>

text \<open>A queue with packets has its send event scheduled, not before the head is due, or is blocked by its peer.\<close>

definition side_ok :: "Tick \<Rightarrow> DeferredPacket list \<Rightarrow> Tick option \<Rightarrow> bool \<Rightarrow> bool" where
  "side_ok now q ev blocked = (case q of
     [] \<Rightarrow> ev = None \<and> \<not> blocked
   | x # _ \<Rightarrow> (case ev of Some t \<Rightarrow> \<not> blocked \<and> dp_tick x \<le> t \<and> now \<le> t | None \<Rightarrow> blocked \<and> dp_tick x \<le> now))"

lemma side_advance:
  "side_ok t q ev b \<Longrightarrow> t \<le> now \<Longrightarrow> pred_option (\<lambda>t. now \<le> t) ev \<Longrightarrow> side_ok now q ev b"
  by (auto simp: side_ok_def split: list.splits option.splits)

lemma side_push:
  assumes "side_ok now q ev b" and "now \<le> dp_tick x"
  shows "\<exists>ev'. (if q = [] then schedule_event now (dp_tick x) ev else Inr ev) = Inr ev' \<and> side_ok now (q @ [x]) ev' b"
  using assms by (cases q) (auto simp: side_ok_def schedule_event_def)

lemma side_pop:
  assumes "now \<le> edge"
  shows "\<exists>ev'. (case rest of [] \<Rightarrow> Inr None | n # _ \<Rightarrow> schedule_event now (max (dp_tick n) (clockEdge cfg edge 0)) None) = Inr ev' \<and>
    side_ok now rest ev' False"
  using assms by (cases rest) (auto simp: side_ok_def schedule_event_def clockEdge_def le_max_iff_disj)

lemma side_head:
  assumes "side_ok now q ev b" and "b \<or> ev = Some now"
  shows "\<exists>x rest. q = x # rest \<and> dp_tick x \<le> now"
  using assms by (cases q) (auto simp: side_ok_def split: option.splits)

lemma side_refused: "side_ok now (x # rest) ev b \<Longrightarrow> dp_tick x \<le> now \<Longrightarrow> side_ok now (x # rest) None True"
  by (auto simp: side_ok_def)

section \<open>The invariant\<close>

definition owed :: "'p Sys \<Rightarrow> nat" where
  "owed s = length (filter (\<lambda>x. needsResponse (dp_pkt x)) (br_reqs (sy_br s))) + sy_inflight s + length (br_resps (sy_br s))"

definition sys_inv :: "BridgeCfg \<Rightarrow> 'p Sys \<Rightarrow> bool" where
  "sys_inv cfg s = (
     side_ok (sy_now s) (br_reqs (sy_br s)) (br_reqEvent (sy_br s)) (sy_reqBlocked s) \<and>
     side_ok (sy_now s) (br_resps (sy_br s)) (br_respEvent (sy_br s)) (sy_respBlocked s) \<and>
     length (br_reqs (sy_br s)) \<le> bc_reqQueueLimit cfg \<and>
     br_outstandingResponses (sy_br s) \<le> bc_respQueueLimit cfg \<and>
     br_outstandingResponses (sy_br s) = owed s \<and>
     (br_retryReq (sy_br s) \<longrightarrow> br_reqs (sy_br s) \<noteq> [] \<or> 0 < br_outstandingResponses (sy_br s)) \<and>
     sy_accepted s = sy_forwarded s @ map dp_pkt (br_reqs (sy_br s)) \<and>
     sy_received s = sy_answered s @ map dp_pkt (br_resps (sy_br s)))"

definition cfg_pos :: "BridgeCfg \<Rightarrow> bool" where
  "cfg_pos cfg = (0 < bc_reqQueueLimit cfg \<and> 0 < bc_respQueueLimit cfg)"

lemma needsResponse_reset [simp]: "needsResponse (reset_delays pkt) = needsResponse pkt"
  by (simp add: needsResponse_def reset_delays_def)

lemma accept_req_ok:
  assumes side: "side_ok now (br_reqs br) (br_reqEvent br) b" and w: "now \<le> clockEdge cfg edge (bc_delay cfg) + receive_delay pkt"
    and len: "length (br_reqs br) \<le> bc_reqQueueLimit cfg"
  shows "(accept_req cfg now edge pkt br = Inr (False, br\<lparr>br_retryReq := True\<rparr>) \<and>
      (br_retryReq br \<or> reqQueueFull cfg br \<or> respQueueFull cfg br)) \<or>
    (\<exists>ev x. accept_req cfg now edge pkt br = Inr (True, br\<lparr>br_reqEvent := ev, br_reqs := br_reqs br @ [x],
        br_outstandingResponses := br_outstandingResponses br + (if needsResponse pkt then 1 else 0)\<rparr>) \<and>
      \<not> br_retryReq br \<and> dp_pkt x = reset_delays pkt \<and> length (br_reqs br) < bc_reqQueueLimit cfg \<and>
      (needsResponse pkt \<longrightarrow> br_outstandingResponses br \<noteq> bc_respQueueLimit cfg) \<and> side_ok now (br_reqs br @ [x]) ev b)"
proof (cases "br_retryReq br \<or> reqQueueFull cfg br \<or> needsResponse pkt \<and> respQueueFull cfg br")
  case True
  then show ?thesis by (auto simp: accept_req_def Let_def)
next
  case False
  let ?x = "\<lparr>dp_tick = clockEdge cfg edge (bc_delay cfg) + receive_delay pkt, dp_pkt = reset_delays pkt\<rparr>"
  from side_push [OF side, of ?x] w obtain ev where
    ev: "(if br_reqs br = [] then schedule_event now (dp_tick ?x) (br_reqEvent br) else Inr (br_reqEvent br)) = Inr ev"
      "side_ok now (br_reqs br @ [?x]) ev b" by auto
  have "length (br_reqs br) < bc_reqQueueLimit cfg" using False len by (simp add: reqQueueFull_def)
  then have "accept_req cfg now edge pkt br = Inr (True, br\<lparr>br_reqEvent := ev, br_reqs := br_reqs br @ [?x],
        br_outstandingResponses := br_outstandingResponses br + (if needsResponse pkt then 1 else 0)\<rparr>)"
    using False ev(1) by (cases "br_reqs br = []"; cases "needsResponse pkt") (simp_all add: accept_req_def Let_def schedTimingReq_def)
  then show ?thesis using False ev(2) len
    by (intro disjI2 exI [of _ ev] exI [of _ ?x]) (auto simp: reqQueueFull_def respQueueFull_def)
qed

lemma may_pass_sides:
  assumes "sys_inv cfg s" and "may_pass now s"
  shows "side_ok now (br_reqs (sy_br s)) (br_reqEvent (sy_br s)) (sy_reqBlocked s)"
    "side_ok now (br_resps (sy_br s)) (br_respEvent (sy_br s)) (sy_respBlocked s)"
  using assms side_advance unfolding sys_inv_def may_pass_def by blast+

lemma send_req_ok:
  assumes inv: "sys_inv cfg s" and sides: "side_ok now (br_reqs (sy_br s)) (br_reqEvent (sy_br s)) (sy_reqBlocked s)"
      "side_ok now (br_resps (sy_br s)) (br_respEvent (sy_br s)) (sy_respBlocked s)"
    and due: "sy_reqBlocked s \<or> br_reqEvent (sy_br s) = Some now" and edge: "now \<le> edge"
  shows "\<exists>t. send_req (req_trySendTiming cfg) now edge ok ((sy_br s)\<lparr>br_reqEvent := None\<rparr>) s = Inr t \<and> sys_inv cfg t \<and>
    (ok \<longrightarrow> br_retriesSent (sy_br t) = br_retriesSent (sy_br s) + (if br_retryReq (sy_br s) then 1 else 0))"
proof -
  let ?br = "(sy_br s)\<lparr>br_reqEvent := None\<rparr>"
  from side_head [OF sides(1) due] obtain x rest where x: "br_reqs (sy_br s) = x # rest" "dp_tick x \<le> now" by blast
  from side_pop [OF edge, of cfg rest] obtain ev where
    ev: "(case rest of [] \<Rightarrow> Inr None | n # _ \<Rightarrow> schedule_event now (max (dp_tick n) (clockEdge cfg edge 0)) None) = Inr ev"
      "side_ok now rest ev False" by blast
  show ?thesis
  proof (cases ok)
    case True
    then have "req_trySendTiming cfg now edge ok ?br = Inr (retryStalledReq (?br\<lparr>br_reqs := rest, br_reqEvent := ev\<rparr>))"
      using x ev(1) by (cases rest) (simp_all add: req_trySendTiming_def)
    then show ?thesis using True x ev(2) sides(2) inv
      by (auto simp: send_req_def sys_inv_def owed_def retryStalledReq_def Let_def)
  next
    case False
    then have "req_trySendTiming cfg now edge ok ?br = Inr ?br" using x by (simp add: req_trySendTiming_def)
    then show ?thesis using False x sides(2) inv side_refused [OF sides(1) [unfolded x(1)] x(2)]
      by (auto simp: send_req_def sys_inv_def owed_def Let_def)
  qed
qed

lemma send_resp_ok:
  assumes inv: "sys_inv cfg s" and sides: "side_ok now (br_reqs (sy_br s)) (br_reqEvent (sy_br s)) (sy_reqBlocked s)"
      "side_ok now (br_resps (sy_br s)) (br_respEvent (sy_br s)) (sy_respBlocked s)"
    and due: "sy_respBlocked s \<or> br_respEvent (sy_br s) = Some now" and edge: "now \<le> edge" and pos: "cfg_pos cfg"
  shows "\<exists>t. send_resp (resp_trySendTiming cfg) now edge ok ((sy_br s)\<lparr>br_respEvent := None\<rparr>) s = Inr t \<and> sys_inv cfg t \<and>
    (ok \<and> br_retryReq (sy_br s) \<and> br_reqs (sy_br s) = [] \<longrightarrow> br_retriesSent (sy_br t) = br_retriesSent (sy_br s) + 1)"
proof -
  let ?br = "(sy_br s)\<lparr>br_respEvent := None\<rparr>"
  from side_head [OF sides(2) due] obtain x rest where x: "br_resps (sy_br s) = x # rest" "dp_tick x \<le> now" by blast
  from side_pop [OF edge, of cfg rest] obtain ev where
    ev: "(case rest of [] \<Rightarrow> Inr None | n # _ \<Rightarrow> schedule_event now (max (dp_tick n) (clockEdge cfg edge 0)) None) = Inr ev"
      "side_ok now rest ev False" by blast
  have n: "br_outstandingResponses (sy_br s) \<noteq> 0" using inv x(1) by (simp add: sys_inv_def owed_def)
  show ?thesis
  proof (cases ok)
    case True
    let ?b1 = "?br\<lparr>br_resps := rest, br_respEvent := ev, br_outstandingResponses := br_outstandingResponses (sy_br s) - 1\<rparr>"
    have "resp_trySendTiming cfg now edge ok ?br = Inr (if \<not> reqQueueFull cfg ?b1 then retryStalledReq ?b1 else ?b1)"
      using True x ev(1) n by (cases rest) (simp_all add: resp_trySendTiming_def Let_def)
    then show ?thesis using True x ev(2) sides(1) inv n pos
      by (auto simp: send_resp_def sys_inv_def owed_def retryStalledReq_def reqQueueFull_def cfg_pos_def)
  next
    case False
    then have "resp_trySendTiming cfg now edge ok ?br = Inr ?br" using x by (simp add: resp_trySendTiming_def)
    then show ?thesis using False x sides(1) inv side_refused [OF sides(2) [unfolded x(1)] x(2)]
      by (auto simp: send_resp_def sys_inv_def owed_def)
  qed
qed

lemma blocked_event: "side_ok now q ev True \<Longrightarrow> ev = None"
  by (auto simp: side_ok_def split: list.splits option.splits)

lemma init_inv: "sys_inv cfg (Sys_init gs)"
  by (simp add: sys_inv_def Sys_init_def Bridge_init_def side_ok_def owed_def)

section \<open>What makes a bridge\<close>

text \<open>A handler of requests either refuses and leaves the queues alone or goes on to accept or stall the
  request; a handler of responses queues them for some later time.\<close>

locale bridge_ports =
  fixes P :: "('p, 'q, 'r) Ports" and cfg :: BridgeCfg
  assumes req_law: "po_reqOk P x now edge pkt p \<Longrightarrow> now \<le> clockEdge cfg edge (bc_delay cfg) + receive_delay pkt \<and>
      (\<exists>p'. po_recvReq P x now edge pkt (p, br) = Inr (False, p', br) \<or>
        (\<exists>n. po_recvReq P x now edge pkt (p, br) =
           bindE (accept_req cfg now edge pkt (br\<lparr>br_resultBufferCapacityEvictions := n\<rparr>)) (\<lambda>(b, br'). Inr (b, p', br'))))"
    and resp_law: "po_respOk P y now edge pkt p \<Longrightarrow> \<exists>p' when. now \<le> when \<and>
      po_recvResp P y now edge pkt (p, br) = bindE (schedTimingResp now (reset_delays pkt) when br) (\<lambda>br'. Inr (p', br'))"
    and send_req_law: "po_sendReq P = req_trySendTiming cfg" and send_resp_law: "po_sendResp P = resp_trySendTiming cfg"
begin

lemma recv_req_ok:
  assumes inv: "sys_inv cfg s" and en: "port_enabled P (RecvReq x now edge pkt) s" and pos: "cfg_pos cfg"
  shows "\<exists>t. port_step P (RecvReq x now edge pkt) s = Inr t \<and> sys_inv cfg t"
proof -
  have ok: "po_reqOk P x now edge pkt (sy_gs s)" and mp: "may_pass now s" using en by simp_all
  from req_law [OF ok, of "sy_br s"] obtain p' n where w: "now \<le> clockEdge cfg edge (bc_delay cfg) + receive_delay pkt"
    and r: "po_recvReq P x now edge pkt (sy_gs s, sy_br s) = Inr (False, p', sy_br s) \<or>
      po_recvReq P x now edge pkt (sy_gs s, sy_br s) =
        bindE (accept_req cfg now edge pkt ((sy_br s)\<lparr>br_resultBufferCapacityEvictions := n\<rparr>)) (\<lambda>(b, br'). Inr (b, p', br'))" by blast
  note sides0 = may_pass_sides [OF inv mp]
  from r show ?thesis
  proof
    assume "po_recvReq P x now edge pkt (sy_gs s, sy_br s) = Inr (False, p', sy_br s)"
    then show ?thesis using sides0 inv by (auto simp: sys_inv_def owed_def)
  next
    let ?br = "(sy_br s)\<lparr>br_resultBufferCapacityEvictions := n\<rparr>"
    assume run: "po_recvReq P x now edge pkt (sy_gs s, sy_br s) = bindE (accept_req cfg now edge pkt ?br) (\<lambda>(b, br'). Inr (b, p', br'))"
    have sides: "side_ok now (br_reqs ?br) (br_reqEvent ?br) (sy_reqBlocked s)"
      "side_ok now (br_resps ?br) (br_respEvent ?br) (sy_respBlocked s)" using sides0 by simp_all
    have step: "port_step P (RecvReq x now edge pkt) s = bindE (accept_req cfg now edge pkt ?br) (\<lambda>(b, br).
        Inr (s\<lparr>sy_now := now, sy_gs := p', sy_br := br, sy_accepted := (if b then sy_accepted s @ [reset_delays pkt] else sy_accepted s)\<rparr>))"
      using run by (cases "accept_req cfg now edge pkt ?br") (auto split: prod.splits)
    have len: "length (br_reqs ?br) \<le> bc_reqQueueLimit cfg" using inv by (simp add: sys_inv_def)
    from accept_req_ok [OF sides(1) w len] consider
        (stall) "accept_req cfg now edge pkt ?br = Inr (False, ?br\<lparr>br_retryReq := True\<rparr>)"
          "br_retryReq ?br \<or> reqQueueFull cfg ?br \<or> respQueueFull cfg ?br"
      | (pass) ev x where "accept_req cfg now edge pkt ?br = Inr (True, ?br\<lparr>br_reqEvent := ev, br_reqs := br_reqs ?br @ [x],
            br_outstandingResponses := br_outstandingResponses ?br + (if needsResponse pkt then 1 else 0)\<rparr>)"
          "\<not> br_retryReq ?br" "dp_pkt x = reset_delays pkt" "length (br_reqs ?br) < bc_reqQueueLimit cfg"
          "needsResponse pkt \<longrightarrow> br_outstandingResponses ?br \<noteq> bc_respQueueLimit cfg" "side_ok now (br_reqs ?br @ [x]) ev (sy_reqBlocked s)"
      by blast
    then show ?thesis
    proof cases
      case stall
      then have "br_reqs (sy_br s) \<noteq> [] \<or> 0 < br_outstandingResponses (sy_br s)"
        using pos inv by (auto simp: cfg_pos_def reqQueueFull_def respQueueFull_def sys_inv_def)
      then show ?thesis unfolding step stall(1) using sides inv by (auto simp: sys_inv_def owed_def)
    next
      case pass
      then show ?thesis unfolding step pass(1) using sides(2) inv by (auto simp: sys_inv_def owed_def)
    qed
  qed
qed

lemma recv_resp_ok:
  assumes inv: "sys_inv cfg s" and en: "port_enabled P (RecvResp y now edge pkt) s"
  shows "\<exists>t. port_step P (RecvResp y now edge pkt) s = Inr t \<and> sys_inv cfg t"
proof -
  let ?br = "sy_br s"
  have ok: "po_respOk P y now edge pkt (sy_gs s)" and mp: "may_pass now s" and fl: "0 < sy_inflight s" using en by simp_all
  from resp_law [OF ok, of ?br] obtain p' tk where w: "now \<le> tk"
    and run: "po_recvResp P y now edge pkt (sy_gs s, ?br) = bindE (schedTimingResp now (reset_delays pkt) tk ?br) (\<lambda>br'. Inr (p', br'))" by blast
  let ?x = "\<lparr>dp_tick = tk, dp_pkt = reset_delays pkt\<rparr>"
  note sides = may_pass_sides [OF inv mp]
  from side_push [OF sides(2), of ?x] w obtain ev where
    ev: "(if br_resps ?br = [] then schedule_event now (dp_tick ?x) (br_respEvent ?br) else Inr (br_respEvent ?br)) = Inr ev"
      "side_ok now (br_resps ?br @ [?x]) ev (sy_respBlocked s)" by auto
  have "schedTimingResp now (reset_delays pkt) tk ?br = Inr (?br\<lparr>br_respEvent := ev, br_resps := br_resps ?br @ [?x]\<rparr>)"
    using ev(1) by (cases "br_resps ?br = []") (simp_all add: schedTimingResp_def)
  then show ?thesis using run sides(1) ev(2) inv fl by (simp add: sys_inv_def owed_def)
qed

lemma step_ok:
  assumes inv: "sys_inv cfg s" and en: "port_enabled P a s" and pos: "cfg_pos cfg"
  shows "\<exists>t. port_step P a s = Inr t \<and> sys_inv cfg t"
proof (cases a)
  case (RecvReq x now edge pkt)
  then show ?thesis using recv_req_ok [OF inv _ pos] en by blast
next
  case (RecvResp y now edge pkt)
  then show ?thesis using recv_resp_ok [OF inv] en by blast
next
  case (FireReq edge ok)
  then obtain t where t: "br_reqEvent (sy_br s) = Some t" "may_pass t s" "t \<le> edge" using en by (auto split: option.splits)
  show ?thesis using send_req_law send_req_ok [OF inv may_pass_sides [OF inv t(2)] _ t(3), of ok] t(1) FireReq by auto
next
  case (RetryReq now edge ok)
  then have t: "may_pass now s" "now \<le> edge" "sy_reqBlocked s" using en by simp_all
  note sides = may_pass_sides [OF inv t(1)]
  have "br_reqEvent (sy_br s) = None" using blocked_event sides(1) t(3) by simp
  then have "(sy_br s)\<lparr>br_reqEvent := None\<rparr> = sy_br s" by (cases "sy_br s") simp
  then show ?thesis using send_req_law send_req_ok [OF inv sides _ t(2), of ok] t(3) RetryReq by auto
next
  case (FireResp edge ok)
  then obtain t where t: "br_respEvent (sy_br s) = Some t" "may_pass t s" "t \<le> edge" using en by (auto split: option.splits)
  show ?thesis using send_resp_law send_resp_ok [OF inv may_pass_sides [OF inv t(2)] _ t(3) pos, of ok] t(1) FireResp by auto
next
  case (RetryResp now edge ok)
  then have t: "may_pass now s" "now \<le> edge" "sy_respBlocked s" using en by simp_all
  note sides = may_pass_sides [OF inv t(1)]
  have "br_respEvent (sy_br s) = None" using blocked_event sides(2) t(3) by simp
  then have "(sy_br s)\<lparr>br_respEvent := None\<rparr> = sy_br s" by (cases "sy_br s") simp
  then show ?thesis using send_resp_law send_resp_ok [OF inv sides _ t(2) pos, of ok] t(3) RetryResp by auto
qed

lemma reach_inv: "port_reach P s t \<Longrightarrow> cfg_pos cfg \<Longrightarrow> sys_inv cfg s \<Longrightarrow> sys_inv cfg t"
proof (induction rule: port_reach.induct)
  case (step s t a u)
  then show ?case using step_ok by fastforce
qed

text \<open>The interface of the properties below.\<close>

lemma ports_safe:
  assumes "port_reach P (Sys_init gs) s" and "cfg_pos cfg"
  shows "length (br_reqs (sy_br s)) \<le> bc_reqQueueLimit cfg \<and> br_outstandingResponses (sy_br s) \<le> bc_respQueueLimit cfg \<and>
    br_outstandingResponses (sy_br s) = owed s \<and> (\<forall>a. port_enabled P a s \<longrightarrow> is_ok (port_step P a s))"
proof -
  have inv: "sys_inv cfg s" using reach_inv [OF assms init_inv] .
  then have "is_ok (port_step P a s)" if "port_enabled P a s" for a using step_ok [OF inv that assms(2)] by (auto simp: is_ok_iff)
  then show ?thesis using inv by (simp add: sys_inv_def)
qed

lemma ports_fifo:
  assumes "port_reach P (Sys_init gs) s" and "cfg_pos cfg"
  shows "sy_accepted s = sy_forwarded s @ map dp_pkt (br_reqs (sy_br s)) \<and>
    sy_received s = sy_answered s @ map dp_pkt (br_resps (sy_br s))"
  using reach_inv [OF assms init_inv] by (simp add: sys_inv_def)

lemma ports_retry:
  assumes "port_reach P (Sys_init gs) s" and "cfg_pos cfg" and stalled: "br_retryReq (sy_br s)"
  shows "(br_reqs (sy_br s) \<noteq> [] \<or> 0 < sy_inflight s + length (br_resps (sy_br s))) \<and>
    (\<forall>a t. a \<in> {FireReq edge True, RetryReq now edge True} \<and> port_enabled P a s \<and> port_step P a s = Inr t \<longrightarrow>
       \<not> br_retryReq (sy_br t) \<and> br_retriesSent (sy_br t) = br_retriesSent (sy_br s) + 1) \<and>
    (\<forall>a t. a \<in> {FireResp edge True, RetryResp now edge True} \<and> br_reqs (sy_br s) = [] \<and> port_enabled P a s \<and> port_step P a s = Inr t \<longrightarrow>
       \<not> br_retryReq (sy_br t) \<and> br_retriesSent (sy_br t) = br_retriesSent (sy_br s) + 1)"
proof -
  have inv: "sys_inv cfg s" using reach_inv [OF assms(1,2) init_inv] .
  have req: "\<not> br_retryReq (sy_br t) \<and> br_retriesSent (sy_br t) = br_retriesSent (sy_br s) + 1"
    if "send_req (req_trySendTiming cfg) n edge True br s = Inr t" "br_retryReq br" "br_retriesSent br = br_retriesSent (sy_br s)" for n br t
    using that by (auto simp: send_req_def req_trySendTiming_def retryStalledReq_def bindE_eq_Inr Let_def split: list.splits)
  have resp: "\<not> br_retryReq (sy_br t) \<and> br_retriesSent (sy_br t) = br_retriesSent (sy_br s) + 1"
    if "send_resp (resp_trySendTiming cfg) n edge True br s = Inr t" "br_retryReq br" "br_retriesSent br = br_retriesSent (sy_br s)" "br_reqs br = []" for n br t
    using that assms(2)
    by (auto simp: send_resp_def resp_trySendTiming_def retryStalledReq_def reqQueueFull_def cfg_pos_def bindE_eq_Inr Let_def split: list.splits)
  have "br_reqs (sy_br s) \<noteq> [] \<or> 0 < sy_inflight s + length (br_resps (sy_br s))"
    using inv stalled by (auto simp: sys_inv_def owed_def)
  then show ?thesis using req resp stalled send_req_law send_resp_law by (auto split: option.splits)
qed

end

interpretation pb: bridge_ports "back_ports cfg" cfg for cfg
proof
  fix x now edge pkt p br
  assume ok: "po_reqOk (back_ports cfg) x now edge pkt p"
  obtain env junk where x: "x = (env, junk)" by (cases x)
  obtain p' where p': "predictorHandleRequest env now junk pkt p = Inr p'" using ok by (auto simp: x back_ports_def is_ok_iff)
  have "is_metadata pkt \<Longrightarrow> po_recvReq (back_ports cfg) x now edge pkt (p, br) = Inr (False, p, br)"
    by (simp add: x back_ports_def recvTimingReq_def)
  moreover have "\<not> is_metadata pkt \<Longrightarrow> po_recvReq (back_ports cfg) x now edge pkt (p, br) = bindE (accept_req cfg now edge pkt
      (br\<lparr>br_resultBufferCapacityEvictions := unat (g_capacityEvictionStatic (fst p))\<rparr>)) (\<lambda>(b, br'). Inr (b, p', br'))"
    using ok p' by (simp add: x back_ports_def recvTimingReq_def Let_def)
  moreover have "now \<le> clockEdge cfg edge (bc_delay cfg) + receive_delay pkt" using ok by (simp add: x back_ports_def)
  ultimately show "now \<le> clockEdge cfg edge (bc_delay cfg) + receive_delay pkt \<and>
      (\<exists>p'. po_recvReq (back_ports cfg) x now edge pkt (p, br) = Inr (False, p', br) \<or>
        (\<exists>n. po_recvReq (back_ports cfg) x now edge pkt (p, br) =
           bindE (accept_req cfg now edge pkt (br\<lparr>br_resultBufferCapacityEvictions := n\<rparr>)) (\<lambda>(b, br'). Inr (b, p', br'))))"
    by (cases "is_metadata pkt") blast+
next
  fix y now edge pkt p br
  assume "po_respOk (back_ports cfg) y now edge pkt p"
  then show "\<exists>p' when. now \<le> when \<and>
      po_recvResp (back_ports cfg) y now edge pkt (p, br) = bindE (schedTimingResp now (reset_delays pkt) when br) (\<lambda>br'. Inr (p', br'))"
    by (intro exI [of _ p] exI [of _ "clockEdge cfg edge (bc_delay cfg) + receive_delay pkt"]) (simp add: back_ports_def recvTimingResp_def)
qed (simp_all add: back_ports_def)

section \<open>Properties of the bridge\<close>

text \<open>C10: Whatever the peers do and however requests, responses, sends and retries interleave, no assertion of
  the bridge fails: every action that the environment may take returns.  The request queue and the number
  of outstanding responses stay within their limits, and a place is reserved for exactly the responses that
  are still to come.\<close>

theorem bridge_safe:
  assumes "reach cfg (Sys_init gs) s" and "cfg_pos cfg"
  shows "length (br_reqs (sy_br s)) \<le> bc_reqQueueLimit cfg \<and> br_outstandingResponses (sy_br s) \<le> bc_respQueueLimit cfg \<and>
    br_outstandingResponses (sy_br s) = owed s \<and> (\<forall>a. enabled cfg a s \<longrightarrow> is_ok (sys_step cfg a s))"
  using pb.ports_safe [OF assms] .

text \<open>C11: The bridge is a first-in first-out channel in both directions: the requests passed to the memory's side
  followed by those in the queue are the requests accepted, in their order and with their delays reset, and
  likewise for the responses.  Nothing is lost, duplicated or reordered.\<close>

theorem bridge_fifo:
  assumes "reach cfg (Sys_init gs) s" and "cfg_pos cfg"
  shows "sy_accepted s = sy_forwarded s @ map dp_pkt (br_reqs (sy_br s)) \<and>
    sy_received s = sy_answered s @ map dp_pkt (br_resps (sy_br s))"
  using pb.ports_fifo [OF assms] .

text \<open>C12: A stalled request is not forgotten.  While a retry is owed, a request is queued or a response is
  outstanding.  Every successful send of a request pays the retry, and when no request is queued, so does
  every successful send of a response.\<close>

theorem stalled_request_retried:
  assumes "reach cfg (Sys_init gs) s" and "cfg_pos cfg" and stalled: "br_retryReq (sy_br s)"
  shows "(br_reqs (sy_br s) \<noteq> [] \<or> 0 < sy_inflight s + length (br_resps (sy_br s))) \<and>
    (\<forall>a t. a \<in> {FireReq edge True, RetryReq now edge True} \<and> enabled cfg a s \<and> sys_step cfg a s = Inr t \<longrightarrow>
       \<not> br_retryReq (sy_br t) \<and> br_retriesSent (sy_br t) = br_retriesSent (sy_br s) + 1) \<and>
    (\<forall>a t. a \<in> {FireResp edge True, RetryResp now edge True} \<and> br_reqs (sy_br s) = [] \<and> enabled cfg a s \<and> sys_step cfg a s = Inr t \<longrightarrow>
       \<not> br_retryReq (sy_br t) \<and> br_retriesSent (sy_br t) = br_retriesSent (sy_br s) + 1)"
  using pb.ports_retry [OF assms] .

section \<open>A request that is tried again\<close>

definition sees_write :: "Globals \<Rightarrow> Packet \<Rightarrow> bool" where
  "sees_write g pkt = (g_predictorEnabled g \<and> g_usePredictor g \<and> \<not> isToPOC (pk_req pkt) \<and> isWrite pkt \<and>
     (case getAddr pkt of Inl _ \<Rightarrow> False | Inr a \<Rightarrow> is_paddr_pm a) \<and> \<not> is_metadata pkt)"

lemma dump_total: "dumpTrace now pkt be = Inr be' \<Longrightarrow> be_totalPWrites be' = be_totalPWrites be"
  by (auto simp: dumpTrace_def Let_def split: if_splits elim!: bindE_Inr_E)

lemma writeback_total: "be_totalPWrites (update_writeback now addr b be) = be_totalPWrites be"
  by (auto simp: update_writeback_def split: option.splits)

lemma request_total:
  assumes run: "predictorHandleRequest env now junk pkt (g, be) = Inr (g', be')" and acc: "accounted be" and sees: "sees_write g pkt"
  shows "accounted be' \<and> be_totalPWrites be' = be_totalPWrites be + 1"
proof -
  obtain a where a: "getAddr pkt = Inr a" "is_paddr_pm a" using sees by (auto simp: sees_write_def split: sum.splits)
  have f: "\<not> (\<not> g_predictorEnabled g \<or> \<not> g_usePredictor g)" "\<not> isToPOC (pk_req pkt)" "isWrite pkt" using sees by (simp_all add: sees_write_def)
  from run a f obtain be1 g1 be2 where d: "dumpTrace now pkt be = Inr be1"
    and h: "handleNonVolatileWrite env now junk pkt (g, be1) = Inr (g1, be2)" and w: "be' = update_writeback now a False be2"
    by (auto simp: predictorHandleRequest_def elim!: bindE_Inr_E)
  from handle_accounted [OF h dump_accounted [OF d acc]] show ?thesis
    using dump_total [OF d] w by (simp add: writeback_accounted writeback_total)
qed

lemma recv_req_handles:
  assumes "recvTimingReq cfg env now edge junk pkt (gs, br) = Inr (b, gs', br')" and "\<not> is_metadata pkt"
  shows "predictorHandleRequest env now junk pkt gs = Inr gs'"
  using assms by (auto simp: recvTimingReq_def Let_def elim!: bindE_Inr_E)

text \<open>C22: The predictor sees a request before the bridge knows whether it can take it.  A persistent write that
  finds the request queue full is refused and stalled, but already counted; when it is tried again it is
  counted a second time.\<close>

theorem stalled_write_counted_twice:
  assumes first: "recvTimingReq cfg env now edge junk pkt ((g, be), br) = Inr (b, (g1, be1), br1)"
    and again: "recvTimingReq cfg env later edge' junk' pkt ((g1, be1), br2) = Inr (b', (g2, be2), br3)"
    and sees: "sees_write g pkt" "sees_write g1 pkt" and acc: "accounted be" and full: "reqQueueFull cfg br" "\<not> br_retryReq br"
  shows "\<not> b \<and> br_retryReq br1 \<and> be_totalPWrites be2 = be_totalPWrites be + 2"
proof -
  have m: "\<not> is_metadata pkt" using sees(1) by (simp add: sees_write_def)
  have t1: "accounted be1 \<and> be_totalPWrites be1 = be_totalPWrites be + 1"
    by (rule request_total [OF recv_req_handles [OF first m] acc sees(1)])
  then have "be_totalPWrites be2 = be_totalPWrites be1 + 1"
    using request_total [OF recv_req_handles [OF again m] _ sees(2)] by blast
  moreover have "\<not> b \<and> br_retryReq br1"
    using first m full by (auto simp: recvTimingReq_def accept_req_def reqQueueFull_def Let_def elim!: bindE_Inr_E)
  ultimately show ?thesis using t1 by simp
qed

section \<open>Examples\<close>

text \<open>Two writes arrive at a bridge with one place: the first is queued, the second stalls.\<close>

definition example_bridge :: BridgeCfg where
  "example_bridge = \<lparr>bc_reqQueueLimit = 1, bc_respQueueLimit = 1, bc_delay = 1, bc_clockPeriod = 500\<rparr>"

definition example_start :: "(Globals \<times> Backend) Sys" where
  "example_start = Sys_init (Globals_init\<lparr>g_usePredictor := False\<rparr>, Backend_init ''0'')"

definition example_arrival :: "(environ \<times> hash_t, unit) Action" where
  "example_arrival = RecvReq (\<lambda>_. None, 0) 0 0 (example_write 5)"

definition example_queued :: "(Globals \<times> Backend) Sys" where
  "example_queued = example_start\<lparr>sy_br := Bridge_init\<lparr>br_reqs := [\<lparr>dp_tick = 500, dp_pkt = example_write 5\<rparr>],
     br_reqEvent := Some 500, br_outstandingResponses := (if needsResponse (example_write 5) then 1 else 0)\<rparr>, sy_accepted := [example_write 5]\<rparr>"

definition example_stalled :: "(Globals \<times> Backend) Sys" where
  "example_stalled = example_queued\<lparr>sy_br := (sy_br example_queued)\<lparr>br_retryReq := True\<rparr>\<rparr>"

lemmas example_defs = back_ports_def example_bridge_def example_start_def example_queued_def example_stalled_def example_arrival_def
  Sys_init_def Bridge_init_def

lemma example_write_facts: "\<not> is_metadata (example_write 5)" "\<not> cacheResponding (example_write 5)" "receive_delay (example_write 5) = 0"
  "reset_delays (example_write 5) = example_write 5"
  by (simp_all add: is_metadata_def example_write_def example_pkt_def cacheResponding_def receive_delay_def reset_delays_def packet_defs)

lemma example_handle: "predictorHandleRequest env now junk pkt (Globals_init\<lparr>g_usePredictor := False\<rparr>, be) =
    Inr (Globals_init\<lparr>g_usePredictor := False\<rparr>, be)"
  by (simp add: predictorHandleRequest_def)

lemma example_capacity: "g_capacityEvictionStatic (Globals_init\<lparr>g_usePredictor := False\<rparr>) = 0"
  by (simp add: Globals_init_def)

lemma example_step1: "enabled example_bridge example_arrival example_start" "sys_step example_bridge example_arrival example_start = Inr example_queued"
  by (simp_all add: example_defs may_pass_def clockEdge_def example_write_facts example_handle recvTimingReq_def example_capacity
      accept_req_def Let_def reqQueueFull_def respQueueFull_def schedTimingReq_def schedule_event_def)

lemma example_step2: "enabled example_bridge example_arrival example_queued" "sys_step example_bridge example_arrival example_queued = Inr example_stalled"
  by (simp_all add: example_defs may_pass_def clockEdge_def example_write_facts example_handle recvTimingReq_def example_capacity
      accept_req_def Let_def reqQueueFull_def)

lemma example_reach: "reach example_bridge example_start example_stalled"
  using port_reach.step [OF port_reach.step [OF port_reach.refl example_step1] example_step2] .

lemma example_pos: "cfg_pos example_bridge"
  by (simp add: cfg_pos_def example_bridge_def)

lemma example_fire: "enabled example_bridge (FireReq 500 True) example_stalled"
  by (simp add: example_defs may_pass_def)

theorem bridge_safe_witness:
  "length (br_reqs (sy_br example_stalled)) = 1 \<and> is_ok (sys_step example_bridge (FireReq 500 True) example_stalled)"
proof
  show "length (br_reqs (sy_br example_stalled)) = 1" by (simp add: example_defs)
  show "is_ok (sys_step example_bridge (FireReq 500 True) example_stalled)"
    using bridge_safe [OF example_reach [unfolded example_start_def] example_pos] example_fire by blast
qed

theorem bridge_fifo_witness:
  "sy_accepted example_stalled = [example_write 5] \<and> sy_forwarded example_stalled = [] \<and>
   sy_accepted example_stalled = sy_forwarded example_stalled @ map dp_pkt (br_reqs (sy_br example_stalled))"
  using bridge_fifo [OF example_reach [unfolded example_start_def] example_pos] by (simp add: example_defs)

theorem stalled_request_retried_witness:
  "\<exists>t. sys_step example_bridge (FireReq 500 True) example_stalled = Inr t \<and> br_retriesSent (sy_br t) = 1"
proof -
  have st: "br_retryReq (sy_br example_stalled)" "br_retriesSent (sy_br example_stalled) = 0" by (simp_all add: example_defs)
  have "sys_inv example_bridge example_start" unfolding example_start_def by (rule init_inv)
  then obtain t where "sys_step example_bridge (FireReq 500 True) example_stalled = Inr t"
    using pb.step_ok [OF pb.reach_inv [OF example_reach example_pos] example_fire example_pos] by blast
  moreover from this have "br_retriesSent (sy_br t) = br_retriesSent (sy_br example_stalled) + 1"
    using stalled_request_retried [OF example_reach [unfolded example_start_def] example_pos st(1), of 500 0] example_fire by blast
  ultimately show ?thesis using st(2) by auto
qed

definition example_live :: Globals where
  "example_live = Globals_init\<lparr>g_usePredictor := True, g_predictorEnabled := True\<rparr>"

lemma example_live_sees: "sees_write example_live (example_write 5)"
  by (simp add: sees_write_def example_live_def example_write_facts)
     (simp add: example_write_def example_pkt_def isToPOC_def isWrite_def testCmdAttrib_def packet_defs is_paddr_pm_def)

lemma example_live_handle:
  assumes "be_enableNonVolatileDump be = ''0''"
  shows "\<exists>be'. predictorHandleRequest (\<lambda>_. None) now 0 (example_write 5) (example_live, be) = Inr (example_live, be') \<and>
    be_enableNonVolatileDump be' = ''0''"
proof -
  have p: "\<not> isToPOC (pk_req (example_write 5))" "getAddr (example_write 5) = Inr 0x300001000" "isWrite (example_write 5)"
    "is_paddr_pm 0x300001000"
    by (simp_all add: example_write_def example_pkt_def isToPOC_def packet_defs isWrite_def testCmdAttrib_def is_paddr_pm_def)
  from line_write_line [OF example_write_line, of now 5] obtain cl v where
    cl: "mk_CacheLine_pkt now (example_write 5) False = Inr cl" "valid_chunk_count cl = Inr v" by blast
  have emp: "g_completedWrites example_live = []" "g_predictorEnabled example_live" "g_usePredictor example_live"
    by (simp_all add: example_live_def Globals_init_def)
  have same: "example_live\<lparr>g_completedWrites := []\<rparr> = example_live" by (simp add: example_live_def Globals_init_def)
  have dump: "be_enableNonVolatileDump (update_writeback n a b (x\<lparr>be_nonPredictedPWrites := k\<rparr>)) =
      be_enableNonVolatileDump x" for n a b x k by (simp add: update_writeback_def split: option.splits)
  have cw: "be_enableNonVolatileDump (count_write v a g be) = ''0''" for a g using assms by (simp add: count_write_def Let_def split: option.splits)
  show ?thesis
    using p cl emp same dump cw assms line_write_reads(1) [OF example_write_line]
    by (simp add: predictorHandleRequest_def dumpTrace_def handleNonVolatileWrite_def invalidateAllAddr_def um_find_def get_env_val_def Let_def)
qed

theorem stalled_write_counted_twice_witness:
  "\<exists>be1 br1 be2 b br3.
     recvTimingReq example_bridge (\<lambda>_. None) 0 0 0 (example_write 5) ((example_live, Backend_init ''0''), sy_br example_queued) =
       Inr (False, (example_live, be1), br1) \<and>
     recvTimingReq example_bridge (\<lambda>_. None) 9 9 0 (example_write 5) ((example_live, be1), Bridge_init) = Inr (b, (example_live, be2), br3) \<and>
     be_totalPWrites be2 = 2"
proof -
  have d: "be_enableNonVolatileDump (Backend_init ''0'') = ''0''" "accounted (Backend_init ''0'')" "be_totalPWrites (Backend_init ''0'') = 0"
    by (simp_all add: Backend_init_def accounted_def)
  from example_live_handle [OF d(1), of 0] obtain be1 where h1: "predictorHandleRequest (\<lambda>_. None) 0 0 (example_write 5)
      (example_live, Backend_init ''0'') = Inr (example_live, be1)" "be_enableNonVolatileDump be1 = ''0''" by blast
  from example_live_handle [OF h1(2), of 9] obtain be2 where h2: "predictorHandleRequest (\<lambda>_. None) 9 0 (example_write 5)
      (example_live, be1) = Inr (example_live, be2)" by blast
  have full: "reqQueueFull example_bridge (sy_br example_queued)" "\<not> br_retryReq (sy_br example_queued)" by (simp_all add: example_defs reqQueueFull_def)
  obtain br1 where r1: "recvTimingReq example_bridge (\<lambda>_. None) 0 0 0 (example_write 5)
      ((example_live, Backend_init ''0''), sy_br example_queued) = Inr (False, (example_live, be1), br1)"
    using h1(1) full by (simp add: recvTimingReq_def Let_def example_write_facts accept_req_def reqQueueFull_def)
  obtain b br3 where r2: "recvTimingReq example_bridge (\<lambda>_. None) 9 9 0 (example_write 5) ((example_live, be1), Bridge_init) =
      Inr (b, (example_live, be2), br3)"
    using h2 by (cases "needsResponse (example_write 5)") (simp_all add: recvTimingReq_def Let_def example_write_facts accept_req_def
        reqQueueFull_def respQueueFull_def Bridge_init_def example_bridge_def schedTimingReq_def schedule_event_def clockEdge_def)
  from stalled_write_counted_twice [OF r1 r2 example_live_sees example_live_sees d(2) full] show ?thesis using r1 r2 d(3) by auto
qed

end
