(* ===== verification/Frontend_Ports.thy ===== *)
theory Frontend_Ports
imports Frontend_Predict Bridge
begin

text \<open>
  The two ports of \<open>gem5/src/mem/predictor_frontend.cc\<close>.  The queues, the send events and the retries repeat
  those of the back end; the two handlers that receive do not.  A request is shown to the predictor once per
  tick, and only while no request is stalled.  The response to a write-back waits for what the backend
  memory operations of its line still take.
\<close>

section \<open>The handlers\<close>

definition fe_respQueueFull :: "BridgeCfg \<Rightarrow> Bridge \<Rightarrow> bool" where
  "fe_respQueueFull cfg br = (br_outstandingResponses br = bc_respQueueLimit cfg)"

definition fe_reqQueueFull :: "BridgeCfg \<Rightarrow> Bridge \<Rightarrow> bool" where
  "fe_reqQueueFull cfg br = (length (br_reqs br) = bc_reqQueueLimit cfg)"

definition fe_schedTimingReq :: "BridgeCfg \<Rightarrow> Tick \<Rightarrow> Packet \<Rightarrow> Tick \<Rightarrow> Bridge \<Rightarrow> Bridge res" where
  "fe_schedTimingReq cfg now pkt when br =
     bindE (if br_reqs br = [] then schedule_event now when (br_reqEvent br) else Inr (br_reqEvent br)) (\<lambda>ev.
     bindE (assertE (length (br_reqs br) \<noteq> bc_reqQueueLimit cfg) ''transmitList.size() != reqQueueLimit'') (\<lambda>_.
     Inr (br\<lparr>br_reqEvent := ev, br_reqs := br_reqs br @ [\<lparr>dp_tick = when, dp_pkt = pkt\<rparr>]\<rparr>)))"

definition fe_schedTimingResp :: "Tick \<Rightarrow> Packet \<Rightarrow> Tick \<Rightarrow> Bridge \<Rightarrow> Bridge res" where
  "fe_schedTimingResp now pkt when br =
     bindE (if br_resps br = [] then schedule_event now when (br_respEvent br) else Inr (br_respEvent br)) (\<lambda>ev.
     Inr (br\<lparr>br_respEvent := ev, br_resps := br_resps br @ [\<lparr>dp_tick = when, dp_pkt = pkt\<rparr>]\<rparr>))"

text \<open>The state of the predictor that the ports see: the shared tables, the front end, and \<open>lastPredictorTick\<close>.\<close>

type_synonym FrontState = "(Globals \<times> Frontend) \<times> Tick"

definition show_predictor :: "FeCfg \<Rightarrow> World \<Rightarrow> Packet \<Rightarrow> FrontState \<Rightarrow> FrontState res" where
  "show_predictor fc w pkt p =
     (if w_now w \<noteq> snd p then bindE (fe_predictorHandleRequest fc w pkt (fst p)) (\<lambda>s. Inr (s, w_now w)) else Inr p)"

definition fe_recvTimingReq :: "BridgeCfg \<Rightarrow> FeCfg \<Rightarrow> World \<Rightarrow> Tick \<Rightarrow> Packet \<Rightarrow> FrontState \<times> Bridge \<Rightarrow>
    (bool \<times> FrontState \<times> Bridge) res" where
  "fe_recvTimingReq cfg fc w edge pkt s =
     bindE (panic_if (cacheResponding pkt) ''Should not see packets where cache is responding'') (\<lambda>_.
     let br = snd s in
     if br_retryReq br then Inr (False, s)
     else bindE (show_predictor fc w pkt (fst s)) (\<lambda>p.
       if fe_reqQueueFull cfg br then Inr (False, p, br\<lparr>br_retryReq := True\<rparr>)
       else let br1 = (if \<not> needsResponse pkt then br
                       else if fe_respQueueFull cfg br then br\<lparr>br_retryReq := True\<rparr>
                       else br\<lparr>br_outstandingResponses := br_outstandingResponses br + 1\<rparr>) in
         bindE (if br_retryReq br1 then Inr br1
                else fe_schedTimingReq cfg (w_now w) (reset_delays pkt) (clockEdge cfg edge (bc_delay cfg) + receive_delay pkt) br1) (\<lambda>br2.
         Inr (\<not> br_retryReq br2, p, br2))))"

text \<open>The size is that of the request, not of the packet as in \<open>is_vaddr_clwb\<close>.\<close>

definition resp_isClwb :: "Packet \<Rightarrow> bool res" where
  "resp_isClwb pkt =
     (if \<not> isToPOC (pk_req pkt) then Inr False
      else bindE (req_getSize (pk_req pkt)) (\<lambda>n.
        if n \<noteq> 1 \<or> hasData pkt then Inr False
        else bindE (getVaddr (pk_req pkt)) (\<lambda>va. Inr (is_vaddr_pm va))))"

text \<open>\<open>operator[]\<close> reads a missing latency as zero; the entry is erased in any case.\<close>

definition take_latency :: "EmulationPageTable \<Rightarrow> Packet \<Rightarrow> Globals \<times> Frontend \<Rightarrow> (Tick \<times> Globals \<times> Frontend) res" where
  "take_latency pt pkt s =
     bindE (resp_isClwb pkt) (\<lambda>isClwb.
     if \<not> (g_predictorEnabled (fst s) \<and> isClwb) then Inr (0, s)
     else bindE (getVaddr (pk_req pkt)) (\<lambda>va.
       if va = 0 then Inr (0, s)
       else let paddr = (case translate pt va of None \<Rightarrow> 0 | Some a \<Rightarrow> a) in
         bindE (panic_if (paddr = 0) ''Cannot translate'') (\<lambda>_.
         Inr (case um_find (g_clwbLatency (fst s)) paddr of None \<Rightarrow> 0 | Some l \<Rightarrow> l,
              (fst s)\<lparr>g_clwbLatency := um_erase paddr (g_clwbLatency (fst s))\<rparr>,
              (snd s)\<lparr>fe_clwbResponses := fe_clwbResponses (snd s) + 1\<rparr>))))"

definition fe_recvTimingResp :: "BridgeCfg \<Rightarrow> EmulationPageTable \<Rightarrow> Tick \<Rightarrow> Tick \<Rightarrow> Packet \<Rightarrow> FrontState \<times> Bridge \<Rightarrow>
    (FrontState \<times> Bridge) res" where
  "fe_recvTimingResp cfg pt now edge pkt s =
     bindE (take_latency pt pkt (fst (fst s))) (\<lambda>(bmoLatency, gf).
     bindE (fe_schedTimingResp now (reset_delays pkt) (clockEdge cfg edge (bc_delay cfg) + receive_delay pkt + bmoLatency) (snd s)) (\<lambda>br.
     Inr ((gf, snd (fst s)), br)))"

definition fe_retryStalledReq :: "Bridge \<Rightarrow> Bridge" where
  "fe_retryStalledReq br = (if br_retryReq br then br\<lparr>br_retryReq := False, br_retriesSent := br_retriesSent br + 1\<rparr> else br)"

definition fe_req_trySendTiming :: "BridgeCfg \<Rightarrow> Tick \<Rightarrow> Tick \<Rightarrow> bool \<Rightarrow> Bridge \<Rightarrow> Bridge res" where
  "fe_req_trySendTiming cfg now edge ok br = (case br_reqs br of
     [] \<Rightarrow> Inl (Assert_Fail ''!transmitList.empty()'')
   | req # rest \<Rightarrow>
       bindE (assertE (dp_tick req \<le> now) ''req.tick <= curTick()'') (\<lambda>_.
       if \<not> ok then Inr br
       else bindE (case rest of
              [] \<Rightarrow> Inr (br_reqEvent br)
            | next # _ \<Rightarrow> schedule_event now (max (dp_tick next) (clockEdge cfg edge 0)) (br_reqEvent br)) (\<lambda>ev.
            Inr (fe_retryStalledReq (br\<lparr>br_reqs := rest, br_reqEvent := ev\<rparr>)))))"

definition fe_resp_trySendTiming :: "BridgeCfg \<Rightarrow> Tick \<Rightarrow> Tick \<Rightarrow> bool \<Rightarrow> Bridge \<Rightarrow> Bridge res" where
  "fe_resp_trySendTiming cfg now edge ok br = (case br_resps br of
     [] \<Rightarrow> Inl (Assert_Fail ''!transmitList.empty()'')
   | resp # rest \<Rightarrow>
       bindE (assertE (dp_tick resp \<le> now) ''resp.tick <= curTick()'') (\<lambda>_.
       if \<not> ok then Inr br
       else bindE (assertE (br_outstandingResponses br \<noteq> 0) ''outstandingResponses != 0'') (\<lambda>_.
            bindE (case rest of
              [] \<Rightarrow> Inr (br_respEvent br)
            | next # _ \<Rightarrow> schedule_event now (max (dp_tick next) (clockEdge cfg edge 0)) (br_respEvent br)) (\<lambda>ev.
            let br1 = br\<lparr>br_resps := rest, br_respEvent := ev, br_outstandingResponses := br_outstandingResponses br - 1\<rparr> in
            Inr (if \<not> fe_reqQueueFull cfg br1 \<and> br_retryReq br1
                 then br1\<lparr>br_retryReq := False, br_retriesSent := br_retriesSent br1 + 1\<rparr> else br1)))))"

definition fe_recvAtomic :: "BridgeCfg \<Rightarrow> (Packet \<Rightarrow> Tick) \<Rightarrow> Packet \<Rightarrow> Tick res" where
  "fe_recvAtomic cfg peer pkt =
     bindE (panic_if (cacheResponding pkt) ''Should not see packets where cache is responding'') (\<lambda>_.
     Inr (bc_delay cfg * bc_clockPeriod cfg + peer pkt))"

section \<open>The front end is a bridge\<close>

lemma fe_sched_eq: "fe_schedTimingReq = schedTimingReq" "fe_schedTimingResp = schedTimingResp"
  by (simp_all add: fun_eq_iff fe_schedTimingReq_def schedTimingReq_def fe_schedTimingResp_def schedTimingResp_def)

lemma fe_full_eq: "fe_respQueueFull = respQueueFull" "fe_reqQueueFull = reqQueueFull"
  by (simp_all add: fun_eq_iff fe_respQueueFull_def respQueueFull_def fe_reqQueueFull_def reqQueueFull_def)

lemma fe_send_eq: "fe_req_trySendTiming = req_trySendTiming" "fe_resp_trySendTiming = resp_trySendTiming"
proof -
  have r: "fe_retryStalledReq = retryStalledReq" by (rule ext) (simp add: fe_retryStalledReq_def retryStalledReq_def)
  show "fe_req_trySendTiming = req_trySendTiming"
    unfolding fun_eq_iff fe_req_trySendTiming_def req_trySendTiming_def r by simp
  have t: "(if \<not> reqQueueFull cfg br1 \<and> br_retryReq br1 then br1\<lparr>br_retryReq := False, br_retriesSent := br_retriesSent br1 + 1\<rparr> else br1) =
      (if \<not> reqQueueFull cfg br1 then retryStalledReq br1 else br1)" for cfg br1
    by (simp add: retryStalledReq_def)
  show "fe_resp_trySendTiming = resp_trySendTiming"
    unfolding fun_eq_iff fe_resp_trySendTiming_def resp_trySendTiming_def fe_full_eq Let_def t by simp
qed

text \<open>After the predictor the request goes the way it goes in the back end.\<close>

lemma fe_recvTimingReq_eq:
  "fe_recvTimingReq cfg fc w edge pkt (p, br) =
     bindE (panic_if (cacheResponding pkt) ''Should not see packets where cache is responding'') (\<lambda>_.
     if br_retryReq br then Inr (False, p, br)
     else bindE (show_predictor fc w pkt p) (\<lambda>p'.
       bindE (accept_req cfg (w_now w) edge pkt br) (\<lambda>(b, br'). Inr (b, p', br'))))"
  by (cases "show_predictor fc w pkt p"; cases "fe_reqQueueFull cfg br"; cases "needsResponse pkt"; cases "fe_respQueueFull cfg br")
     (simp_all add: fe_recvTimingReq_def accept_req_def fe_full_eq fe_sched_eq Let_def bindE_assoc cong: if_cong)

text \<open>The ports of the front end.  The tick of a request is that of the world it meets.\<close>

definition front_ports :: "BridgeCfg \<Rightarrow> FeCfg \<Rightarrow> (FrontState, World, EmulationPageTable) Ports" where
  "front_ports cfg fc = \<lparr>
     po_recvReq = (\<lambda>w now. fe_recvTimingReq cfg fc (w\<lparr>w_now := now\<rparr>)),
     po_recvResp = fe_recvTimingResp cfg,
     po_sendReq = fe_req_trySendTiming cfg, po_sendResp = fe_resp_trySendTiming cfg,
     po_reqOk = (\<lambda>w now edge pkt p. now \<le> clockEdge cfg edge (bc_delay cfg) + receive_delay pkt \<and>
        \<not> cacheResponding pkt \<and> is_ok (show_predictor fc (w\<lparr>w_now := now\<rparr>) pkt p)),
     po_respOk = (\<lambda>pt now edge pkt p. \<exists>l gf. take_latency pt pkt (fst p) = Inr (l, gf) \<and>
        now \<le> clockEdge cfg edge (bc_delay cfg) + receive_delay pkt + l)\<rparr>"

interpretation pf: bridge_ports "front_ports cfg fc" cfg for cfg fc
proof
  fix w now edge pkt p and br :: Bridge
  assume ok: "po_reqOk (front_ports cfg fc) w now edge pkt p"
  obtain p' where p': "show_predictor fc (w\<lparr>w_now := now\<rparr>) pkt p = Inr p'" using ok by (auto simp: front_ports_def is_ok_iff)
  have br: "br\<lparr>br_resultBufferCapacityEvictions := br_resultBufferCapacityEvictions br\<rparr> = br" by simp
  have "br_retryReq br \<Longrightarrow> po_recvReq (front_ports cfg fc) w now edge pkt (p, br) = Inr (False, p, br)"
    using ok by (simp add: front_ports_def fe_recvTimingReq_eq)
  moreover have "\<not> br_retryReq br \<Longrightarrow> po_recvReq (front_ports cfg fc) w now edge pkt (p, br) =
      bindE (accept_req cfg now edge pkt (br\<lparr>br_resultBufferCapacityEvictions := br_resultBufferCapacityEvictions br\<rparr>)) (\<lambda>(b, br'). Inr (b, p', br'))"
    using ok p' by (simp add: front_ports_def fe_recvTimingReq_eq)
  moreover have "now \<le> clockEdge cfg edge (bc_delay cfg) + receive_delay pkt" using ok by (simp add: front_ports_def)
  ultimately show "now \<le> clockEdge cfg edge (bc_delay cfg) + receive_delay pkt \<and>
      (\<exists>p'. po_recvReq (front_ports cfg fc) w now edge pkt (p, br) = Inr (False, p', br) \<or>
        (\<exists>n. po_recvReq (front_ports cfg fc) w now edge pkt (p, br) =
           bindE (accept_req cfg now edge pkt (br\<lparr>br_resultBufferCapacityEvictions := n\<rparr>)) (\<lambda>(b, br'). Inr (b, p', br'))))"
    by (cases "br_retryReq br") blast+
next
  fix pt now edge pkt p and br :: Bridge
  assume "po_respOk (front_ports cfg fc) pt now edge pkt p"
  then obtain l gf where l: "take_latency pt pkt (fst p) = Inr (l, gf)" "now \<le> clockEdge cfg edge (bc_delay cfg) + receive_delay pkt + l"
    by (auto simp: front_ports_def)
  then show "\<exists>p' when. now \<le> when \<and>
      po_recvResp (front_ports cfg fc) pt now edge pkt (p, br) = bindE (schedTimingResp now (reset_delays pkt) when br) (\<lambda>br'. Inr (p', br'))"
    by (intro exI [of _ "(gf, snd p)"] exI [of _ "clockEdge cfg edge (bc_delay cfg) + receive_delay pkt + l"])
       (simp add: front_ports_def fe_recvTimingResp_def fe_sched_eq)
qed (simp_all add: front_ports_def fe_send_eq)

end
