(* ===== verification/BMO.thy ===== *)
theory BMO
  imports Backend_Matching
begin

text \<open>
  The backend memory operations of \<open>gem5/src/mem/dram_ctrl.cc\<close>: what a persistent write costs when its
  address and data were, or were not, predicted in time.  Encryption with integrity verification (EV) and
  deduplication with wear levelling (DW) are two modes; the constants are those of \<open>txopt/param.hh\<close>.
  Ticks are 64-bit words.  The DRAM timing model behind these operations is not part of this theory.
\<close>

abbreviation (input) METADATA_CACHE_MISS_LATENCY :: Tick where "METADATA_CACHE_MISS_LATENCY \<equiv> 40000"
abbreviation (input) IV_HASH_LATENCY :: Tick where "IV_HASH_LATENCY \<equiv> 40000"
abbreviation (input) DE_DUP_HASH_LATENCY :: Tick where "DE_DUP_HASH_LATENCY \<equiv> 300000"
abbreviation (input) ENCRYPTION_LATENCY :: Tick where "ENCRYPTION_LATENCY \<equiv> 40000"
abbreviation (input) WEAR_LEVELLING :: Tick where "WEAR_LEVELLING \<equiv> 0"

record BmoState =
  bm_isDWEnabled :: bool
  bm_isEVEnabled :: bool
  bm_addrNotPredicted :: nat
  bm_untimelyPrediction :: nat
  bm_extraMemoryAccesses :: nat
  bm_bmoFinishAfter :: nat
  bm_bmoFinishBefore :: nat
  bm_BMOLatencyEmulationCount :: nat
  bm_pendingPredictionQueueChecks :: nat
  bm_timeliness :: "Tick list"
  bm_bmoFinishDist :: "Tick list"

definition mk_BmoState :: "environ \<Rightarrow> BmoState" where
  "mk_BmoState env = \<lparr>bm_isDWEnabled = get_env_val env ''ENABLE_DW'', bm_isEVEnabled = get_env_val env ''ENABLE_EV'',
     bm_addrNotPredicted = 0, bm_untimelyPrediction = 0, bm_extraMemoryAccesses = 0, bm_bmoFinishAfter = 0,
     bm_bmoFinishBefore = 0, bm_BMOLatencyEmulationCount = 0, bm_pendingPredictionQueueChecks = 0,
     bm_timeliness = [], bm_bmoFinishDist = []\<rparr>"

definition isAddrNonVolatile :: "Addr_t \<Rightarrow> bool" where
  "isAddrNonVolatile addr = (addr > 8 * 1024 * 1024 * 1024)"

definition isAddrVolatile :: "Addr_t \<Rightarrow> bool" where
  "isAddrVolatile addr = (\<not> isAddrNonVolatile addr)"

section \<open>The latency of a write\<close>

text \<open>The tick at which the operations of a write are finished: the address chain (encryption, counter and
  tree lookups) and the data chain (the data or the pad, then one hash), whichever ends later.\<close>

definition ev_finish :: "bool \<Rightarrow> 64 word \<Rightarrow> Tick \<Rightarrow> Tick \<Rightarrow> Tick" where
  "ev_finish wasCounterCacheHit misses timeOfAddrGen timeOfDataGen =
     (let addrOnlyFinishTick = ENCRYPTION_LATENCY + (if wasCounterCacheHit then 0 else METADATA_CACHE_MISS_LATENCY)
            + IV_HASH_LATENCY * (1 + 12) + misses * METADATA_CACHE_MISS_LATENCY + timeOfAddrGen;
          independentAddrLatency = timeOfAddrGen + ENCRYPTION_LATENCY;
          dataFinishTick = max independentAddrLatency timeOfDataGen + IV_HASH_LATENCY in
      max addrOnlyFinishTick dataFinishTick)"

definition dw_finish :: "bool \<Rightarrow> Tick \<Rightarrow> Tick \<Rightarrow> Tick" where
  "dw_finish wasCounterCacheHit timeOfAddrGen timeOfDataGen =
     (let wearLevellingFinishTick = timeOfAddrGen + WEAR_LEVELLING;
          dataOnlyFinishTick = timeOfDataGen + DE_DUP_HASH_LATENCY + (if wasCounterCacheHit then 0 else METADATA_CACHE_MISS_LATENCY);
          dependentFinishTick = max timeOfAddrGen dataOnlyFinishTick in
      max dependentFinishTick wearLevellingFinishTick)"

definition remaining :: "Tick \<Rightarrow> Tick \<Rightarrow> BmoState \<Rightarrow> Tick \<times> BmoState" where
  "remaining now finishTick s =
     (if finishTick > now then (finishTick - now, s\<lparr>bm_bmoFinishAfter := bm_bmoFinishAfter s + 1\<rparr>)
      else (0, s\<lparr>bm_bmoFinishBefore := bm_bmoFinishBefore s + 1\<rparr>))"

definition getWriteLatency :: "environ \<Rightarrow> Tick \<Rightarrow> Packet \<Rightarrow> CompletedWriteEntry \<Rightarrow> bool \<Rightarrow> bool \<Rightarrow> BmoState \<Rightarrow> (Tick \<times> BmoState) res" where
  "getWriteLatency env now pkt e addrPredicted dataPredicted s =
     (let s1 = (if addrPredicted then s else s\<lparr>bm_addrNotPredicted := bm_addrNotPredicted s + 1\<rparr>);
          wasCounterCacheHit = pk_counterCacheHit pkt;
          misses = pk_verificationCacheMisses pkt in
      bindE (panic_if (bm_isEVEnabled s \<and> bm_isDWEnabled s) ''EV and DW cannot coexist'') (\<lambda>_.
      bindE (cw_get_time_of_addr_gen e) (\<lambda>ta.
      bindE (cw_get_time_of_data_gen e) (\<lambda>td.
      let s2 = (if addrPredicted \<and> now - ta < 50 * 1000 then s1\<lparr>bm_untimelyPrediction := bm_untimelyPrediction s1 + 1\<rparr> else s1);
          timeOfAddrGen = (if get_env_val env ''DISABLE_ADDR_PRED_PERF'' then now else ta);
          timeOfDataGen = (if get_env_val env ''DISABLE_DATA_PRED_PERF'' then now else td);
          (r1, s3) = (if bm_isEVEnabled s
                      then remaining now (ev_finish wasCounterCacheHit misses timeOfAddrGen timeOfDataGen)
                             (s2\<lparr>bm_extraMemoryAccesses := bm_extraMemoryAccesses s2 + unat ((if wasCounterCacheHit then 0 else 1) + misses)\<rparr>)
                      else (0, s2));
          (r2, s4) = (if bm_isDWEnabled s
                      then remaining now (dw_finish wasCounterCacheHit timeOfAddrGen timeOfDataGen) s3
                      else (r1, s3)) in
      Inr (r2, s4\<lparr>bm_timeliness := bm_timeliness s4 @ [(now - max td ta) div 1000],
                   bm_bmoFinishDist := bm_bmoFinishDist s4 @ [r2]\<rparr>)))))"

text \<open>Times that were not predicted count from now.\<close>

definition emulateBMOSlowdown :: "environ \<Rightarrow> Tick \<Rightarrow> Packet \<Rightarrow> CompletedWriteEntry \<Rightarrow> bool \<Rightarrow> bool \<Rightarrow> Globals \<times> BmoState \<Rightarrow>
    (Globals \<times> BmoState) res" where
  "emulateBMOSlowdown env now pkt e addrPredicted dataPredicted s =
     bindE (getPaddr (pk_req pkt)) (\<lambda>paddr.
      let s1 = (snd s)\<lparr>bm_BMOLatencyEmulationCount := bm_BMOLatencyEmulationCount (snd s) + 1\<rparr>;
          e1 = (if addrPredicted then e else cw_set_time_of_addr_gen now (cw_set_time_of_data_gen now e));
          e2 = (if dataPredicted then e1 else cw_set_time_of_data_gen now e1) in
      bindE (getWriteLatency env now pkt e2 addrPredicted dataPredicted s1) (\<lambda>(bmoLatency, s2).
      Inr ((fst s)\<lparr>g_clwbLatency := um_put paddr bmoLatency (g_clwbLatency (fst s))\<rparr>, s2)))"

section \<open>A write at the controller\<close>

text \<open>The search from the newest prediction for one that the backend has used for this write.\<close>

primrec bmo_scan :: "Packet \<Rightarrow> CompletedWriteEntry list \<Rightarrow> bool res" where
  "bmo_scan pkt [] = Inr False"
| "bmo_scan pkt (e # es) =
     bindE (cw_get_generator_hash e) (\<lambda>_.
     bindE (if cw_is_used e then isPktEqualCompletedEntryAddr pkt e else Inr False) (\<lambda>b.
     if b then bindE (isPktEqualCompletedEntry pkt e) (\<lambda>eq.
          if eq then bindE (cw_get_time_of_addr_gen e) (\<lambda>_. bindE (is_free_entry e) (\<lambda>_. Inr True))
          else bmo_scan pkt es)
     else bmo_scan pkt es))"

text \<open>The position that is taken out is the local \<open>i\<close>, which the loop never increments: the front.  The line
  is accessed with \<open>operator[]\<close>, which leaves an empty queue where there was none.\<close>

definition bmo_take :: "Packet \<Rightarrow> CompletedWriteEntry list \<Rightarrow> (CompletedWriteEntry option \<times> CompletedWriteEntry list) res" where
  "bmo_take pkt q =
     bindE (bmo_scan pkt (rev q)) (\<lambda>found.
     if \<not> found then Inr (None, q)
     else (case q of [] \<Rightarrow> Inl (Panic ''Element at index 0 not found'') | e # q' \<Rightarrow> Inr (Some e, q')))"

definition BMOHandleWriteRequest :: "environ \<Rightarrow> Tick \<Rightarrow> Packet \<Rightarrow> Globals \<times> BmoState \<Rightarrow> (Globals \<times> BmoState) res" where
  "BMOHandleWriteRequest env now pkt s =
     bindE (getPaddr (pk_req pkt)) (\<lambda>paddr.
     let q = (case um_find (g_completedWrites (fst s)) paddr of None \<Rightarrow> [] | Some q \<Rightarrow> q);
         wasAddrPredicted = (q \<noteq> []) in
     bindE (if wasAddrPredicted then bmo_take pkt q else Inr (None, q)) (\<lambda>(taken, q').
     let wasDataPredicted = (taken \<noteq> None);
         g1 = (fst s)\<lparr>g_completedWrites := um_put paddr q' (g_completedWrites (fst s))\<rparr>;
         fresh = CompletedWriteEntry_default now in
     bindE (case taken of
              Some e \<Rightarrow> Inr e
            | None \<Rightarrow> (case q' of
                [] \<Rightarrow> Inr (cw_set_time_of_data_gen now (cw_set_time_of_addr_gen now fresh))
              | x # _ \<Rightarrow> bindE (cw_get_addr x) (\<lambda>a. bindE (cw_get_time_of_addr_gen x) (\<lambda>t.
                  Inr (cw_set_time_of_addr_gen t (cw_set_addr a fresh)))))) (\<lambda>e.
     let n = (case um_find (g_addrMatches g1) paddr of None \<Rightarrow> 0 | Some n \<Rightarrow> n);
         g2 = g1\<lparr>g_addrMatches := um_index 0 paddr (g_addrMatches g1)\<rparr> in
     emulateBMOSlowdown env now pkt e (wasAddrPredicted \<or> n > 0) wasDataPredicted (g2, snd s))))"

section \<open>Pending predictions\<close>

definition check_pending :: "MetaCfg \<Rightarrow> CompletedWriteEntry \<Rightarrow> Globals \<Rightarrow> Globals res" where
  "check_pending cfg pe g =
     bindE (cw_get_addr pe) (\<lambda>a.
     bindE (readCounterCache cfg a (g_meta g)) (\<lambda>(_, m).
     bindE (readVerificationCache_entry cfg pe m) (\<lambda>m'.
     Inr (g\<lparr>g_meta := m', g_pendingPredictionQueue := tl (g_pendingPredictionQueue g)\<rparr>))))"

definition checkPendingPredictionQueue :: "MetaCfg \<Rightarrow> Globals \<times> BmoState \<Rightarrow> (Globals \<times> BmoState) res" where
  "checkPendingPredictionQueue cfg s =
     bindE (fold_res (check_pending cfg) (g_pendingPredictionQueue (fst s)) (fst s)) (\<lambda>g.
     Inr (g, (snd s)\<lparr>bm_pendingPredictionQueueChecks := bm_pendingPredictionQueueChecks (snd s) + 1\<rparr>))"

section \<open>What a write costs\<close>

text \<open>The tick at which a write is ready, over unbounded numbers.\<close>

definition ev_ready :: "bool \<Rightarrow> nat \<Rightarrow> nat \<Rightarrow> nat \<Rightarrow> nat" where
  "ev_ready hit misses a d = max (a + 40000 * (14 + (if hit then 0 else 1) + misses)) (max (a + 40000) d + 40000)"

definition dw_ready :: "bool \<Rightarrow> nat \<Rightarrow> nat \<Rightarrow> nat" where
  "dw_ready hit a d = max a (d + 300000 + (if hit then 0 else 40000))"

definition ready :: "BmoState \<Rightarrow> Packet \<Rightarrow> nat \<Rightarrow> nat \<Rightarrow> nat" where
  "ready s pkt a d = (if bm_isEVEnabled s then ev_ready (pk_counterCacheHit pkt) (unat (pk_verificationCacheMisses pkt)) a d
     else if bm_isDWEnabled s then dw_ready (pk_counterCacheHit pkt) a d else 0)"

lemma unat_max: "unat (max x y) = max (unat x) (unat (y :: 'w::len word))"
  by (simp add: max_def word_le_nat_alt)

lemma unat_add_small: "unat x + unat y < 2 ^ 64 \<Longrightarrow> unat (x + y) = unat x + unat (y :: 64 word)"
  by (simp add: unat_word_ariths)

lemma unat_mult_small: "unat x * unat y < 2 ^ 64 \<Longrightarrow> unat (x * y) = unat x * unat (y :: 64 word)"
  by (simp add: unat_word_ariths)

lemma ev_finish_ready:
  assumes "unat a < 2 ^ 63" and "unat d < 2 ^ 63" and "unat misses \<le> 12"
  shows "unat (ev_finish hit misses a d) = ev_ready hit (unat misses) (unat a) (unat d)"
proof -
  have m: "unat (misses * 40000) = unat misses * 40000" using assms(3) unat_mult_small [of misses 40000] by simp
  have c: "unat (560000 + misses * 40000) = 560000 + unat misses * 40000" "unat (600000 + misses * 40000) = 600000 + unat misses * 40000"
    using assms(3) m unat_add_small [of 560000 "misses * 40000"] unat_add_small [of 600000 "misses * 40000"] by simp_all
  have ad: "unat (a + 40000) = unat a + 40000" using assms(1) unat_add_small [of a 40000] by simp
  have mx: "unat (max (a + 40000) d + 40000) = max (unat a + 40000) (unat d) + 40000"
    using assms(1,2) ad unat_add_small [of "max (a + 40000) d" 40000] by (simp add: unat_max)
  have t: "unat (560000 + misses * 40000 + a) = 560000 + unat misses * 40000 + unat a"
    "unat (600000 + misses * 40000 + a) = 600000 + unat misses * 40000 + unat a"
    using assms c unat_add_small [of "560000 + misses * 40000" a] unat_add_small [of "600000 + misses * 40000" a] by simp_all
  show ?thesis unfolding ev_finish_def ev_ready_def Let_def unat_max mx using t by (simp add: algebra_simps)
qed

lemma dw_finish_ready:
  assumes "unat d < 2 ^ 63"
  shows "unat (dw_finish hit a d) = dw_ready hit (unat a) (unat d)"
proof -
  have "unat (d + 300000) = unat d + 300000" "unat (d + 340000) = unat d + 340000"
    using assms unat_add_small [of d 300000] unat_add_small [of d 340000] by simp_all
  then show ?thesis by (simp add: dw_finish_def dw_ready_def Let_def unat_max add.assoc)
qed

lemma remaining_eq: "unat (fst (remaining now t s)) = unat t - unat now"
  by (auto simp: remaining_def word_less_nat_alt unat_sub_if')

text \<open>The operations never fail when both times are known and only one mode is on.\<close>

definition timed :: "Tick \<Rightarrow> Packet \<Rightarrow> BmoState \<Rightarrow> bool" where
  "timed now pkt s = (\<not> (bm_isEVEnabled s \<and> bm_isDWEnabled s) \<and> unat now < 2 ^ 63 \<and> unat (pk_verificationCacheMisses pkt) \<le> 12)"

text \<open>A time counts from now when the environment switches the benefit of its prediction off.\<close>

definition perf_addr :: "environ \<Rightarrow> Tick \<Rightarrow> Tick \<Rightarrow> Tick" where
  "perf_addr env now a = (if get_env_val env ''DISABLE_ADDR_PRED_PERF'' then now else a)"

definition perf_data :: "environ \<Rightarrow> Tick \<Rightarrow> Tick \<Rightarrow> Tick" where
  "perf_data env now d = (if get_env_val env ''DISABLE_DATA_PRED_PERF'' then now else d)"

lemma perf_le: "a \<le> now \<Longrightarrow> perf_addr env now a \<le> now" "d \<le> now \<Longrightarrow> perf_data env now d \<le> now"
  by (simp_all add: perf_addr_def perf_data_def)

lemma getWriteLatency_run:
  assumes t: "timed now pkt s" and rd: "cw_get_time_of_addr_gen e = Inr ta" "cw_get_time_of_data_gen e = Inr td"
    and le: "ta \<le> now" "td \<le> now"
  shows "\<exists>r s'. getWriteLatency env now pkt e ap dp s = Inr (r, s') \<and>
    unat r = ready s pkt (unat (perf_addr env now ta)) (unat (perf_data env now td)) - unat now"
proof -
  define a where "a = perf_addr env now ta"
  define d where "d = perf_data env now td"
  have small: "unat a < 2 ^ 63" "unat d < 2 ^ 63"
    using t perf_le(1) [OF le(1), of env] perf_le(2) [OF le(2), of env] by (auto simp: a_def d_def timed_def word_le_nat_alt)
  have m: "unat (pk_verificationCacheMisses pkt) \<le> 12" using t by (simp add: timed_def)
  have ev: "unat (fst (remaining now (ev_finish (pk_counterCacheHit pkt) (pk_verificationCacheMisses pkt) a d) s0)) =
      ev_ready (pk_counterCacheHit pkt) (unat (pk_verificationCacheMisses pkt)) (unat a) (unat d) - unat now" for s0
    unfolding remaining_eq ev_finish_ready [OF small m] ..
  have dw: "unat (fst (remaining now (dw_finish (pk_counterCacheHit pkt) a d) s0)) = dw_ready (pk_counterCacheHit pkt) (unat a) (unat d) - unat now" for s0
    unfolding remaining_eq dw_finish_ready [OF small(2)] ..
  note seen = a_def [unfolded perf_addr_def, symmetric] d_def [unfolded perf_data_def, symmetric]
  consider "bm_isEVEnabled s" "\<not> bm_isDWEnabled s" | "\<not> bm_isEVEnabled s" "bm_isDWEnabled s" | "\<not> bm_isEVEnabled s" "\<not> bm_isDWEnabled s"
    using t by (auto simp: timed_def)
  then have "\<exists>r s'. getWriteLatency env now pkt e ap dp s = Inr (r, s') \<and> unat r = ready s pkt (unat a) (unat d) - unat now"
  proof cases
    case 1
    then show ?thesis using rd ev by (simp add: getWriteLatency_def seen ready_def Let_def case_prod_unfold)
  next
    case 2
    then show ?thesis using rd dw by (simp add: getWriteLatency_def seen ready_def Let_def case_prod_unfold)
  next
    case 3
    then show ?thesis using rd by (simp add: getWriteLatency_def seen ready_def Let_def)
  qed
  then show ?thesis by (simp add: a_def d_def)
qed

lemma ready_mono: "a \<le> a' \<Longrightarrow> d \<le> d' \<Longrightarrow> ready s pkt a d \<le> ready s pkt a' d'"
  by (auto simp: ready_def ev_ready_def dw_ready_def)

definition eff_addr :: "Tick \<Rightarrow> bool \<Rightarrow> CompletedWriteEntry \<Rightarrow> Tick" where
  "eff_addr now ap e = (if ap then cw_timeOfAddrGen e else now)"

definition eff_data :: "Tick \<Rightarrow> bool \<Rightarrow> bool \<Rightarrow> CompletedWriteEntry \<Rightarrow> Tick" where
  "eff_data now ap dp e = (if ap \<and> dp then cw_timeOfDataGen e else now)"

lemma cw_time_pair:
  "cw_get_time_of_addr_gen (cw_set_time_of_data_gen d e) = cw_get_time_of_addr_gen e"
  "cw_get_time_of_data_gen (cw_set_time_of_addr_gen a e) = cw_get_time_of_data_gen e"
  by (simp_all add: cw_defs is_flag_set_set) (simp_all add: is_flag_set_def)

lemma emulate_run:
  assumes t: "timed now pkt (snd s)" and p: "getPaddr (pk_req pkt) = Inr paddr"
    and a: "ap \<longrightarrow> cw_get_time_of_addr_gen e = Inr (cw_timeOfAddrGen e) \<and> cw_timeOfAddrGen e \<le> now"
    and d: "ap \<and> dp \<longrightarrow> cw_get_time_of_data_gen e = Inr (cw_timeOfDataGen e) \<and> cw_timeOfDataGen e \<le> now"
  shows "\<exists>l s'. emulateBMOSlowdown env now pkt e ap dp s =
      Inr ((fst s)\<lparr>g_clwbLatency := um_put paddr l (g_clwbLatency (fst s))\<rparr>, s') \<and>
    unat l = ready (snd s) pkt (unat (perf_addr env now (eff_addr now ap e))) (unat (perf_data env now (eff_data now ap dp e))) - unat now"
proof -
  let ?s1 = "(snd s)\<lparr>bm_BMOLatencyEmulationCount := bm_BMOLatencyEmulationCount (snd s) + 1\<rparr>"
  let ?e1 = "if ap then e else cw_set_time_of_addr_gen now (cw_set_time_of_data_gen now e)"
  let ?e2 = "if dp then ?e1 else cw_set_time_of_data_gen now ?e1"
  have t1: "timed now pkt ?s1" and rd: "ready ?s1 = ready (snd s)"
    using t by (simp_all add: timed_def ready_def fun_eq_iff)
  have e2: "cw_get_time_of_addr_gen ?e2 = Inr (eff_addr now ap e)" "cw_get_time_of_data_gen ?e2 = Inr (eff_data now ap dp e)"
    using a d by (auto simp: eff_addr_def eff_data_def cw_time_pair cw_addr_time.get_set cw_data_time.get_set)
  have le: "eff_addr now ap e \<le> now" "eff_data now ap dp e \<le> now" using a d by (auto simp: eff_addr_def eff_data_def)
  from getWriteLatency_run [OF t1 e2 le, of env ap dp] show ?thesis
    using p unfolding rd by (auto simp: emulateBMOSlowdown_def Let_def)
qed

section \<open>The handler of a write\<close>

definition used_match :: "Addr_t \<Rightarrow> DataChunk list \<Rightarrow> CompletedWriteEntry \<Rightarrow> bool" where
  "used_match paddr ds e = (cw_used e \<and> agrees paddr ds e)"

lemma bmo_scan_ok:
  assumes "list_all entry_ok es" and "line_write pkt paddr ds"
  shows "bmo_scan pkt es = Inr (list_ex (used_match paddr ds) es)"
  using assms(1)
proof (induction es)
  case (Cons e es)
  then show ?case using assms(2)
    by (auto simp: entry_ok_reads equal_addr_ok equal_entry_ok used_match_def cw_is_used_def) (auto simp: agrees_def)
qed simp

lemma bmo_take_ok:
  assumes "list_all entry_ok q" and "line_write pkt paddr ds"
  shows "bmo_take pkt q = Inr (if list_ex (used_match paddr ds) q then (Some (hd q), tl q) else (None, q))"
proof -
  have "bmo_scan pkt (rev q) = Inr (list_ex (used_match paddr ds) q)"
    using bmo_scan_ok [of "rev q"] assms by (simp add: list_ex_iff list_all_iff)
  then show ?thesis by (cases q) (auto simp: bmo_take_def)
qed

text \<open>The times that the line of a write offers: those of its oldest prediction, the data only when some used
  prediction agrees with the write, and the present otherwise.  The write is charged with them unless the
  environment switches the benefit of the predictions off.\<close>

definition line_addr :: "Tick \<Rightarrow> CompletedWriteEntry list \<Rightarrow> Tick" where
  "line_addr now q = (case q of [] \<Rightarrow> now | e # _ \<Rightarrow> cw_timeOfAddrGen e)"

definition line_data :: "Tick \<Rightarrow> Addr_t \<Rightarrow> DataChunk list \<Rightarrow> CompletedWriteEntry list \<Rightarrow> Tick" where
  "line_data now paddr ds q = (if list_ex (used_match paddr ds) q then cw_timeOfDataGen (hd q) else now)"

definition charged_addr :: "environ \<Rightarrow> Tick \<Rightarrow> CompletedWriteEntry list \<Rightarrow> Tick" where
  "charged_addr env now q = perf_addr env now (line_addr now q)"

definition charged_data :: "environ \<Rightarrow> Tick \<Rightarrow> Addr_t \<Rightarrow> DataChunk list \<Rightarrow> CompletedWriteEntry list \<Rightarrow> Tick" where
  "charged_data env now paddr ds q = perf_data env now (line_data now paddr ds q)"

definition past_line :: "Tick \<Rightarrow> CompletedWriteEntry list \<Rightarrow> bool" where
  "past_line now q = list_all (\<lambda>e. entry_ok e \<and> cw_timeOfAddrGen e \<le> now \<and> cw_timeOfDataGen e \<le> now) q"

definition handled :: "Addr_t \<Rightarrow> CompletedWriteEntry list \<Rightarrow> Tick \<Rightarrow> Globals \<Rightarrow> Globals" where
  "handled paddr q l g = g\<lparr>g_completedWrites := um_put paddr q (g_completedWrites g),
     g_addrMatches := um_index 0 paddr (g_addrMatches g), g_clwbLatency := um_put paddr l (g_clwbLatency g)\<rparr>"

lemma line_times_le: "past_line now q \<Longrightarrow> line_addr now q \<le> now" "past_line now q \<Longrightarrow> line_data now paddr ds q \<le> now"
  by (cases q; auto simp: past_line_def line_addr_def line_data_def)+

lemma charged_le: "past_line now q \<Longrightarrow> charged_addr env now q \<le> now" "past_line now q \<Longrightarrow> charged_data env now paddr ds q \<le> now"
  by (simp_all add: charged_addr_def charged_data_def perf_le line_times_le)

lemma cw_timed_default:
  "cw_timeOfAddrGen (cw_set_time_of_addr_gen t e) = t" "cw_timeOfAddrGen (cw_set_time_of_data_gen t e) = cw_timeOfAddrGen e"
  "cw_timeOfAddrGen (cw_set_addr b e) = cw_timeOfAddrGen e" "cw_timeOfDataGen (cw_set_time_of_data_gen t e) = t"
  by (simp_all add: cw_defs)

definition charge_entry :: "Tick \<Rightarrow> bool \<Rightarrow> CompletedWriteEntry list \<Rightarrow> CompletedWriteEntry" where
  "charge_entry now m q = (if m then hd q else (case q of
       [] \<Rightarrow> cw_set_time_of_data_gen now (cw_set_time_of_addr_gen now (CompletedWriteEntry_default now))
     | x # _ \<Rightarrow> cw_set_time_of_addr_gen (cw_timeOfAddrGen x) (cw_set_addr (cw_addr x) (CompletedWriteEntry_default now))))"

lemma charge_entry_ok:
  assumes past: "past_line now q" and m: "m \<longrightarrow> q \<noteq> []"
  shows "cw_get_time_of_addr_gen (charge_entry now m q) = Inr (cw_timeOfAddrGen (charge_entry now m q))"
    "cw_timeOfAddrGen (charge_entry now m q) = line_addr now q"
    "m \<Longrightarrow> cw_get_time_of_data_gen (charge_entry now m q) = Inr (cw_timeOfDataGen (hd q))"
  using assms by (cases q; auto simp: charge_entry_def line_addr_def past_line_def cw_time_pair cw_addr_time.get_set cw_timed_default entry_ok_reads)+

lemma handle_write_step:
  assumes lw: "line_write pkt paddr ds" and past: "past_line now q" and q: "line_of g paddr = q"
    and m: "m = list_ex (used_match paddr ds) q"
  shows "BMOHandleWriteRequest env now pkt (g, s) =
    emulateBMOSlowdown env now pkt (charge_entry now m q)
      (q \<noteq> [] \<or> (case um_find (g_addrMatches g) paddr of None \<Rightarrow> 0 | Some n \<Rightarrow> n) > 0) m
      (g\<lparr>g_completedWrites := um_put paddr (if m then tl q else q) (g_completedWrites g),
         g_addrMatches := um_index 0 paddr (g_addrMatches g)\<rparr>, s)"
proof -
  have p: "getPaddr (pk_req pkt) = Inr paddr" using lw by (rule line_write_reads)
  have lq: "(case um_find (g_completedWrites g) paddr of None \<Rightarrow> [] | Some q \<Rightarrow> q) = q" using q by (simp add: line_of_def)
  have ok: "list_all entry_ok q" using past by (simp add: past_line_def list_all_iff)
  have take: "bmo_take pkt q = Inr (if m then (Some (hd q), tl q) else (None, q))" using bmo_take_ok [OF ok lw] m by simp
  show ?thesis
  proof (cases q)
    case Nil
    then show ?thesis using m by (simp add: BMOHandleWriteRequest_def p lq Let_def charge_entry_def)
  next
    case (Cons x xs)
    then have "entry_ok x" using ok by simp
    then show ?thesis using Cons take
      by (cases m) (simp_all add: BMOHandleWriteRequest_def p lq Let_def charge_entry_def entry_ok_reads)
  qed
qed

lemma handle_write_run:
  assumes lw: "line_write pkt paddr ds" and past: "past_line now q" and q: "line_of g paddr = q"
    and t: "timed now pkt s"
  shows "\<exists>l s'. BMOHandleWriteRequest env now pkt (g, s) =
      Inr (handled paddr (if list_ex (used_match paddr ds) q then tl q else q) l g, s') \<and>
    unat l = ready s pkt (unat (charged_addr env now q)) (unat (charged_data env now paddr ds q)) - unat now"
proof -
  define m where "m = list_ex (used_match paddr ds) q"
  define ap where "ap = (q \<noteq> [] \<or> (case um_find (g_addrMatches g) paddr of None \<Rightarrow> 0 | Some n \<Rightarrow> n) > 0)"
  define e where "e = charge_entry now m q"
  let ?g2 = "g\<lparr>g_completedWrites := um_put paddr (if m then tl q else q) (g_completedWrites g),
         g_addrMatches := um_index 0 paddr (g_addrMatches g)\<rparr>"
  have p: "getPaddr (pk_req pkt) = Inr paddr" using lw by (rule line_write_reads)
  have mq: "m \<longrightarrow> q \<noteq> []" by (auto simp: m_def)
  note e_ok = charge_entry_ok [OF past mq, folded e_def]
  have dm: "m \<Longrightarrow> cw_timeOfDataGen e = line_data now paddr ds q" by (simp add: e_def charge_entry_def line_data_def m_def)
  have a: "ap \<longrightarrow> cw_get_time_of_addr_gen e = Inr (cw_timeOfAddrGen e) \<and> cw_timeOfAddrGen e \<le> now"
    using e_ok(1,2) line_times_le(1) [OF past] by simp
  have d: "ap \<and> m \<longrightarrow> cw_get_time_of_data_gen e = Inr (cw_timeOfDataGen e) \<and> cw_timeOfDataGen e \<le> now"
    using e_ok(3) dm line_times_le(2) [OF past, of paddr ds] by (auto simp: line_data_def m_def split: if_splits)
  have "eff_addr now ap e = line_addr now q" using e_ok(2) by (cases q) (auto simp: eff_addr_def ap_def line_addr_def)
  moreover have "eff_data now ap m e = line_data now paddr ds q"
    using dm mq by (auto simp: eff_data_def ap_def line_data_def m_def)
  ultimately show ?thesis
    using emulate_run [OF _ p a d, of "(?g2, s)"] t handle_write_step [OF lw past q m_def, folded e_def ap_def]
    by (auto simp: handled_def m_def charged_addr_def charged_data_def)
qed

text \<open>C8: A write of a whole aligned line of persistent memory at the memory controller gets a latency.  It is
  assumed that at most one of the two modes is on, that the predictions buffered for the line are well-formed
  and made at or before the present tick, that this tick is below \<open>2 ^ 63\<close> and that the verification cache was
  missed at most twelve times.  The latency is the time from now until the chains of operations are finished,
  over unbounded numbers: no 64-bit sum wraps.  The chains start at the times that the oldest prediction of
  the line offers, and at the present where there is none; \<open>DISABLE_ADDR_PRED_PERF\<close> and
  \<open>DISABLE_DATA_PRED_PERF\<close> make the address and the data chain start at the present.  The latency is never more
  than what an unpredicted write pays.  The line keeps its predictions, except that when a used prediction
  agrees with the write, its oldest prediction goes; no other line changes.\<close>

theorem bmo_write_latency:
  assumes "line_write pkt paddr ds" and "past_line now q" and "line_of g paddr = q" and "timed now pkt s"
  shows "\<exists>l s'. BMOHandleWriteRequest env now pkt (g, s) =
      Inr (handled paddr (if list_ex (used_match paddr ds) q then tl q else q) l g, s') \<and>
    unat l = ready s pkt (unat (charged_addr env now q)) (unat (charged_data env now paddr ds q)) - unat now \<and>
    unat l \<le> ready s pkt (unat now) (unat now) - unat now"
proof -
  have "unat (charged_addr env now q) \<le> unat now" "unat (charged_data env now paddr ds q) \<le> unat now"
    using charged_le [OF assms(2)] by (simp_all add: word_le_nat_alt)
  then have "ready s pkt (unat (charged_addr env now q)) (unat (charged_data env now paddr ds q)) - unat now \<le> ready s pkt (unat now) (unat now) - unat now"
    by (intro diff_le_mono ready_mono)
  then show ?thesis using handle_write_run [OF assms, of env] by fastforce
qed

section \<open>A write that was not predicted, and the next prediction\<close>

lemma evict_line_other:
  assumes "list_all entry_ok (line_of g b)" and "entry_ok e"
  shows "\<exists>g'. evict_line b (push_completed b e g) = Inr g' \<and>
    (\<forall>a. a \<noteq> b \<longrightarrow> um_find (g_completedWrites g') a = um_find (g_completedWrites g) a)"
proof -
  have p: "push_completed b e g = g\<lparr>g_completedWrites := um_put b (line_of g b @ [e]) (g_completedWrites g)\<rparr>"
    by (simp add: push_completed_def line_of_def)
  obtain x xs where x: "line_of g b @ [e] = x # xs" by (cases "line_of g b @ [e]") auto
  then have "entry_ok x" using assms by (cases "line_of g b") auto
  then show ?thesis unfolding p x
    by (simp add: evict_line_def um_at_def um_find_put broadcastPrediction_def entry_ok_reads)
qed

lemma remove_empty_undefined:
  "um_find (g_completedWrites g) a = Some [] \<Longrightarrow> remove_empty g = Inl (Undefined ''pop_front in a range-based loop'')"
  by (force simp: remove_empty_def list_ex_iff um_find_def dest: map_of_SomeD)

text \<open>C21: The write of a line without a prediction leaves an empty queue behind, since the controller reads
  the buffer with \<open>operator[]\<close>.  The next prediction of another line then finds that queue and runs into
  the loop that pops the container it iterates over.\<close>

theorem unpredicted_write_spoils_buffer:
  assumes inv: "be_inv g" and lw: "line_write pkt paddr ds" and none: "um_find (g_completedWrites g) paddr = None"
    and t: "timed now pkt s"
    and e: "entry_ok e" and cfg: "cfg_ok cfg" and use: "g_usePredictor g"
    and tr: "translate pt (cw_addr e) = Some b" and ne: "b \<noteq> paddr"
  shows "\<exists>g' s'. BMOHandleWriteRequest env now pkt (g, s) = Inr (g', s') \<and>
    um_find (g_completedWrites g') paddr = Some [] \<and>
    addCompletedWrite later cfg pt e g' = Inl (Undefined ''pop_front in a range-based loop'')"
proof -
  have q: "line_of g paddr = []" "past_line now []" using none by (simp_all add: line_of_def past_line_def)
  from handle_write_run [OF lw q(2,1) t, of env] obtain l s' where
    r: "BMOHandleWriteRequest env now pkt (g, s) = Inr (handled paddr [] l g, s')" by auto
  let ?g' = "handled paddr [] l g" and ?g1 = "incr_addrMatches b (handled paddr [] l g)"
  from translate_entry_ok [OF e cfg, of b ?g1] obtain e' where e': "translate_entry cfg b e ?g1 = Inr e'" "entry_ok e'" by blast
  let ?g0 = "?g1\<lparr>g_pendingPredictionQueue := g_pendingPredictionQueue ?g1 @ [e']\<rparr>"
  have empty: "um_find (g_completedWrites ?g') paddr = Some []" by (simp add: handled_def um_find_put)
  have "line_of ?g0 b = line_of g b" using ne by (simp add: line_of_def handled_def incr_addrMatches_def um_find_put)
  moreover have "list_all entry_ok (line_of g b)" using inv by (auto simp: line_of_def be_inv_def line_ok_def split: option.splits)
  ultimately have ok: "list_all entry_ok (line_of ?g0 b)" by simp
  from evict_line_other [OF ok e'(2)] obtain g2 where ev: "evict_line b (push_completed b e' ?g0) = Inr g2"
    "um_find (g_completedWrites g2) paddr = Some []" using empty ne by (auto simp: incr_addrMatches_def)
  have "addCompletedWrite later cfg pt e ?g' = Inl (Undefined ''pop_front in a range-based loop'')"
    using use tr e'(1) ev(1) remove_empty_undefined [OF ev(2)] entry_ok_reads(1) [OF e]
    by (simp add: addCompletedWrite_def Let_def handled_def)
  then show ?thesis using r empty by blast
qed

section \<open>Examples\<close>

definition example_env :: environ where
  "example_env name = (if name = ''ENABLE_EV'' then Some ''1'' else None)"

lemma example_timed: "timed 9 (example_write 5) (mk_BmoState example_env)"
  by (simp add: timed_def mk_BmoState_def example_env_def get_env_val_def example_write_def example_pkt_def packet_defs)

lemma example_past: "past_line 9 [example_prediction 0x300001000]"
  by (simp add: past_line_def example_prediction_ok) (simp add: example_prediction_def Let_def cw_defs mk_CompletedWriteEntry_def)

theorem bmo_write_latency_witness:
  "\<exists>l g' s'. BMOHandleWriteRequest example_env 9 (example_write 5) (example_globals, mk_BmoState example_env) = Inr (g', s') \<and>
     um_find (g_clwbLatency g') 0x300001000 = Some l \<and> unat l = 599993 \<and>
     um_find (g_completedWrites g') 0x300001000 = Some [example_prediction 0x300001000]"
proof -
  have q: "line_of example_globals 0x300001000 = [example_prediction 0x300001000]" by (simp add: line_of_def example_globals_line)
  have n: "\<not> list_ex (used_match 0x300001000 (5 # replicate 15 0)) [example_prediction 0x300001000]"
    using example_prediction_simps(3) by (simp add: used_match_def)
  have "ready (mk_BmoState example_env) (example_write 5) 2 9 - 9 = 599993"
    by (simp add: ready_def ev_ready_def mk_BmoState_def example_env_def get_env_val_def example_write_def example_pkt_def packet_defs)
  moreover have "charged_addr example_env 9 [example_prediction 0x300001000] = 2"
    by (simp add: charged_addr_def perf_addr_def line_addr_def example_env_def get_env_val_def example_prediction_def Let_def cw_defs mk_CompletedWriteEntry_def)
  ultimately show ?thesis
    using bmo_write_latency [OF example_write_line example_past q example_timed, of example_env] n
    by (auto simp: handled_def um_find_put charged_data_def perf_data_def line_data_def)
qed

theorem unpredicted_write_spoils_buffer_witness:
  "\<exists>g' s'. BMOHandleWriteRequest example_env 9 (example_write 5) (Globals_init\<lparr>g_usePredictor := True\<rparr>, mk_BmoState example_env) = Inr (g', s') \<and>
     um_find (g_completedWrites g') 0x300001000 = Some [] \<and>
     addCompletedWrite 20 example_cfg \<lparr>em_pTable = [(0x10000000000, \<lparr>en_paddr = 0x300002000, en_flags = 0\<rparr>)], em_bits = 12\<rparr>
       (example_prediction 0x10000000000) g' = Inl (Undefined ''pop_front in a range-based loop'')"
proof -
  let ?pt = "\<lparr>em_pTable = [(0x10000000000, \<lparr>en_paddr = 0x300002000, en_flags = 0\<rparr>)], em_bits = 12\<rparr>"
  let ?g = "Globals_init\<lparr>g_usePredictor := True\<rparr>"
  have inv: "be_inv ?g" by (auto simp: Globals_init_def be_inv_def learn_ok_def conf_table_ok_def pc_conf_ok_def tracker_ok_def um_wf_def um_find_def)
  have none: "um_find (g_completedWrites ?g) 0x300001000 = None" "g_usePredictor ?g" by (simp_all add: Globals_init_def um_find_def)
  have tr: "translate ?pt (cw_addr (example_prediction 0x10000000000)) = Some 0x300002000" unfolding example_prediction_simps by code_simp
  have ne: "(0x300002000 :: Addr_t) \<noteq> 0x300001000" by simp
  show ?thesis
    by (rule unpredicted_write_spoils_buffer [OF inv example_write_line none(1) example_timed
          example_prediction_ok example_cfg_ok none(2) tr ne])
qed

end
