(* ===== verification/Full_System.thy ===== *)
theory Full_System
imports Predictor_System Frontend_Ports BMO
begin

text \<open>
  The two predictors with their ports and the controller's handling of a write.  The front end and the back
  end are bridges, each between peers of its own, that run on one shared state; the controller leaves there
  the latencies that the front end adds to the responses of write-backs.  The processor, the caches between
  the two predictors and the passing of time are the environment.  The guard of \<open>lastPredictorTick\<close> gives the
  front end its one request per tick.
\<close>

section \<open>The system\<close>

record FullSys =
  fu_front :: "FrontState Sys"
  fu_back :: "(Globals \<times> Backend) Sys"
  fu_bmo :: BmoState

datatype FullAction =
    Front "(World, EmulationPageTable) Action"
  | Back "(environ \<times> hash_t, unit) Action"
  | Ctrl environ Tick Packet
  | Switch bool

definition set_front :: "Globals \<Rightarrow> FrontState Sys \<Rightarrow> FrontState Sys" where
  "set_front g f = f\<lparr>sy_gs := ((g, snd (fst (sy_gs f))), snd (sy_gs f))\<rparr>"

definition set_back :: "Globals \<Rightarrow> (Globals \<times> Backend) Sys \<Rightarrow> (Globals \<times> Backend) Sys" where
  "set_back g b = b\<lparr>sy_gs := (g, snd (sy_gs b))\<rparr>"

record FullCfg =
  fl_front :: BridgeCfg
  fl_back :: BridgeCfg
  fl_fc :: FeCfg
  fl_meta :: MetaCfg

definition full_step :: "FullCfg \<Rightarrow> FullAction \<Rightarrow> FullSys \<Rightarrow> FullSys res" where
  "full_step c a s = (case a of
       Front x \<Rightarrow> bindE (port_step (front_ports (fl_front c) (fl_fc c)) x (fu_front s)) (\<lambda>f.
         Inr (s\<lparr>fu_front := f, fu_back := set_back (fst (fst (sy_gs f))) (fu_back s)\<rparr>))
     | Back x \<Rightarrow> bindE (port_step (back_ports (fl_back c)) x (fu_back s)) (\<lambda>b.
         Inr (s\<lparr>fu_front := set_front (fst (sy_gs b)) (fu_front s), fu_back := b\<rparr>))
     | Ctrl env now pkt \<Rightarrow> bindE (BMOHandleWriteRequest env now pkt (fst (sy_gs (fu_back s)), fu_bmo s)) (\<lambda>(g, bm).
         Inr \<lparr>fu_front = set_front g (fu_front s), fu_back = set_back g (fu_back s), fu_bmo = bm\<rparr>)
     | Switch on \<Rightarrow> let g = (if on then workbegin else workend) (fst (sy_gs (fu_back s))) in
         Inr (s\<lparr>fu_front := set_front g (fu_front s), fu_back := set_back g (fu_back s)\<rparr>))"

definition full_init :: "FullCfg \<Rightarrow> environ \<Rightarrow> (nat \<Rightarrow> nat) \<Rightarrow> string \<Rightarrow> nat \<Rightarrow> nat \<Rightarrow> FullSys" where
  "full_init c env scale nm whbSize pendSize =
     \<lparr>fu_front = Sys_init ((fst (mk_PredictorBackend env scale Globals_init),
        mk_Frontend (fl_fc c) nm whbSize (mk_PendingTable (nm @ ''.pend_t'') pendSize env)), 0),
      fu_back = Sys_init (mk_PredictorBackend env scale Globals_init), fu_bmo = mk_BmoState env\<rparr>"

section \<open>What the environment may do\<close>

text \<open>A response carries a request with a size and a virtual address when it goes to the point of coherence, and
  the page table maps the address of a write-back, as it did when the request was made.\<close>

definition response_ok :: "EmulationPageTable \<Rightarrow> Packet \<Rightarrow> bool" where
  "response_ok pt pkt = (isToPOC (pk_req pkt) \<longrightarrow> (\<exists>n va. req_getSize (pk_req pkt) = Inr n \<and> getVaddr (pk_req pkt) = Inr va \<and>
     (n = 1 \<and> is_vaddr_pm va \<longrightarrow> (\<exists>a. translate pt va = Some a \<and> a \<noteq> 0))))"

text \<open>What the backend operations of a write take at most: a miss of the counter cache and twelve misses of the
  verification cache.\<close>

definition max_latency :: nat where
  "max_latency = 1080000"

definition sent_front :: "FullCfg \<Rightarrow> (PC_t \<Rightarrow> nat) \<Rightarrow> (FrontState, World, EmulationPageTable) Ports" where
  "sent_front c sz = (front_ports (fl_front c) (fl_fc c))\<lparr>
     po_reqOk := (\<lambda>w now edge pkt _. now \<le> clockEdge (fl_front c) edge (bc_delay (fl_front c)) + receive_delay pkt \<and>
        \<not> cacheResponding pkt \<and> world_ok w \<and> w_meta w = fl_meta c \<and> request_ok sz pkt),
     po_respOk := (\<lambda>pt now edge pkt _. now \<le> clockEdge (fl_front c) edge (bc_delay (fl_front c)) + receive_delay pkt \<and>
        unat (clockEdge (fl_front c) edge (bc_delay (fl_front c)) + receive_delay pkt) + max_latency < 2 ^ 64 \<and> response_ok pt pkt)\<rparr>"

definition sent_back :: "FullCfg \<Rightarrow> (Globals \<times> Backend, environ \<times> hash_t, unit) Ports" where
  "sent_back c = (back_ports (fl_back c))\<lparr>
     po_reqOk := (\<lambda>_ now edge pkt _. now \<le> clockEdge (fl_back c) edge (bc_delay (fl_back c)) + receive_delay pkt \<and>
        \<not> cacheResponding pkt \<and> back_ok pkt)\<rparr>"

text \<open>The controller sees writes of whole lines, not before the predictions of the line were made.  Its write
  handler leaves an empty queue behind when it takes the last prediction of a line or finds none, and then
  the result buffer is ill-formed; it is followed here only while a prediction of the line stays.\<close>

definition ctrl_ok :: "Globals \<Rightarrow> BmoState \<Rightarrow> Tick \<Rightarrow> Packet \<Rightarrow> bool" where
  "ctrl_ok g bm now pkt = (\<exists>paddr ds. line_write pkt paddr ds \<and> timed now pkt bm \<and>
     list_all (\<lambda>e. cw_timeOfAddrGen e \<le> now \<and> cw_timeOfDataGen e \<le> now) (line_of g paddr) \<and>
     (if list_ex (used_match paddr ds) (line_of g paddr) then tl (line_of g paddr) else line_of g paddr) \<noteq> [])"

definition full_enabled :: "FullCfg \<Rightarrow> (PC_t \<Rightarrow> nat) \<Rightarrow> FullAction \<Rightarrow> FullSys \<Rightarrow> bool" where
  "full_enabled c sz a s = (case a of
       Front x \<Rightarrow> port_enabled (sent_front c sz) x (fu_front s)
     | Back x \<Rightarrow> port_enabled (sent_back c) x (fu_back s)
     | Ctrl env now pkt \<Rightarrow> ctrl_ok (fst (sy_gs (fu_back s))) (fu_bmo s) now pkt
     | Switch on \<Rightarrow> True)"

inductive full_reach :: "FullCfg \<Rightarrow> (PC_t \<Rightarrow> nat) \<Rightarrow> FullSys \<Rightarrow> nat \<Rightarrow> FullSys \<Rightarrow> bool" for c sz s0 where
  start: "full_reach c sz s0 0 s0"
| step: "full_reach c sz s0 n s \<Longrightarrow> full_enabled c sz a s \<Longrightarrow> full_step c a s = Inr t \<Longrightarrow> full_reach c sz s0 (Suc n) t"

section \<open>The invariant\<close>

definition latencies_ok :: "Globals \<Rightarrow> bool" where
  "latencies_ok g = (\<forall>a l. um_find (g_clwbLatency g) a = Some l \<longrightarrow> unat l \<le> max_latency)"

definition full_inv :: "FullCfg \<Rightarrow> (PC_t \<Rightarrow> nat) \<Rightarrow> nat \<Rightarrow> FullSys \<Rightarrow> bool" where
  "full_inv c sz n s = (sys_inv (fl_front c) (fu_front s) \<and> sys_inv (fl_back c) (fu_back s) \<and>
     (\<exists>g fe be prev. sy_gs (fu_front s) = ((g, fe), prev) \<and> sy_gs (fu_back s) = (g, be) \<and> prev \<le> sy_now (fu_front s) \<and>
        fe_inv (fl_fc c) sz n prev fe \<and> sink_inv (fl_meta c) g \<and> counts_le n g \<and> latencies_ok g))"

lemma sys_inv_set: "sys_inv cfg (set_front g f) = sys_inv cfg f" "sys_inv cfg (set_back g b) = sys_inv cfg b"
  by (simp_all add: set_front_def set_back_def sys_inv_def owed_def)

lemma send_req_gs: "send_req f now edge ok br s = Inr t \<Longrightarrow> sy_gs t = sy_gs s \<and> sy_now t = now"
  by (auto simp: send_req_def Let_def bindE_eq_Inr split: if_splits)

lemma send_resp_gs: "send_resp f now edge ok br s = Inr t \<Longrightarrow> sy_gs t = sy_gs s \<and> sy_now t = now"
  by (auto simp: send_resp_def bindE_eq_Inr split: if_splits)

text \<open>A step of a port changes the state of the predictor only when it receives.\<close>

lemma port_step_gs:
  assumes "port_step P a s = Inr t" and "port_enabled P' a s"
  shows "sy_now s \<le> sy_now t"
    "(\<exists>x now edge pkt b br. a = RecvReq x now edge pkt \<and> sy_now t = now \<and> po_recvReq P x now edge pkt (sy_gs s, sy_br s) = Inr (b, sy_gs t, br)) \<or>
     (\<exists>y now edge pkt br. a = RecvResp y now edge pkt \<and> po_recvResp P y now edge pkt (sy_gs s, sy_br s) = Inr (sy_gs t, br)) \<or>
     sy_gs t = sy_gs s"
proof -
  show "sy_now s \<le> sy_now t"
    using assms by (cases a) (auto simp: may_pass_def bindE_eq_Inr dest!: send_req_gs send_resp_gs split: option.splits)
  show "(\<exists>x now edge pkt b br. a = RecvReq x now edge pkt \<and> sy_now t = now \<and> po_recvReq P x now edge pkt (sy_gs s, sy_br s) = Inr (b, sy_gs t, br)) \<or>
     (\<exists>y now edge pkt br. a = RecvResp y now edge pkt \<and> po_recvResp P y now edge pkt (sy_gs s, sy_br s) = Inr (sy_gs t, br)) \<or>
     sy_gs t = sy_gs s"
    using assms by (cases a) (auto simp: bindE_eq_Inr dest!: send_req_gs send_resp_gs split: option.splits)
qed

section \<open>Steps of the front end\<close>

lemma show_predictor_ok:
  assumes fc: "fc_ok (fl_fc c)" and w: "world_ok w" "w_meta w = fl_meta c" and rq: "request_ok sz pkt" and n: "n < 2 ^ 31"
    and p: "p = ((g, fe), prev)" and inv: "fe_inv (fl_fc c) sz n prev fe" "sink_inv (fl_meta c) g" "counts_le n g"
    and now: "prev \<le> w_now w"
  shows "\<exists>g' fe' prev'. show_predictor (fl_fc c) w pkt p = Inr ((g', fe'), prev') \<and> prev' \<le> w_now w \<and>
    fe_inv (fl_fc c) sz (Suc n) prev' fe' \<and> sink_inv (fl_meta c) g' \<and> counts_le (Suc n) g' \<and> g_clwbLatency g' = g_clwbLatency g"
proof (cases "w_now w = prev")
  case True
  then show ?thesis using inv fe_inv_later [OF inv(1), of "Suc n" prev] counts_le_Suc [OF inv(3)] by (simp add: p show_predictor_def)
next
  case False
  then have lt: "prev < w_now w" using now by simp
  have wf: "um_wf (g_correctPredictions g)" using inv(2) by (simp add: sink_inv_def be_inv_def learn_ok_def)
  have f: "0 < fc_CL_ACC_SIZE (fl_fc c)" "rewards_ok (fc_pt (fl_fc c))" using fc by (auto simp: fc_ok_def)
  have n17: "17 * (n + 1) < 2 ^ 64" using n by simp
  have g: "sink_inv (w_meta w) g" using inv(2) w(2) by simp
  from request_keeps [OF rq w(1) f g counts_le_small [OF inv(3) wf n] n17 lt inv(1)] obtain g' fe' where
    r: "fe_predictorHandleRequest (fl_fc c) w pkt (g, fe) = Inr (g', fe')" "sink_inv (fl_meta c) g'" "same_mode g g'"
      "fe_inv (fl_fc c) sz (n + 1) (w_now w) fe'" using w(2) by (auto simp: kept_def)
  have "counts_le (Suc n) g'" by (rule counts_le_mode [OF r(3) inv(3)]) simp
  moreover have "g_clwbLatency g' = g_clwbLatency g" using r(3) by (simp add: same_mode_def)
  ultimately show ?thesis using False r by (auto simp: p show_predictor_def)
qed

lemma latencies_same: "g_clwbLatency g' = g_clwbLatency g \<Longrightarrow> latencies_ok g' = latencies_ok g"
  by (simp add: latencies_ok_def)

lemma latencies_erase: "latencies_ok g \<Longrightarrow> latencies_ok (g\<lparr>g_clwbLatency := um_erase a (g_clwbLatency g)\<rparr>)"
  by (simp add: latencies_ok_def um_find_erase)

text \<open>A response that is well-formed finds a latency, which is bounded, and takes it.\<close>

lemma take_latency_ok:
  assumes rp: "response_ok pt pkt" and lat: "latencies_ok g"
  shows "\<exists>l g' fe'. take_latency pt pkt (g, fe) = Inr (l, g', fe') \<and> unat l \<le> max_latency \<and> latencies_ok g'"
proof (cases "\<exists>va. g_predictorEnabled g \<and> resp_isClwb pkt = Inr True \<and> getVaddr (pk_req pkt) = Inr va \<and> va \<noteq> 0")
  case True
  then obtain va where va: "g_predictorEnabled g" "resp_isClwb pkt = Inr True" "getVaddr (pk_req pkt) = Inr va" "va \<noteq> 0" by blast
  have "isToPOC (pk_req pkt)" "req_getSize (pk_req pkt) = Inr 1" "is_vaddr_pm va"
    using va(2,3) by (auto simp: resp_isClwb_def bindE_eq_Inr split: if_splits)
  then obtain a where a: "translate pt va = Some a" "a \<noteq> 0" using rp va(3) by (auto simp: response_ok_def)
  let ?l = "case um_find (g_clwbLatency g) a of None \<Rightarrow> 0 | Some l \<Rightarrow> l"
  have "unat ?l \<le> max_latency" using lat by (auto simp: latencies_ok_def split: option.splits)
  then show ?thesis using va a latencies_erase [OF lat, of a] by (simp add: take_latency_def panic_if_def)
next
  case False
  have "\<exists>b. resp_isClwb pkt = Inr b \<and> (b \<longrightarrow> is_ok (getVaddr (pk_req pkt)))"
    using rp by (cases "isToPOC (pk_req pkt)") (auto simp: resp_isClwb_def response_ok_def is_ok_iff)
  then obtain b where b: "resp_isClwb pkt = Inr b" "b \<longrightarrow> is_ok (getVaddr (pk_req pkt))" by blast
  then have "take_latency pt pkt (g, fe) = Inr (0, g, fe)"
    using False by (cases "b \<and> g_predictorEnabled g") (auto simp: take_latency_def is_ok_iff)
  then show ?thesis using lat by simp
qed

lemma take_latency_keeps:
  assumes "take_latency pt pkt (g, fe) = Inr (l, g', fe')"
  shows "fe_inv fc sz n prev fe' = fe_inv fc sz n prev fe" "sink_inv cfg g' = sink_inv cfg g" "counts_le n g' = counts_le n g"
proof -
  consider "g' = g \<and> fe' = fe" | m k where "g' = g\<lparr>g_clwbLatency := m\<rparr> \<and> fe' = fe\<lparr>fe_clwbResponses := k\<rparr>"
    using assms by (auto simp: take_latency_def Let_def panic_if_def bindE_eq_Inr split: if_splits)
  then show "fe_inv fc sz n prev fe' = fe_inv fc sz n prev fe" "sink_inv cfg g' = sink_inv cfg g" "counts_le n g' = counts_le n g"
    by (cases; simp add: fe_inv_def acc_inv_def pred_inv_def addr_inv_def sink_inv_def be_inv_def learn_ok_def line_ok_def conf_table_ok_def
        pc_conf_ok_def tracker_ok_def counts_le_def)+
qed

lemma take_latency_lat:
  assumes t: "take_latency pt pkt (g, fe) = Inr (l, g', fe')" and lat: "latencies_ok g"
  shows "latencies_ok g'"
proof -
  consider "g' = g" | a where "g' = g\<lparr>g_clwbLatency := um_erase a (g_clwbLatency g)\<rparr>"
    using t by (auto simp: take_latency_def Let_def panic_if_def bindE_eq_Inr split: if_splits)
  then show ?thesis using lat latencies_erase [OF lat] by cases simp_all
qed

lemma response_enabled:
  assumes en: "port_enabled (sent_front c sz) (RecvResp pt now edge pkt) p" and gs: "sy_gs p = ((g, fe), prev)" and lat: "latencies_ok g"
  shows "port_enabled (front_ports (fl_front c) (fl_fc c)) (RecvResp pt now edge pkt) p"
proof -
  let ?T = "clockEdge (fl_front c) edge (bc_delay (fl_front c)) + receive_delay pkt"
  have r: "now \<le> ?T" "unat ?T + max_latency < 2 ^ 64" "response_ok pt pkt" using en by (simp_all add: sent_front_def)
  from take_latency_ok [OF r(3) lat] obtain l g' fe' where l: "take_latency pt pkt (g, fe) = Inr (l, g', fe')" "unat l \<le> max_latency" by blast
  have "unat (?T + l) = unat ?T + unat l" by (rule unat_add_small) (use r(2) l(2) in linarith)
  then have "now \<le> ?T + l" using r(1) by (simp add: word_le_nat_alt)
  then have "po_respOk (front_ports (fl_front c) (fl_fc c)) pt now edge pkt (sy_gs p)" using l(1) by (simp add: front_ports_def gs)
  then show ?thesis using en by simp
qed

lemma front_step_ok:
  assumes fc: "fc_ok (fl_fc c)" "cfg_pos (fl_front c)" and inv: "full_inv c sz n s" and n: "n < 2 ^ 31"
    and en: "port_enabled (sent_front c sz) a (fu_front s)"
  shows "\<exists>t. full_step c (Front a) s = Inr t \<and> full_inv c sz (Suc n) t"
proof -
  let ?P = "front_ports (fl_front c) (fl_fc c)"
  obtain g fe be prev where gs: "sy_gs (fu_front s) = ((g, fe), prev)" "sy_gs (fu_back s) = (g, be)" and pv: "prev \<le> sy_now (fu_front s)"
    and fi: "fe_inv (fl_fc c) sz n prev fe" "sink_inv (fl_meta c) g" "counts_le n g" and lat: "latencies_ok g" using inv by (auto simp: full_inv_def)
  have si: "sys_inv (fl_front c) (fu_front s)" using inv by (simp add: full_inv_def)
  have sp: "\<exists>g' fe' prev'. show_predictor (fl_fc c) (w\<lparr>w_now := now\<rparr>) pkt ((g, fe), prev) = Inr ((g', fe'), prev') \<and> prev' \<le> now \<and>
      fe_inv (fl_fc c) sz (Suc n) prev' fe' \<and> sink_inv (fl_meta c) g' \<and> counts_le (Suc n) g' \<and> latencies_ok g'"
    if "a = RecvReq w now edge pkt" for w now edge pkt
  proof -
    have e: "world_ok w" "w_meta w = fl_meta c" "request_ok sz pkt" "sy_now (fu_front s) \<le> now"
      using en that by (auto simp: sent_front_def may_pass_def)
    then have "world_ok (w\<lparr>w_now := now\<rparr>)" "w_meta (w\<lparr>w_now := now\<rparr>) = fl_meta c" "prev \<le> w_now (w\<lparr>w_now := now\<rparr>)"
      using pv by (auto simp: world_ok_def)
    from show_predictor_ok [OF fc(1) this(1,2) e(3) n HOL.refl fi this(3)] obtain g' fe' prev' where
      k: "show_predictor (fl_fc c) (w\<lparr>w_now := now\<rparr>) pkt ((g, fe), prev) = Inr ((g', fe'), prev')" "prev' \<le> now"
        "fe_inv (fl_fc c) sz (Suc n) prev' fe'" "sink_inv (fl_meta c) g'" "counts_le (Suc n) g'" "g_clwbLatency g' = g_clwbLatency g" by auto
    then show ?thesis using lat latencies_same [OF k(6)] by (intro exI [of _ g'] exI [of _ fe'] exI [of _ prev']) simp
  qed
  have enP: "port_enabled ?P a (fu_front s)"
  proof (cases a)
    case (RecvReq w now edge pkt)
    then show ?thesis using sp [OF RecvReq] en gs(1) by (auto simp: sent_front_def front_ports_def is_ok_iff)
  next
    case (RecvResp pt now edge pkt)
    then show ?thesis using en gs(1) response_enabled [of c sz pt now edge pkt "fu_front s" g fe prev, OF _ gs(1) lat] by simp
  qed (use en in \<open>simp_all add: sent_front_def\<close>)
  from pf.step_ok [OF si enP fc(2)] obtain f where f: "port_step ?P a (fu_front s) = Inr f" "sys_inv (fl_front c) f" by blast
  have later: "fe_inv (fl_fc c) sz (Suc n) prev fe" "counts_le (Suc n) g"
    using fe_inv_later [OF fi(1), of "Suc n" prev] counts_le_Suc [OF fi(3)] by simp_all
  note gsf = port_step_gs [OF f(1) en]
  have keep: "prev \<le> sy_now f \<and> fe_inv (fl_fc c) sz (Suc n) prev fe \<and> sink_inv (fl_meta c) g \<and> counts_le (Suc n) g \<and> latencies_ok g"
    using pv gsf(1) later fi(2) lat by auto
  have "\<exists>g' fe' prev'. sy_gs f = ((g', fe'), prev') \<and> prev' \<le> sy_now f \<and> fe_inv (fl_fc c) sz (Suc n) prev' fe' \<and>
      sink_inv (fl_meta c) g' \<and> counts_le (Suc n) g' \<and> latencies_ok g'"
    using gsf(2)
  proof (elim disjE exE conjE)
    fix w now edge pkt b br
    assume a: "a = RecvReq w now edge pkt" "sy_now f = now"
      and r: "po_recvReq ?P w now edge pkt (sy_gs (fu_front s), sy_br (fu_front s)) = Inr (b, sy_gs f, br)"
    then have "sy_gs f = ((g, fe), prev) \<or> show_predictor (fl_fc c) (w\<lparr>w_now := now\<rparr>) pkt ((g, fe), prev) = Inr (sy_gs f)"
      unfolding gs(1) by (auto simp: front_ports_def fe_recvTimingReq_eq panic_if_def bindE_eq_Inr split: if_splits)
    then show ?thesis
    proof
      assume "sy_gs f = ((g, fe), prev)"
      then show ?thesis using keep by simp
    next
      assume sh: "show_predictor (fl_fc c) (w\<lparr>w_now := now\<rparr>) pkt ((g, fe), prev) = Inr (sy_gs f)"
      from sp [OF a(1)] obtain g' fe' prev' where "sy_gs f = ((g', fe'), prev')" "prev' \<le> now"
        "fe_inv (fl_fc c) sz (Suc n) prev' fe'" "sink_inv (fl_meta c) g'" "counts_le (Suc n) g'" "latencies_ok g'" using sh by auto
      then show ?thesis using a(2) by simp
    qed
  next
    fix pt now edge pkt br
    assume "po_recvResp ?P pt now edge pkt (sy_gs (fu_front s), sy_br (fu_front s)) = Inr (sy_gs f, br)"
    then obtain l g' fe' where t: "take_latency pt pkt (g, fe) = Inr (l, g', fe')" "sy_gs f = ((g', fe'), prev)"
      unfolding gs(1) by (auto simp: front_ports_def fe_recvTimingResp_def bindE_eq_Inr)
    moreover have "latencies_ok g'" using take_latency_lat [OF t(1) lat] .
    ultimately show ?thesis using take_latency_keeps [OF t(1)] keep by simp
  next
    assume "sy_gs f = sy_gs (fu_front s)"
    then show ?thesis using gs(1) keep by simp
  qed
  then obtain g' fe' prev' where q: "sy_gs f = ((g', fe'), prev')" "prev' \<le> sy_now f" "fe_inv (fl_fc c) sz (Suc n) prev' fe'"
    "sink_inv (fl_meta c) g'" "counts_le (Suc n) g'" "latencies_ok g'" by blast
  let ?t = "s\<lparr>fu_front := f, fu_back := set_back g' (fu_back s)\<rparr>"
  have "full_step c (Front a) s = Inr ?t" using f(1) q(1) by (simp add: full_step_def)
  moreover have "sy_gs (fu_back ?t) = (g', be)" using gs(2) by (simp add: set_back_def)
  then have "full_inv c sz (Suc n) ?t" using f(2) inv q by (simp add: full_inv_def sys_inv_set)
  ultimately show ?thesis by blast
qed

section \<open>Steps of the back end\<close>

lemma back_step_ok:
  assumes pos: "cfg_pos (fl_back c)" and inv: "full_inv c sz n s" and n: "n < 2 ^ 31"
    and en: "port_enabled (sent_back c) a (fu_back s)"
  shows "\<exists>t. full_step c (Back a) s = Inr t \<and> full_inv c sz (Suc n) t"
proof -
  let ?P = "back_ports (fl_back c)"
  obtain g fe be prev where gs: "sy_gs (fu_front s) = ((g, fe), prev)" "sy_gs (fu_back s) = (g, be)" and pv: "prev \<le> sy_now (fu_front s)"
    and fi: "fe_inv (fl_fc c) sz n prev fe" "sink_inv (fl_meta c) g" "counts_le n g" and lat: "latencies_ok g" using inv by (auto simp: full_inv_def)
  have si: "sys_inv (fl_back c) (fu_back s)" using inv by (simp add: full_inv_def)
  have hd: "\<exists>g' be'. predictorHandleRequest env now junk pkt (g, be) = Inr (g', be') \<and> sink_inv (fl_meta c) g' \<and> counts_le (Suc n) g' \<and> latencies_ok g'"
    if "a = RecvReq (env, junk) now edge pkt" for env junk now edge pkt
  proof -
    have "back_ok pkt" using en that by (simp add: sent_back_def)
    from back_request_keeps [OF this fi(2,3) n, of env now junk be] obtain g' be' where
      k: "predictorHandleRequest env now junk pkt (g, be) = Inr (g', be')" "sink_inv (fl_meta c) g'" "counts_le (Suc n) g'"
        "g_clwbLatency g' = g_clwbLatency g" by auto
    then show ?thesis using lat latencies_same [OF k(4)] by (intro exI [of _ g'] exI [of _ be']) simp
  qed
  have enP: "port_enabled ?P a (fu_back s)"
  proof (cases a)
    case (RecvReq x now edge pkt)
    obtain env junk where x: "x = (env, junk)" by (cases x)
    then show ?thesis using hd [OF RecvReq [unfolded x]] RecvReq en gs(2) by (auto simp: sent_back_def back_ports_def is_ok_iff)
  qed (use en in \<open>simp_all add: sent_back_def\<close>)
  from pb.step_ok [OF si enP pos] obtain b where b: "port_step ?P a (fu_back s) = Inr b" "sys_inv (fl_back c) b" by blast
  have same: "sink_inv (fl_meta c) g \<and> counts_le (Suc n) g \<and> latencies_ok g" using lat fi(2) counts_le_Suc [OF fi(3)] by simp
  have "\<exists>g' be'. sy_gs b = (g', be') \<and> sink_inv (fl_meta c) g' \<and> counts_le (Suc n) g' \<and> latencies_ok g'"
    using port_step_gs(2) [OF b(1) en]
  proof (elim disjE exE conjE)
    fix x now edge pkt r br
    assume a: "a = RecvReq x now edge pkt"
      and r: "po_recvReq ?P x now edge pkt (sy_gs (fu_back s), sy_br (fu_back s)) = Inr (r, sy_gs b, br)"
    obtain env junk where x: "x = (env, junk)" by (cases x)
    show ?thesis
    proof (cases "is_metadata pkt")
      case True
      then have "sy_gs b = (g, be)" using r gs(2) by (simp add: x back_ports_def recvTimingReq_def)
      then show ?thesis using same by simp
    next
      case False
      then have "predictorHandleRequest env now junk pkt (g, be) = Inr (sy_gs b)"
        using recv_req_handles [of "fl_back c" env now edge junk pkt "(g, be)"] r gs(2) by (simp add: x back_ports_def)
      then show ?thesis using hd [OF a [unfolded x]] by auto
    qed
  next
    fix y now edge pkt br
    assume "po_recvResp ?P y now edge pkt (sy_gs (fu_back s), sy_br (fu_back s)) = Inr (sy_gs b, br)"
    then have "sy_gs b = (g, be)" using gs(2) by (auto simp: back_ports_def bindE_eq_Inr)
    then show ?thesis using same by simp
  next
    assume "sy_gs b = sy_gs (fu_back s)"
    then show ?thesis using gs(2) same by simp
  qed
  then obtain g' be' where q: "sy_gs b = (g', be')" "sink_inv (fl_meta c) g'" "counts_le (Suc n) g'" "latencies_ok g'" by blast
  let ?t = "s\<lparr>fu_front := set_front g' (fu_front s), fu_back := b\<rparr>"
  have "full_step c (Back a) s = Inr ?t" using b(1) q(1) by (simp add: full_step_def)
  moreover have "sy_gs (fu_front ?t) = ((g', fe), prev)" "sy_now (fu_front ?t) = sy_now (fu_front s)" using gs(1) by (simp_all add: set_front_def)
  then have "full_inv c sz (Suc n) ?t"
    using b(2) inv q pv fe_inv_later [OF fi(1), of "Suc n" prev] by (simp add: full_inv_def sys_inv_set)
  ultimately show ?thesis by blast
qed

section \<open>Steps that only change the shared state\<close>

lemma shared_step:
  assumes inv: "full_inv c sz n s" and gs: "sy_gs (fu_back s) = (g, be)"
    and g: "sink_inv (fl_meta c) g \<and> counts_le n g \<and> latencies_ok g \<longrightarrow> sink_inv (fl_meta c) g' \<and> counts_le n g' \<and> latencies_ok g'"
  shows "full_inv c sz (Suc n) (s\<lparr>fu_front := set_front g' (fu_front s), fu_back := set_back g' (fu_back s), fu_bmo := bm\<rparr>)"
proof -
  let ?t = "s\<lparr>fu_front := set_front g' (fu_front s), fu_back := set_back g' (fu_back s), fu_bmo := bm\<rparr>"
  obtain fe prev where f: "sy_gs (fu_front s) = ((g, fe), prev)" and pv: "prev \<le> sy_now (fu_front s)"
    and fi: "fe_inv (fl_fc c) sz n prev fe" "sink_inv (fl_meta c) g \<and> counts_le n g \<and> latencies_ok g" using inv gs by (auto simp: full_inv_def)
  have g': "sink_inv (fl_meta c) g'" "counts_le (Suc n) g'" "latencies_ok g'" using g fi(2) counts_le_Suc by simp_all
  have "sy_gs (fu_front ?t) = ((g', fe), prev)" "sy_gs (fu_back ?t) = (g', be)" "sy_now (fu_front ?t) = sy_now (fu_front s)"
    using f gs by (simp_all add: set_front_def set_back_def)
  then show ?thesis using inv g' pv fe_inv_later [OF fi(1), of "Suc n" prev] by (simp add: full_inv_def sys_inv_set)
qed

lemma switch_step_ok:
  assumes inv: "full_inv c sz n s"
  shows "\<exists>t. full_step c (Switch on) s = Inr t \<and> full_inv c sz (Suc n) t"
proof -
  obtain g be where gs: "sy_gs (fu_back s) = (g, be)" using inv by (auto simp: full_inv_def)
  let ?g = "(if on then workbegin else workend) g"
  have "latencies_ok ?g = latencies_ok g" by (simp add: latencies_ok_def workbegin_def workend_def)
  then have "full_inv c sz (Suc n) (s\<lparr>fu_front := set_front ?g (fu_front s), fu_back := set_back ?g (fu_back s), fu_bmo := fu_bmo s\<rparr>)"
    by (intro shared_step [OF inv gs]) (auto simp: sink_inv_switch)
  then show ?thesis using gs by (simp add: full_step_def Let_def)
qed

text \<open>The latency of the controller is bounded, and a line that keeps a prediction stays well-formed.\<close>

lemma ready_bound: "unat (pk_verificationCacheMisses pkt) \<le> 12 \<Longrightarrow> ready s pkt t t - t \<le> max_latency"
  by (auto simp: ready_def ev_ready_def dw_ready_def max_latency_def max_def)

lemma handled_keeps:
  assumes g: "sink_inv cfg g" and q: "line_of g paddr = q" and r: "r \<noteq> []" "set r \<subseteq> set q" "length r \<le> length q"
  shows "sink_inv cfg (handled paddr r l g)"
proof -
  have bi: "be_inv g" using g by (simp add: sink_inv_def)
  have ln: "line_ok g paddr q"
  proof (cases "um_find (g_completedWrites g) paddr")
    case None
    then show ?thesis using q r(1,2) by (simp add: line_of_def)
  next
    case (Some x)
    then show ?thesis using q bi by (simp add: line_of_def be_inv_def)
  qed
  then have "line_ok g paddr r" using r by (auto simp: line_ok_def list_all_iff)
  then have "be_inv (handled paddr r l g)" using bi
    by (auto simp: be_inv_def handled_def line_ok_def learn_ok_def conf_table_ok_def pc_conf_ok_def tracker_ok_def um_find_put um_wf_intros split: if_splits)
  then show ?thesis using g by (simp add: sink_inv_def handled_def)
qed

lemma ctrl_step_ok:
  assumes inv: "full_inv c sz n s" and en: "ctrl_ok (fst (sy_gs (fu_back s))) (fu_bmo s) now pkt"
  shows "\<exists>t. full_step c (Ctrl env now pkt) s = Inr t \<and> full_inv c sz (Suc n) t"
proof -
  obtain g be where gs: "sy_gs (fu_back s) = (g, be)" and g: "sink_inv (fl_meta c) g" "latencies_ok g" using inv by (auto simp: full_inv_def)
  obtain paddr ds where p: "line_write pkt paddr ds" "timed now pkt (fu_bmo s)"
      "list_all (\<lambda>e. cw_timeOfAddrGen e \<le> now \<and> cw_timeOfDataGen e \<le> now) (line_of g paddr)"
      "(if list_ex (used_match paddr ds) (line_of g paddr) then tl (line_of g paddr) else line_of g paddr) \<noteq> []"
    using en gs unfolding ctrl_ok_def by (simp only: fst_conv) blast
  let ?q = "line_of g paddr"
  let ?r = "if list_ex (used_match paddr ds) ?q then tl ?q else ?q"
  have "list_all entry_ok ?q" using g(1) by (auto simp: line_of_def sink_inv_def be_inv_def line_ok_def split: option.splits)
  then have past: "past_line now ?q" using p(3) by (simp add: past_line_def list_all_iff)
  from handle_write_run [OF p(1) past HOL.refl p(2), of env] obtain l bm where
    h: "BMOHandleWriteRequest env now pkt (g, fu_bmo s) = Inr (handled paddr ?r l g, bm)"
      "unat l = ready (fu_bmo s) pkt (unat (charged_addr env now ?q)) (unat (charged_data env now paddr ds ?q)) - unat now" by blast
  have "ready (fu_bmo s) pkt (unat (charged_addr env now ?q)) (unat (charged_data env now paddr ds ?q)) \<le> ready (fu_bmo s) pkt (unat now) (unat now)"
    using charged_le [OF past] by (intro ready_mono) (simp_all add: word_le_nat_alt)
  moreover have "ready (fu_bmo s) pkt (unat now) (unat now) - unat now \<le> max_latency" using p(2) by (intro ready_bound) (simp add: timed_def)
  ultimately have "unat l \<le> max_latency" using h(2) by linarith
  then have "latencies_ok (handled paddr ?r l g)" using g(2) by (auto simp: latencies_ok_def handled_def um_find_put split: if_splits)
  moreover have "sink_inv (fl_meta c) (handled paddr ?r l g)"
    by (rule handled_keeps [OF g(1) HOL.refl p(4)]) (cases "line_of g paddr"; simp add: subset_insertI)+
  moreover have "counts_le n (handled paddr ?r l g) = counts_le n g" by (simp add: counts_le_def handled_def)
  ultimately have "full_inv c sz (Suc n) (s\<lparr>fu_front := set_front (handled paddr ?r l g) (fu_front s),
      fu_back := set_back (handled paddr ?r l g) (fu_back s), fu_bmo := bm\<rparr>)"
    by (intro shared_step [OF inv gs]) auto
  then show ?thesis using gs h(1) by (cases s) (simp add: full_step_def)
qed

definition full_cfg_ok :: "FullCfg \<Rightarrow> bool" where
  "full_cfg_ok c = (fc_ok (fl_fc c) \<and> cfg_ok (fl_meta c) \<and> cfg_pos (fl_front c) \<and> cfg_pos (fl_back c))"

lemma full_step_ok:
  assumes c: "full_cfg_ok c" and inv: "full_inv c sz n s" and n: "n < 2 ^ 31" and en: "full_enabled c sz a s"
  shows "\<exists>t. full_step c a s = Inr t \<and> full_inv c sz (Suc n) t"
proof (cases a)
  case (Front x)
  then show ?thesis using front_step_ok [OF _ _ inv n] c en by (simp add: full_cfg_ok_def full_enabled_def)
next
  case (Back x)
  then show ?thesis using back_step_ok [OF _ inv n] c en by (simp add: full_cfg_ok_def full_enabled_def)
next
  case (Ctrl env now pkt)
  then show ?thesis using ctrl_step_ok [OF inv] en by (simp add: full_enabled_def)
next
  case (Switch on)
  then show ?thesis using switch_step_ok [OF inv] by simp
qed

lemma no_latencies: "mk_PredictorBackend env scale Globals_init = (g, be) \<Longrightarrow> latencies_ok g"
  by (auto simp: mk_PredictorBackend_def Globals_init_def latencies_ok_def um_find_def)

lemma full_init_inv:
  assumes "full_cfg_ok c" and "0 < whbSize" and "0 < pendSize"
  shows "full_inv c sz 0 (full_init c env scale nm whbSize pendSize)"
proof -
  have f: "fc_ok (fl_fc c)" "cfg_ok (fl_meta c)" using assms(1) by (simp_all add: full_cfg_ok_def)
  obtain g be where g: "mk_PredictorBackend env scale Globals_init = (g, be)" by (cases "mk_PredictorBackend env scale Globals_init")
  let ?fe = "mk_Frontend (fl_fc c) nm whbSize (mk_PendingTable (nm @ ''.pend_t'') pendSize env)"
  let ?s = "full_init c env scale nm whbSize pendSize"
  have "sy_gs (fu_front ?s) = ((g, ?fe), 0)" "sy_gs (fu_back ?s) = (g, be)" "sy_now (fu_front ?s) = 0"
    "sys_inv (fl_front c) (fu_front ?s)" "sys_inv (fl_back c) (fu_back ?s)"
    by (simp_all add: full_init_def g init_inv) (simp_all add: Sys_init_def)
  then show ?thesis
    using mk_Frontend_inv [OF f(1) assms(2,3), of sz nm "nm @ ''.pend_t''" env] init_globals_ok [OF f(2), of env scale]
      no_latencies [OF g] by (simp add: full_inv_def g)
qed

lemma full_reach_inv:
  assumes "full_reach c sz s0 n s" and "full_cfg_ok c" and "full_inv c sz 0 s0" and "n \<le> 2 ^ 31"
  shows "full_inv c sz n s"
  using assms
proof (induction rule: full_reach.induct)
  case start
  then show ?case by simp
next
  case (step n s a t)
  then have "full_inv c sz n s" "n < 2 ^ 31" by simp_all
  from full_step_ok [OF step.prems(1) this step.hyps(2)] show ?case using step.hyps(3) by auto
qed

section \<open>Properties\<close>


text \<open>The latency that a write-back response takes is the one recorded under the address its virtual address
  translates to, and none when there is no such record.\<close>

definition recorded :: "Globals \<Rightarrow> Addr_t \<Rightarrow> Tick" where
  "recorded g a = (case um_find (g_clwbLatency g) a of None \<Rightarrow> 0 | Some l \<Rightarrow> l)"

lemma clwb_response_run:
  assumes rp: "resp_isClwb rp = Inr True" "getVaddr (pk_req rp) = Inr va" and tr: "translate pt va = Some a" "a \<noteq> 0"
    and en: "g_predictorEnabled g"
    and T: "T = clockEdge cfg edge (bc_delay cfg) + receive_delay rp" "later \<le> T" "unat T + unat (recorded g a) < 2 ^ 64"
    and ev: "br_resps br = [] \<longrightarrow> br_respEvent br = None"
  shows "\<exists>fe2 br2. fe_recvTimingResp cfg pt later edge rp (((g, fe), prev), br) =
      Inr (((g\<lparr>g_clwbLatency := um_erase a (g_clwbLatency g)\<rparr>, fe2), prev), br2) \<and>
    br_resps br2 = br_resps br @ [\<lparr>dp_tick = T + recorded g a, dp_pkt = reset_delays rp\<rparr>] \<and>
    unat (T + recorded g a) = unat T + unat (recorded g a)"
proof -
  let ?k = "recorded g a" and ?g = "g\<lparr>g_clwbLatency := um_erase a (g_clwbLatency g)\<rparr>" and ?fe = "fe\<lparr>fe_clwbResponses := fe_clwbResponses fe + 1\<rparr>"
  let ?br = "br\<lparr>br_respEvent := (if br_resps br = [] then Some (T + ?k) else br_respEvent br),
     br_resps := br_resps br @ [\<lparr>dp_tick = T + ?k, dp_pkt = reset_delays rp\<rparr>]\<rparr>"
  have nz: "va \<noteq> 0" using rp by (auto simp: resp_isClwb_def is_vaddr_pm_def bindE_eq_Inr split: if_splits)
  have sum: "unat (T + ?k) = unat T + unat ?k" by (rule unat_add_small) (use T(3) in linarith)
  then have late: "later \<le> T + ?k" using T(2) by (simp add: word_le_nat_alt)
  have tk: "take_latency pt rp (g, fe) = Inr (?k, ?g, ?fe)"
    using rp tr nz en by (simp add: take_latency_def recorded_def Let_def panic_if_def)
  have "fe_schedTimingResp later (reset_delays rp) (T + ?k) br = Inr ?br"
    using ev late by (simp add: fe_schedTimingResp_def schedule_event_def)
  then have "fe_recvTimingResp cfg pt later edge rp (((g, fe), prev), br) = Inr (((?g, ?fe), prev), ?br)"
    using tk T(1) by (simp add: fe_recvTimingResp_def)
  then show ?thesis using sum by (intro exI [of _ ?fe] exI [of _ ?br]) simp
qed


section \<open>Examples\<close>

definition example_full :: FullCfg where
  "example_full = \<lparr>fl_front = example_bridge, fl_back = example_bridge, fl_fc = example_fecfg, fl_meta = example_cfg\<rparr>"

definition example_use :: environ where
  "example_use name = (if name = ''USE_PREDICTOR'' then Some ''1'' else None)"

definition example_begin :: FullSys where
  "example_begin = full_init example_full example_use id ''pf'' 64 64"

definition example_on :: FullSys where
  "example_on = example_begin\<lparr>fu_front := set_front (workbegin (fst (mk_PredictorBackend example_use id Globals_init))) (fu_front example_begin),
     fu_back := set_back (workbegin (fst (mk_PredictorBackend example_use id Globals_init))) (fu_back example_begin)\<rparr>"

lemma example_full_ok: "full_cfg_ok example_full"
  using example_fc_ok example_cfg_ok example_pos by (simp add: full_cfg_ok_def example_full_def)

lemma example_switched: "full_reach example_full (\<lambda>_. 2) example_begin 1 example_on"
proof -
  have st: "full_step example_full (Switch True) example_begin = Inr example_on"
    by (simp add: full_step_def example_on_def example_begin_def full_init_def Sys_init_def Let_def)
  have "full_enabled example_full (\<lambda>_. 2) (Switch True) example_begin" by (simp add: full_enabled_def)
  from full_reach.step [OF full_reach.start this st] show ?thesis by simp
qed

lemma example_store_sent: "full_enabled example_full (\<lambda>_. 2) (Front (RecvReq (example_world 9) 9 500 (example_pkt 0x10000001008 [5, 6]))) example_on"
proof -
  have "request_ok (\<lambda>_. 2) (example_pkt 0x10000001008 [5, 6])"
    using example_run_ok by (simp add: run_ok_def example_acts_def action_ok_def)
  moreover have "world_ok (example_world 9)" "w_meta (example_world 9) = example_cfg" by (simp_all add: world_ok_def example_world_def)
  moreover have "\<not> cacheResponding (example_pkt 0x10000001008 [5, 6])" "receive_delay (example_pkt 0x10000001008 [5, 6]) = 0"
    by (simp_all add: example_pkt_def cacheResponding_def packet_defs receive_delay_def)
  moreover have "may_pass 9 (fu_front example_on)"
    by (simp add: may_pass_def example_on_def example_begin_def set_front_def full_init_def Sys_init_def Bridge_init_def)
  ultimately show ?thesis
    by (simp add: full_enabled_def sent_front_def example_full_def example_bridge_def clockEdge_def)
qed


definition example_pages :: EmulationPageTable where
  "example_pages = \<lparr>em_pTable = [(0x10000001000, \<lparr>en_paddr = 0x300001000, en_flags = 0\<rparr>)], em_bits = 12\<rparr>"

lemma example_handled:
  "\<exists>g1 s1. BMOHandleWriteRequest example_env 9 (example_write 5) (example_globals, mk_BmoState example_env) = Inr (g1, s1) \<and> g_predictorEnabled g1"
proof -
  have q: "line_of example_globals 0x300001000 = [example_prediction 0x300001000]" by (simp add: line_of_def example_globals_line)
  have "g_predictorEnabled (handled 0x300001000 r l example_globals)" for r l by (simp add: handled_def example_globals_def)
  then show ?thesis using handle_write_run [OF example_write_line example_past q example_timed, of example_env] by metis
qed


end
