(* ===== verification/Spec2Isabelle.thy ===== *)
theory Spec2Isabelle
  imports Pending_Table Addr_Predictor Predictor_Learning Full_System
begin

text \<open>
  A verification of PMWeaver: the hardware that predicts persistent writes ahead of time, so that the
  backend memory operations (encryption with integrity verification, or deduplication with wear levelling)
  overlap with execution.  The sources are the predictor and the memory controller of the gem5 tree
  (\<open>gem5/src/mem\<close>).

  \<^bold>\<open>The parts and how they interact.\<close>  The front end watches stores, keeps a history of persistent
  writes and a table of learned patterns, and completes a pending prediction when the stores it waits for
  arrive.  A completed prediction goes to the back end, which translates its address, stores it in the
  result buffer, one queue per line, and queues it for the memory controller.  A persistent write that
  reaches the back end is compared with the predictions of its line, and the outcome is the feedback that
  the front end's confidences learn from.  The memory controller reads its metadata caches for the queued
  predictions and charges a write the latency that remains of its operations.

  \<^bold>\<open>Conventions\<close> (\<open>Prelude\<close>).  A statement that may abort is a value of \<open>'a res\<close>: \<open>Inl\<close> of a panic, a
  failed assertion, an exception or undefined behaviour, or \<open>Inr\<close> of a result; \<open>bindE\<close> sequences,
  \<open>fold_res\<close> is a loop.  Objects are records with prefixed fields, enumerations are datatypes, machine
  words are words of their width.  An \<open>unordered_map\<close> is an association list whose order stands for the
  iteration order, which C++ leaves open.  Shared objects are entries of an explicit store
  where aliasing matters (\<open>Pending_Table\<close>).  Time, the environment, the page table contents, and the
  configuration are parameters.  The 64-bit ages of the predictor table are integers.  Statistics are
  natural numbers, distributions are the list of their samples.  Output to streams is not modelled; the
  reads that its arguments make, and that can panic, are.

  \<^bold>\<open>The theories.\<close>
  \<^item> \<open>Mem_Packet\<close>: \<open>packet.hh\<close>, \<open>packet.cc\<close>, \<open>request.hh\<close>: commands, flags, guarded accessors.
  \<^item> \<open>Common\<close>: \<open>Common.hh\<close>, \<open>Declarations\<close>: address helpers, flags, environment, saturating confidence
    (locale \<open>saturating_counter\<close>).
  \<^item> \<open>Queues\<close>: \<open>DataStore.hh\<close> and the bounded queues (locale \<open>bounded_fifo\<close>): they keep the last \<open>n\<close>
    elements, and clearing ends.
  \<^item> \<open>Addr_Predictor\<close>: the stride predictor.
  \<^item> \<open>Chunk_Info\<close>, \<open>Cache_Line\<close>, \<open>Write_History\<close>, \<open>Completed_Write\<close>: the data of predictions (locale
    \<open>guarded_field\<close> for members that a flag guards): searches, merging, construction from packets.
  \<^item> \<open>Pending_Table\<close>: predictions waiting for stores: the invariant of counters, queues and insertion
    order, what a store completes and what it removes.
  \<^item> \<open>Page_Table\<close>: mapping, unmapping and translation.
  \<^item> \<open>Meta_Cache\<close>, \<open>Tree_Cache\<close>: the counter and verification caches of \<open>dram_ctrl.hh\<close>: both refine an
    abstract least-recently-used cache (locale \<open>lru_cache\<close>), the counter cache one of sixteen lines per set.
  \<^item> \<open>Globals\<close>: the static tables of \<open>SharedArea\<close>, \<open>PredictorBackend\<close> and \<open>DRAMCtrl\<close> as one record.
  \<^item> \<open>Predictor_Table\<close>, \<open>Predictor_Learning\<close>: entries, insertion, aging, feedback, path hash.
  \<^item> \<open>Backend\<close>, \<open>Backend_Matching\<close>: \<open>predictor_backend.cc\<close>: the invariant of the result buffer, the
    prediction a write consumes, the accounting of writes.
  \<^item> \<open>Frontend\<close>: the state of \<open>predictor_frontend.cc\<close>, the write history, the accumulator of lines and free
    predictions (locale \<open>prediction_sink\<close> for what it relies on in the back end).
  \<^item> \<open>Frontend_Learning\<close>: training on a line that is written back; the search of the history equals a
    reference search per chunk.
  \<^item> \<open>Frontend_Predict\<close>: promotion of learned entries, completed predictions, \<open>predictorHandleRequest\<close>.
  \<^item> \<open>Frontend_Inv\<close>, \<open>Frontend_Run\<close>: the invariant of the front end, and that every request keeps it.
  \<^item> \<open>Predictor_System\<close>: the front end and the back end on their shared state, switched by \<open>workbegin\<close> and
    \<open>workend\<close>: any interleaving of their requests runs without an abort.
  \<^item> \<open>Bridge\<close>: the ports of the back end as a state machine (inductive reachability over the actions of the
    environment): its assertions hold, it is a first-in first-out channel, a stalled request is retried
    (locale \<open>bridge_ports\<close> for what the handlers of a bridge have to do).
  \<^item> \<open>Frontend_Ports\<close>: the ports of the front end, which are a bridge of the same kind.
  \<^item> \<open>BMO\<close>: \<open>dram_ctrl.cc\<close>, the latency of a write under every setting of the environment and its handling; the
    interplay with the result buffer.
  \<^item> \<open>Full_System\<close>: both predictors with their ports and the controller's handling of writes on the shared
    state: no action of the environment makes them abort; the response to a write-back waits for the latency
    that the controller recorded under its address, which is the one of its line only when it is aligned.

  \<^bold>\<open>Bounds.\<close>  Latencies are exact for ticks below \<open>2 ^ 63\<close> and at most twelve misses of the
  verification cache, the height of the tree; the sums then stay below \<open>2 ^ 64\<close>.  A run of the front end
  and the back end has at most \<open>2 ^ 31\<close> steps: the feedback counts then fit an \<open>int\<close>, and the queues of
  pending chunks, at most seventeen more per request, stay below \<open>2 ^ 64\<close>.  These runs have one request of
  the front end per tick, which its port provides, and every instruction stores a fixed number of chunks.  In
  \<open>Predictor_System\<close> the memory controller takes no step.  In \<open>Full_System\<close> it handles the write of a line while
  a prediction of the line stays buffered; any other write leaves an empty queue, and then the result buffer
  is ill-formed, which a theorem of \<open>BMO\<close> shows.  The latencies it records are at most 1080000 ticks, a miss
  of the counter cache and twelve of the verification cache, and the ticks of responses stay below \<open>2 ^ 64\<close>
  with them.  No model uses fuel: every
  loop is a recursion over a list or has a termination proof.

  \<^bold>\<open>Not modelled.\<close>  The functional accesses of the ports, which search the queued packets without
  changing the predictors; the request handler, the queues and the timing of the DRAM controller, with the flush of
  the metadata queues into them; the trace and the printing functions; checkpoints of the page table.
  \<open>Filter\<close> is not part of the build, \<open>SafeTypedef\<close> and \<open>LastFoundKeyEntry\<close> are not used by the code that is
  modelled.  The processors, devices and caches of gem5 and the workloads call the code or are called by it
  and are no part of it.
\<close>

end
